(* ===== verification/Kernel_Prelude.thy ===== *)
theory Kernel_Prelude
  imports Main
begin

text \<open>
  What every component of the development shares.

  \<^item> \<open>outcome\<close>: the result of a Rust function that can panic (an \<open>assert!\<close>, an \<open>unwrap\<close> or
    \<open>expect\<close> on the failing variant, an index out of bounds). A failed operation that \<^emph>\<open>returns\<close>
    an error is not a panic: it is a value of a sum type, with an \<open>errno\<close> on the left.
  \<^item> The width of \<open>usize\<close> on the supported (64-bit) targets, and Rust's checked addition.
  \<^item> \<open>position\<close>, \<open>insert_at\<close>, \<open>remove_at\<close>, \<open>swap_at\<close>: the \<open>Vec\<close> and slice operations the
    sources use by index.
  \<^item> The locale \<open>step_system\<close>: reachable states of a step relation and the invariant rule, used
    by every component whose correctness is a statement about sequences of operations.
\<close>

section \<open>Results of operations\<close>

datatype 'a outcome = Return 'a | Panic

named_theorems outcome_simps \<open>unfolding of the sequencing of operations that can panic\<close>

fun and_then :: "'a outcome \<Rightarrow> ('a \<Rightarrow> 'b outcome) \<Rightarrow> 'b outcome" where
  "and_then (Return x) f = f x"
| "and_then Panic f = Panic"

lemma and_then_Return_iff [simp]:
  "and_then m f = Return y \<longleftrightarrow> (\<exists>x. m = Return x \<and> f x = Return y)"
  by (cases m) auto

lemma and_then_Panic_iff:
  "and_then m f = Panic \<longleftrightarrow> m = Panic \<or> (\<exists>x. m = Return x \<and> f x = Panic)"
  by (cases m) auto

lemma and_then_assoc [simp]: "and_then (and_then m f) g = and_then m (\<lambda>x. and_then (f x) g)"
  by (cases m) auto

text \<open>Rust's \<open>assert!\<close>, \<open>unwrap\<close> and \<open>expect\<close>.\<close>

definition assert_that :: "bool \<Rightarrow> unit outcome" where
  "assert_that b = (if b then Return () else Panic)"

lemma assert_that_simps [simp]:
  "assert_that True = Return ()"
  "assert_that False = Panic"
  "assert_that b = Return u \<longleftrightarrow> b"
  by (simp_all add: assert_that_def)

primrec unwrap :: "'a option \<Rightarrow> 'a outcome" where
  "unwrap None = Panic"
| "unwrap (Some x) = Return x"

lemma unwrap_Return_iff [simp]: "unwrap x = Return y \<longleftrightarrow> x = Some y"
  by (cases x) auto

text \<open>A loop over a list whose body can panic: the state is passed from one iteration to the next.\<close>

fun for_each :: "('a \<Rightarrow> 's \<Rightarrow> 's outcome) \<Rightarrow> 'a list \<Rightarrow> 's \<Rightarrow> 's outcome" where
  "for_each f [] s = Return s"
| "for_each f (x # xs) s = and_then (f x s) (for_each f xs)"

lemma for_each_append:
  "for_each f (xs @ ys) s = and_then (for_each f xs s) (for_each f ys)"
proof (induction xs arbitrary: s)
  case (Cons x xs)
  then have "for_each f (xs @ ys) = (\<lambda>s. and_then (for_each f xs s) (for_each f ys))" by blast
  then show ?case by simp
qed simp

text \<open>
  The invariant rule of such a loop, in total form: if the body returns and re-establishes the
  invariant for every element met in order, the loop returns.
\<close>

lemma for_each_rule:
  assumes "I [] s"
    and "\<And>done x s. \<exists>rest. done @ x # rest = xs \<Longrightarrow> I done s
          \<Longrightarrow> \<exists>s'. f x s = Return s' \<and> I (done @ [x]) s'"
  shows "\<exists>s'. for_each f xs s = Return s' \<and> I xs s'"
proof -
  have "\<exists>s'. for_each f (drop n xs) t = Return s' \<and> I xs s'"
    if "n \<le> length xs" "I (take n xs) t" for n t
    using that
  proof (induction "length xs - n" arbitrary: n t)
    case 0
    then show ?case by simp
  next
    case (Suc k)
    then have n: "n < length xs" by simp
    then have split: "drop n xs = xs ! n # drop (Suc n) xs" by (rule Cons_nth_drop_Suc [symmetric])
    have "take n xs @ xs ! n # drop (Suc n) xs = xs" by (rule id_take_nth_drop [OF n, symmetric])
    then obtain t' where t': "f (xs ! n) t = Return t'" "I (take n xs @ [xs ! n]) t'"
      using assms(2) Suc.prems(2) by blast
    have "I (take (Suc n) xs) t'" using t'(2) n by (simp add: take_Suc_conv_app_nth)
    moreover have "k = length xs - Suc n" "Suc n \<le> length xs" using Suc.hyps(2) n by simp_all
    ultimately obtain s' where
      "for_each f (drop (Suc n) xs) t' = Return s'" "I xs s'" using Suc.hyps(1) by blast
    with t'(1) split show ?case by simp
  qed
  from this [of 0 s] assms(1) show ?thesis by simp
qed

text \<open>The error numbers the modelled operations return.\<close>

datatype errno = EPERM | EAGAIN | EINVAL | ERANGE | EACCES | EBADF | EMFILE | ENOMEM | E2BIG
  | EFBIG | EIDRM | EINTR | ESRCH | EEXIST | ENOENT | ENOSPC | EFAULT | EOVERFLOW | ENODATA | EOPNOTSUPP

section \<open>Machine arithmetic on \<open>usize\<close>\<close>

text \<open>
  \<open>usize\<close> values whose overflow is excluded by a check of the code are modelled as \<open>nat\<close>, with
  the check written out; where the code wraps on purpose the component uses words.
\<close>

abbreviation usize_limit :: nat where
  "usize_limit \<equiv> 2 ^ 64"

definition checked_add_usize :: "nat \<Rightarrow> nat \<Rightarrow> nat option" where
  "checked_add_usize a b = (if a + b < usize_limit then Some (a + b) else None)"

section \<open>Vectors and slices\<close>

text \<open>\<open>iter().position(p)\<close>: the index of the first element satisfying \<open>p\<close>.\<close>

fun position :: "('a \<Rightarrow> bool) \<Rightarrow> 'a list \<Rightarrow> nat option" where
  "position p [] = None"
| "position p (x # xs) = (if p x then Some 0 else map_option Suc (position p xs))"

lemma position_None_iff: "position p xs = None \<longleftrightarrow> (\<forall>x \<in> set xs. \<not> p x)"
  by (induction xs) auto

lemma position_drop_None_iff:
  "position p (drop n xs) = None \<longleftrightarrow> (\<forall>i. n \<le> i \<longrightarrow> i < length xs \<longrightarrow> \<not> p (xs ! i))"
proof
  assume "position p (drop n xs) = None"
  then have none: "\<not> p (drop n xs ! j)" if "j < length xs - n" for j
    using that by (simp add: position_None_iff all_set_conv_all_nth)
  show "\<forall>i. n \<le> i \<longrightarrow> i < length xs \<longrightarrow> \<not> p (xs ! i)"
  proof (intro allI impI)
    fix i assume "n \<le> i" "i < length xs"
    with none [of "i - n"] show "\<not> p (xs ! i)" by simp
  qed
next
  assume "\<forall>i. n \<le> i \<longrightarrow> i < length xs \<longrightarrow> \<not> p (xs ! i)"
  then show "position p (drop n xs) = None"
    by (simp add: position_None_iff all_set_conv_all_nth)
qed

lemma position_SomeD:
  "position p xs = Some i \<Longrightarrow> i < length xs \<and> p (xs ! i) \<and> (\<forall>j < i. \<not> p (xs ! j))"
proof (induction xs arbitrary: i)
  case Nil
  then show ?case by simp
next
  case (Cons x xs)
  then show ?case by (auto simp: nth_Cons' split: if_splits)
qed

lemma position_append:
  "position p (xs @ ys) =
     (case position p xs of Some i \<Rightarrow> Some i | None \<Rightarrow> map_option (\<lambda>i. length xs + i) (position p ys))"
proof (induction xs)
  case Nil
  show ?case by (cases "position p ys") auto
next
  case (Cons x xs)
  then show ?case by (cases "position p ys") (auto split: option.splits)
qed

text \<open>\<open>Vec::insert\<close> and \<open>Vec::remove\<close> panic out of range, \<open>slice::swap\<close> too.\<close>

definition insert_at :: "nat \<Rightarrow> 'a \<Rightarrow> 'a list \<Rightarrow> 'a list outcome" where
  "insert_at i x xs = (if i \<le> length xs then Return (take i xs @ x # drop i xs) else Panic)"

definition remove_at :: "nat \<Rightarrow> 'a list \<Rightarrow> 'a list outcome" where
  "remove_at i xs = (if i < length xs then Return (take i xs @ drop (Suc i) xs) else Panic)"

definition swap_at :: "nat \<Rightarrow> nat \<Rightarrow> 'a list \<Rightarrow> 'a list outcome" where
  "swap_at i j xs =
     (if i < length xs \<and> j < length xs then Return (xs[i := xs ! j, j := xs ! i]) else Panic)"

lemma insert_at_append [simp]:
  "length ps = i \<Longrightarrow> insert_at i x (ps @ qs) = Return (ps @ x # qs)"
  by (auto simp: insert_at_def)

lemma remove_at_append [simp]:
  "length ps = i \<Longrightarrow> remove_at i (ps @ x # qs) = Return (ps @ qs)"
  by (auto simp: remove_at_def)

lemma swap_at_append [simp]:
  "length ps = i \<Longrightarrow> swap_at i (Suc i) (ps @ x # y # qs) = Return (ps @ y # x # qs)"
  by (auto simp: swap_at_def nth_append list_update_append)

section \<open>Step systems and their invariants\<close>

text \<open>
  An initial-state predicate, a step relation and an invariant that the steps keep. Reachability
  is the closure of the initial states under steps, and the invariant holds throughout.
\<close>

inductive reachable_from :: "('s \<Rightarrow> bool) \<Rightarrow> ('s \<Rightarrow> 's \<Rightarrow> bool) \<Rightarrow> 's \<Rightarrow> bool"
  for init :: "'s \<Rightarrow> bool" and step :: "'s \<Rightarrow> 's \<Rightarrow> bool" where
  reach_init: "init s \<Longrightarrow> reachable_from init step s"
| reach_step: "reachable_from init step s \<Longrightarrow> step s t \<Longrightarrow> reachable_from init step t"

lemma reachable_relpowp: "reachable_from init step s \<Longrightarrow> (step ^^ n) s t \<Longrightarrow> reachable_from init step t"
proof (induction n arbitrary: t)
  case (Suc n)
  then show ?case by (auto elim!: relcomppE intro: reachable_from.intros)
qed simp

locale step_system =
  fixes init :: "'s \<Rightarrow> bool" and step :: "'s \<Rightarrow> 's \<Rightarrow> bool" and invar :: "'s \<Rightarrow> bool"
  assumes invar_init: "init s \<Longrightarrow> invar s"
    and invar_step: "invar s \<Longrightarrow> step s t \<Longrightarrow> invar t"
begin

lemma reachable_invar: "reachable_from init step s \<Longrightarrow> invar s"
  by (induction rule: reachable_from.induct) (auto intro: invar_init invar_step)

text \<open>A relation between the initial state and the current one that every step extends.\<close>

lemma reachable_relates:
  assumes "reachable_from init step s"
    and "\<And>s. init s \<Longrightarrow> R s"
    and "\<And>s t. invar s \<Longrightarrow> R s \<Longrightarrow> step s t \<Longrightarrow> R t"
  shows "R s"
  using assms(1) by (induction rule: reachable_from.induct) (auto intro: assms reachable_invar)

end

section \<open>Simulation of a specification\<close>

text \<open>A sequence of operations, with their answers, up to the first panic.\<close>

fun run_ops :: "('o \<Rightarrow> 's \<Rightarrow> ('a \<times> 's) outcome) \<Rightarrow> 'o list \<Rightarrow> 's \<Rightarrow> ('a list \<times> 's) outcome" where
  "run_ops apply_op [] s = Return ([], s)"
| "run_ops apply_op (x # xs) s =
     and_then (apply_op x s) (\<lambda>(a, s').
     and_then (run_ops apply_op xs s') (\<lambda>(as, s''). Return (a # as, s'')))"

locale simulation =
  fixes apply_op :: "'o \<Rightarrow> 's \<Rightarrow> ('a \<times> 's) outcome" and spec_op :: "'o \<Rightarrow> 't \<Rightarrow> ('a \<times> 't) outcome"
    and invar :: "'s \<Rightarrow> bool" and abs :: "'s \<Rightarrow> 't"
  assumes simulates: "invar s \<Longrightarrow> case apply_op x s of
      Return (a, s') \<Rightarrow> spec_op x (abs s) = Return (a, abs s') \<and> invar s'
    | Panic \<Rightarrow> spec_op x (abs s) = Panic"
begin

lemma run_simulates:
  "invar s \<Longrightarrow> case run_ops apply_op xs s of
      Return (as, s') \<Rightarrow> run_ops spec_op xs (abs s) = Return (as, abs s') \<and> invar s'
    | Panic \<Rightarrow> run_ops spec_op xs (abs s) = Panic"
proof (induction xs arbitrary: s)
  case Nil
  then show ?case by simp
next
  case (Cons x xs)
  show ?case
  proof (cases "apply_op x s")
    case Panic
    then show ?thesis using simulates [OF Cons.prems, of x] by simp
  next
    case (Return r)
    obtain a t where r: "r = (a, t)" by (cases r)
    then have t: "spec_op x (abs s) = Return (a, abs t)" "invar t" using Return simulates [OF Cons.prems, of x] by simp_all
    show ?thesis using Cons.IH [OF t(2)] Return r t(1) by (cases "run_ops apply_op xs t") auto
  qed
qed

end

end
