(* ===== verification/Id_Allocator.thy ===== *)
theory Id_Allocator
  imports Kernel_Prelude
begin

text \<open>
  The contract of an identifier allocator, as its clients (process and thread identifiers, pseudo
  terminals, queue descriptors, network ports) rely on it: an allocation hands out the smallest
  identifier of the universe that is not in use, or reports exhaustion; a release of an identifier
  in use makes it available again. The bitmap allocator and the sparse allocator both meet it.

  \<open>serve\<close> runs a client's requests against an implementation and \<open>id_spec\<close> against the set of
  identifiers in use. The locale shows that an implementation answers every sequence of requests
  as the specification does.
\<close>

datatype id_request = Alloc_req | Free_req nat

fun serve :: "('s \<Rightarrow> (nat option \<times> 's) outcome) \<Rightarrow> ('s \<Rightarrow> nat \<Rightarrow> 's outcome) \<Rightarrow> id_request list
    \<Rightarrow> 's \<Rightarrow> (nat option list \<times> 's) outcome" where
  "serve alloc free [] s = Return ([], s)"
| "serve alloc free (Alloc_req # rs) s =
     and_then (alloc s) (\<lambda>(r, s). and_then (serve alloc free rs s) (\<lambda>(out, s). Return (r # out, s)))"
| "serve alloc free (Free_req i # rs) s = and_then (free s i) (serve alloc free rs)"

definition lowest_free :: "nat set \<Rightarrow> nat set \<Rightarrow> nat option" where
  "lowest_free U A = (if U \<subseteq> A then None else Some (LEAST i. i \<in> U - A))"

fun id_spec :: "nat set \<Rightarrow> id_request list \<Rightarrow> nat set \<Rightarrow> (nat option list \<times> nat set) outcome" where
  "id_spec U [] A = Return ([], A)"
| "id_spec U (Alloc_req # rs) A =
     (let r = lowest_free U A in
      and_then (id_spec U rs (A \<union> set_option r)) (\<lambda>(out, A). Return (r # out, A)))"
| "id_spec U (Free_req i # rs) A = (if i \<in> A then id_spec U rs (A - {i}) else Panic)"

lemma lowest_free_None_iff: "lowest_free U A = None \<longleftrightarrow> U \<subseteq> A"
  by (simp add: lowest_free_def)

lemma lowest_free_SomeD:
  assumes "lowest_free U A = Some i"
  shows "i \<in> U" "i \<notin> A" "\<And>j. j \<in> U \<Longrightarrow> j \<notin> A \<Longrightarrow> i \<le> j"
proof -
  from assms have ne: "\<not> U \<subseteq> A" and i: "i = (LEAST i. i \<in> U - A)"
    by (simp_all add: lowest_free_def split: if_splits)
  from ne obtain k where "k \<in> U - A" by blast
  then have "i \<in> U - A" unfolding i by (rule LeastI)
  then show "i \<in> U" "i \<notin> A" by auto
  show "i \<le> j" if "j \<in> U" "j \<notin> A" for j unfolding i by (rule Least_le) (use that in blast)
qed

lemma lowest_free_eq_SomeI:
  assumes "i \<in> U" "i \<notin> A" "\<And>j. j \<in> U \<Longrightarrow> j \<notin> A \<Longrightarrow> i \<le> j"
  shows "lowest_free U A = Some i"
proof -
  have "(LEAST i. i \<in> U - A) = i" by (rule Least_equality) (use assms in auto)
  moreover have "\<not> U \<subseteq> A" using assms(1,2) by blast
  ultimately show ?thesis by (simp add: lowest_free_def)
qed

locale id_allocator =
  fixes alloc :: "'s \<Rightarrow> (nat option \<times> 's) outcome"
    and free :: "'s \<Rightarrow> nat \<Rightarrow> 's outcome"
    and universe :: "'s \<Rightarrow> nat set"
    and in_use :: "'s \<Rightarrow> nat set"
    and invar :: "'s \<Rightarrow> bool"
  assumes alloc_law: "invar s \<Longrightarrow> \<exists>s'. alloc s = Return (lowest_free (universe s) (in_use s), s')
      \<and> invar s' \<and> universe s' = universe s
      \<and> in_use s' = in_use s \<union> set_option (lowest_free (universe s) (in_use s))"
    and free_law: "invar s \<Longrightarrow> i \<in> in_use s \<Longrightarrow> \<exists>s'. free s i = Return s'
      \<and> invar s' \<and> universe s' = universe s \<and> in_use s' = in_use s - {i}"
begin

lemma serve_meets_spec:
  assumes "invar s" and "id_spec (universe s) rs (in_use s) = Return (out, A)"
  shows "\<exists>s'. serve alloc free rs s = Return (out, s') \<and> invar s' \<and> universe s' = universe s
    \<and> in_use s' = A"
  using assms
proof (induction rs arbitrary: s out A)
  case Nil
  then show ?case by simp
next
  case (Cons r rs)
  show ?case
  proof (cases r)
    case Alloc_req
    from alloc_law [OF Cons.prems(1)] obtain s1 where
      s1: "alloc s = Return (lowest_free (universe s) (in_use s), s1)" "invar s1"
        "universe s1 = universe s"
        "in_use s1 = in_use s \<union> set_option (lowest_free (universe s) (in_use s))" by blast
    from Cons.prems(2) Alloc_req s1(3,4) obtain out' where
      "id_spec (universe s1) rs (in_use s1) = Return (out', A)"
      "out = lowest_free (universe s) (in_use s) # out'" by (auto simp: Let_def)
    with Cons.IH [OF s1(2)] s1 Alloc_req show ?thesis by fastforce
  next
    case (Free_req i)
    with Cons.prems(2) have i: "i \<in> in_use s"
      and spec: "id_spec (universe s) rs (in_use s - {i}) = Return (out, A)"
      by (auto split: if_splits)
    from free_law [OF Cons.prems(1) i] obtain s1 where
      "free s i = Return s1" "invar s1" "universe s1 = universe s" "in_use s1 = in_use s - {i}"
      by blast
    with Cons.IH [of s1] spec Free_req show ?thesis by simp
  qed
qed

end

text \<open>An allocator that also detects the release of an identifier not in use.\<close>

locale strict_id_allocator = id_allocator +
  assumes free_panics: "invar s \<Longrightarrow> i \<notin> in_use s \<Longrightarrow> free s i = Panic"
begin

lemma serve_panics_with_spec:
  assumes "invar s" and "id_spec (universe s) rs (in_use s) = Panic"
  shows "serve alloc free rs s = Panic"
  using assms
proof (induction rs arbitrary: s)
  case Nil
  then show ?case by simp
next
  case (Cons r rs)
  show ?case
  proof (cases r)
    case Alloc_req
    from alloc_law [OF Cons.prems(1)] obtain s1 where
      s1: "alloc s = Return (lowest_free (universe s) (in_use s), s1)" "invar s1"
        "universe s1 = universe s"
        "in_use s1 = in_use s \<union> set_option (lowest_free (universe s) (in_use s))" by blast
    with Cons.prems(2) Alloc_req have "id_spec (universe s1) rs (in_use s1) = Panic"
      by (auto simp: Let_def and_then_Panic_iff)
    with Cons.IH [OF s1(2)] s1(1) Alloc_req show ?thesis by simp
  next
    case (Free_req i)
    show ?thesis
    proof (cases "i \<in> in_use s")
      case True
      with free_law [OF Cons.prems(1)] obtain s1 where
        "free s i = Return s1" "invar s1" "universe s1 = universe s" "in_use s1 = in_use s - {i}"
        by blast
      with Cons.IH [of s1] Cons.prems(2) Free_req True show ?thesis by simp
    next
      case False
      with free_panics [OF Cons.prems(1)] Free_req show ?thesis by simp
    qed
  qed
qed

text \<open>The answers to a client, panics included, are those of the specification.\<close>

lemma serve_answers:
  assumes "invar s"
  shows "and_then (serve alloc free rs s) (\<lambda>(out, s'). Return out)
    = and_then (id_spec (universe s) rs (in_use s)) (\<lambda>(out, A). Return out)"
proof (cases "id_spec (universe s) rs (in_use s)")
  case (Return r)
  obtain out A where "r = (out, A)" by (cases r)
  with Return serve_meets_spec [OF assms, of rs out A] show ?thesis by auto
next
  case Panic
  with serve_panics_with_spec [OF assms] show ?thesis by simp
qed

end

end
