(* ===== verification/Id_Alloc.thy ===== *)
theory Id_Alloc
  imports Id_Allocator
begin

text \<open>
  The bitmap identifier allocator, \<open>ostd/libs/id-alloc/src/lib.rs\<close>: \<open>IdAlloc\<close> with its bitset and
  the cached position of the first free identifier, and every operation of the type. A bit is set
  when its identifier is allocated. The argument \<open>dbg\<close> of the two release operations says whether
  the build has debug assertions, which turn the release of a free identifier into a panic.

  The invariant is that the cache points at the first clear bit (or at the end). The first-fit
  search of \<open>alloc_consecutive\<close> is shown to find the lowest run of the requested length whenever
  there is one.
\<close>

section \<open>The allocator\<close>

record IdAlloc =
  bitset :: "bool list"
  first_available_id :: nat

definition IdAlloc_with_capacity :: "nat \<Rightarrow> IdAlloc" where
  "IdAlloc_with_capacity capacity = \<lparr>bitset = replicate capacity False, first_available_id = 0\<rparr>"

text \<open>\<open>BitVec::set\<close> and the index operation panic out of range.\<close>

definition bit_set :: "nat \<Rightarrow> bool \<Rightarrow> bool list \<Rightarrow> bool list outcome" where
  "bit_set i v bs = (if i < length bs then Return (bs[i := v]) else Panic)"

definition bit_get :: "bool list \<Rightarrow> nat \<Rightarrow> bool outcome" where
  "bit_get bs i = (if i < length bs then Return (bs ! i) else Panic)"

definition IdAlloc_is_allocated :: "IdAlloc \<Rightarrow> nat \<Rightarrow> bool outcome" where
  "IdAlloc_is_allocated self i = bit_get (bitset self) i"

definition IdAlloc_update_first_available_id :: "IdAlloc \<Rightarrow> nat \<Rightarrow> IdAlloc outcome" where
  "IdAlloc_update_first_available_id self start =
     (let len = length (bitset self) in
      if start \<le> len then
        Return (self\<lparr>first_available_id :=
          (case position (\<lambda>b. \<not> b) (drop start (bitset self)) of
             Some offset \<Rightarrow> start + offset
           | None \<Rightarrow> len)\<rparr>)
      else Panic)"

definition IdAlloc_alloc :: "IdAlloc \<Rightarrow> (nat option \<times> IdAlloc) outcome" where
  "IdAlloc_alloc self =
     (if first_available_id self < length (bitset self) then
        (let i = first_available_id self in
         and_then (bit_set i True (bitset self)) (\<lambda>bs.
         and_then (IdAlloc_update_first_available_id (self\<lparr>bitset := bs\<rparr>) (i + 1)) (\<lambda>self.
         Return (Some i, self))))
      else Return (None, self))"

text \<open>The \<open>while\<close> loop of \<open>alloc_consecutive\<close>; the range is the pair of its bounds.\<close>

function scan_range :: "bool list \<Rightarrow> nat \<Rightarrow> nat \<Rightarrow> nat \<Rightarrow> nat \<times> nat" where
  "scan_range bs count s e =
     (if e - s < count \<and> e < length bs then
        if \<not> bs ! e then scan_range bs count s (e + 1)
        else scan_range bs count (e + 1) (e + 1)
      else (s, e))"
  by pat_completeness auto
termination
  by (relation "measure (\<lambda>(bs, count, s, e). length bs - e)") auto

declare scan_range.simps [simp del]

definition IdAlloc_alloc_consecutive :: "IdAlloc \<Rightarrow> nat \<Rightarrow> ((nat \<times> nat) option \<times> IdAlloc) outcome"
  where
  "IdAlloc_alloc_consecutive self count =
     (if count = 0 then Return (None, self)
      else case checked_add_usize (first_available_id self) count of
        None \<Rightarrow> Return (None, self)
      | Some end' \<Rightarrow>
          if length (bitset self) < end' then Return (None, self)
          else
            let first = first_available_id self;
                (s, e) = scan_range (bitset self) count first (first + 1)
            in if e - s < count then Return (None, self)
               else
                 and_then (for_each (\<lambda>i. bit_set i True) [s..<e] (bitset self)) (\<lambda>bs.
                 let self = self\<lparr>bitset := bs\<rparr> in
                 and_then (IdAlloc_is_allocated self first) (\<lambda>allocated.
                 and_then (if allocated then IdAlloc_update_first_available_id self e else Return self)
                 (\<lambda>self. Return (Some (s, e), self)))))"

text \<open>\<open>debug_assert!(self.is_allocated(id)); self.bitset.set(id, false)\<close>.\<close>

definition release_bit :: "bool \<Rightarrow> nat \<Rightarrow> bool list \<Rightarrow> bool list outcome" where
  "release_bit dbg i bs =
     and_then (if dbg then and_then (bit_get bs i) assert_that else Return ()) (\<lambda>_.
     bit_set i False bs)"

definition IdAlloc_free_consecutive :: "bool \<Rightarrow> IdAlloc \<Rightarrow> nat \<times> nat \<Rightarrow> IdAlloc outcome" where
  "IdAlloc_free_consecutive dbg self rng =
     (let (s, e) = rng in
      if e \<le> s then Return self
      else
        and_then (for_each (release_bit dbg) [s..<e] (bitset self)) (\<lambda>bs.
        let self = self\<lparr>bitset := bs\<rparr> in
        Return (if s < first_available_id self then self\<lparr>first_available_id := s\<rparr> else self)))"

definition IdAlloc_free :: "bool \<Rightarrow> IdAlloc \<Rightarrow> nat \<Rightarrow> IdAlloc outcome" where
  "IdAlloc_free dbg self i =
     and_then (release_bit dbg i (bitset self)) (\<lambda>bs.
     let self = self\<lparr>bitset := bs\<rparr> in
     Return (if i < first_available_id self then self\<lparr>first_available_id := i\<rparr> else self))"

definition IdAlloc_alloc_specific :: "IdAlloc \<Rightarrow> nat \<Rightarrow> (nat option \<times> IdAlloc) outcome" where
  "IdAlloc_alloc_specific self i =
     and_then (bit_get (bitset self) i) (\<lambda>b.
     if b then Return (None, self)
     else
       and_then (bit_set i True (bitset self)) (\<lambda>bs.
       let self = self\<lparr>bitset := bs\<rparr> in
       and_then (if i = first_available_id self
                 then IdAlloc_update_first_available_id self (i + 1) else Return self) (\<lambda>self.
       Return (Some i, self))))"

section \<open>The invariant\<close>

definition IdAlloc_inv :: "IdAlloc \<Rightarrow> bool" where
  "IdAlloc_inv self \<longleftrightarrow>
     length (bitset self) < usize_limit
     \<and> first_available_id self \<le> length (bitset self)
     \<and> (\<forall>i < first_available_id self. bitset self ! i)
     \<and> (first_available_id self < length (bitset self) \<longrightarrow> \<not> bitset self ! first_available_id self)"

definition IdAlloc_universe :: "IdAlloc \<Rightarrow> nat set" where
  "IdAlloc_universe self = {..<length (bitset self)}"

definition IdAlloc_in_use :: "IdAlloc \<Rightarrow> nat set" where
  "IdAlloc_in_use self = {i. i < length (bitset self) \<and> bitset self ! i}"

lemma IdAlloc_inv_with_capacity: "capacity < usize_limit \<Longrightarrow> IdAlloc_inv (IdAlloc_with_capacity capacity)"
  by (simp add: IdAlloc_inv_def IdAlloc_with_capacity_def)

lemma IdAlloc_sets_with_capacity [simp]:
  "IdAlloc_universe (IdAlloc_with_capacity n) = {..<n}"
  "IdAlloc_in_use (IdAlloc_with_capacity n) = {}"
  by (auto simp: IdAlloc_universe_def IdAlloc_in_use_def IdAlloc_with_capacity_def)

text \<open>The cached position is the lowest free identifier.\<close>

lemma IdAlloc_lowest_free:
  assumes "IdAlloc_inv self"
  shows "lowest_free (IdAlloc_universe self) (IdAlloc_in_use self) =
    (if first_available_id self < length (bitset self) then Some (first_available_id self) else None)"
proof (cases "first_available_id self < length (bitset self)")
  case True
  have "lowest_free (IdAlloc_universe self) (IdAlloc_in_use self) = Some (first_available_id self)"
    using assms True
    by (intro lowest_free_eq_SomeI)
      (auto simp: IdAlloc_inv_def IdAlloc_universe_def IdAlloc_in_use_def not_less [symmetric])
  with True show ?thesis by simp
next
  case False
  with assms show ?thesis
    by (auto simp: IdAlloc_inv_def IdAlloc_universe_def IdAlloc_in_use_def lowest_free_None_iff)
qed

text \<open>
  Recomputing the cache from a position below which every bit is set re-establishes the invariant.
\<close>

lemma update_first_available_id_inv:
  assumes "start \<le> length (bitset self)" and "\<forall>i < start. bitset self ! i"
    and "length (bitset self) < usize_limit"
  shows "\<exists>self'. IdAlloc_update_first_available_id self start = Return self' \<and> IdAlloc_inv self'
    \<and> bitset self' = bitset self"
proof (cases "position (\<lambda>b. \<not> b) (drop start (bitset self))")
  case None
  then have "bitset self ! i" if "start \<le> i" "i < length (bitset self)" for i
    using that by (simp add: position_drop_None_iff)
  with assms None show ?thesis
    by (auto simp: IdAlloc_update_first_available_id_def IdAlloc_inv_def) (metis not_le_imp_less)
next
  case (Some off)
  from position_SomeD [OF this] have off: "start + off < length (bitset self)"
    "\<not> bitset self ! (start + off)" "\<And>j. j < off \<Longrightarrow> bitset self ! (start + j)"
    using assms(1) by auto
  have "bitset self ! i" if "i < start + off" for i
    using off(3) [of "i - start"] assms(2) that by (cases "i < start") auto
  with assms off Some show ?thesis
    by (auto simp: IdAlloc_update_first_available_id_def IdAlloc_inv_def)
qed

section \<open>Loops over the bitmap\<close>

text \<open>Setting every bit of a span, and the same loop with the debug assertion in it.\<close>

definition with_span :: "nat \<Rightarrow> nat \<Rightarrow> bool \<Rightarrow> bool list \<Rightarrow> bool list" where
  "with_span s e v bs = take s bs @ replicate (e - s) v @ drop e bs"

lemma length_with_span [simp]: "s \<le> e \<Longrightarrow> e \<le> length bs \<Longrightarrow> length (with_span s e v bs) = length bs"
  by (simp add: with_span_def)

lemma nth_with_span:
  "s \<le> e \<Longrightarrow> e \<le> length bs \<Longrightarrow> i < length bs
    \<Longrightarrow> with_span s e v bs ! i = (if s \<le> i \<and> i < e then v else bs ! i)"
  by (auto simp: with_span_def nth_append)

lemma with_span_empty [simp]: "with_span s s v bs = bs"
  by (simp add: with_span_def)

lemma with_span_Suc:
  assumes "s \<le> e" "e < length bs"
  shows "(with_span s e v bs)[e := v] = with_span s (Suc e) v bs"
proof -
  have "drop e bs = bs ! e # drop (Suc e) bs" using assms(2) by (rule Cons_nth_drop_Suc [symmetric])
  with assms show ?thesis
    by (simp add: with_span_def list_update_append Suc_diff_le replicate_append_same [symmetric])
qed

lemma for_each_bit_set:
  "s \<le> e \<Longrightarrow> e \<le> length bs \<Longrightarrow> for_each (\<lambda>i. bit_set i v) [s..<e] bs = Return (with_span s e v bs)"
proof (induction e)
  case 0
  then show ?case by simp
next
  case (Suc e)
  then show ?case
    by (cases "s = Suc e") (simp_all add: for_each_append bit_set_def with_span_Suc)
qed

lemma release_bit_set: "i < length bs \<Longrightarrow> dbg \<longrightarrow> bs ! i \<Longrightarrow> release_bit dbg i bs = bit_set i False bs"
  by (simp add: release_bit_def bit_get_def)

lemma for_each_release_bit:
  "s \<le> e \<Longrightarrow> e \<le> length bs \<Longrightarrow> dbg \<longrightarrow> (\<forall>i. s \<le> i \<longrightarrow> i < e \<longrightarrow> bs ! i)
    \<Longrightarrow> for_each (release_bit dbg) [s..<e] bs = Return (with_span s e False bs)"
proof (induction e)
  case 0
  then show ?case by simp
next
  case (Suc e)
  show ?case
  proof (cases "s = Suc e")
    case False
    with Suc.prems have le: "s \<le> e" "e < length bs" by simp_all
    with Suc.prems have "dbg \<longrightarrow> with_span s e False bs ! e" by (simp add: nth_with_span)
    with le have "release_bit dbg e (with_span s e False bs) = Return (with_span s (Suc e) False bs)"
      by (simp add: release_bit_set bit_set_def with_span_Suc)
    with Suc le show ?thesis by (simp add: for_each_append)
  qed simp
qed

text \<open>A run of \<open>count\<close> free identifiers at \<open>t\<close>; the loop stops at the lowest one.\<close>

definition free_run :: "bool list \<Rightarrow> nat \<Rightarrow> nat \<Rightarrow> bool" where
  "free_run bs t count \<longleftrightarrow> t + count \<le> length bs \<and> (\<forall>i. t \<le> i \<longrightarrow> i < t + count \<longrightarrow> \<not> bs ! i)"

lemma free_run_blocked: "bs ! i \<Longrightarrow> t \<le> i \<Longrightarrow> i < t + count \<Longrightarrow> \<not> free_run bs t count"
  by (auto simp: free_run_def)

lemma scan_range_correct:
  assumes "s \<le> e" "e \<le> length bs" "e - s \<le> count" "0 < count"
    and "\<forall>i. s \<le> i \<longrightarrow> i < e \<longrightarrow> \<not> bs ! i" and "\<forall>t < s. \<not> free_run bs t count"
    and "scan_range bs count s e = (s', e')"
  shows "if e' - s' < count then \<forall>t. \<not> free_run bs t count
    else e' = s' + count \<and> free_run bs s' count \<and> (\<forall>t < s'. \<not> free_run bs t count)"
  using assms
proof (induction bs count s e rule: scan_range.induct)
  case (1 bs count s e)
  show ?case
  proof (cases "e - s < count \<and> e < length bs")
    case False
    with "1.prems" have res: "s' = s" "e' = e" by (simp_all add: scan_range.simps [of bs count s e])
    show ?thesis
    proof (cases "e - s < count")
      case True
      with False have "length bs \<le> e" by simp
      with "1.prems" True have "\<not> free_run bs t count" for t
        by (cases "t < s") (auto simp: free_run_def)
      with True res show ?thesis by simp
    next
      case full: False
      with "1.prems" res show ?thesis by (auto simp: free_run_def)
    qed
  next
    case True
    show ?thesis
    proof (cases "bs ! e")
      case free: False
      with True "1.prems" show ?thesis
        by (intro "1.IH"(1)) (auto simp: scan_range.simps [of bs count s e] less_Suc_eq)
    next
      case used: True
      have blocked: "\<forall>t < e + 1. \<not> free_run bs t count"
      proof (intro allI impI)
        fix t assume "t < e + 1"
        with True have "t < s \<or> t \<le> e \<and> e < t + count" by linarith
        with "1.prems"(6) free_run_blocked [OF used] show "\<not> free_run bs t count" by blast
      qed
      with True used "1.prems" show ?thesis
        by (intro "1.IH"(2)) (auto simp: scan_range.simps [of bs count s e])
    qed
  qed
qed

section \<open>The operations against the set of identifiers in use\<close>

lemma IdAlloc_alloc_meets_contract:
  assumes "IdAlloc_inv self"
  shows "\<exists>self'. IdAlloc_alloc self =
      Return (lowest_free (IdAlloc_universe self) (IdAlloc_in_use self), self')
    \<and> IdAlloc_inv self' \<and> IdAlloc_universe self' = IdAlloc_universe self
    \<and> IdAlloc_in_use self' = IdAlloc_in_use self
        \<union> set_option (lowest_free (IdAlloc_universe self) (IdAlloc_in_use self))"
proof (cases "first_available_id self < length (bitset self)")
  case True
  let ?i = "first_available_id self"
  let ?s = "self\<lparr>bitset := (bitset self)[?i := True]\<rparr>"
  have "\<forall>j < ?i + 1. bitset ?s ! j" using assms True by (auto simp: IdAlloc_inv_def nth_list_update)
  with assms True update_first_available_id_inv [of "?i + 1" ?s] obtain self' where
    self': "IdAlloc_update_first_available_id ?s (?i + 1) = Return self'" "IdAlloc_inv self'"
      "bitset self' = bitset ?s"
    by (auto simp: IdAlloc_inv_def)
  have "IdAlloc_in_use self' = IdAlloc_in_use self \<union> {?i}"
    using self'(3) True by (auto simp: IdAlloc_in_use_def nth_list_update)
  with self' True IdAlloc_lowest_free [OF assms] show ?thesis
    by (simp add: IdAlloc_alloc_def bit_set_def Let_def IdAlloc_universe_def)
next
  case False
  with IdAlloc_lowest_free [OF assms] assms show ?thesis by (simp add: IdAlloc_alloc_def)
qed

text \<open>Clearing a span of bits and lowering the cache to its start keeps the invariant.\<close>

lemma IdAlloc_inv_release:
  assumes "IdAlloc_inv self" "s < e" "e \<le> length (bitset self)"
  shows "IdAlloc_inv (self\<lparr>bitset := with_span s e False (bitset self),
      first_available_id := min s (first_available_id self)\<rparr>)"
  using assms by (auto simp: IdAlloc_inv_def nth_with_span min_def)

lemma IdAlloc_free_consecutive_correct:
  assumes "IdAlloc_inv self" "s < e" "e \<le> length (bitset self)"
    and "dbg \<longrightarrow> {s..<e} \<subseteq> IdAlloc_in_use self"
  shows "\<exists>self'. IdAlloc_free_consecutive dbg self (s, e) = Return self' \<and> IdAlloc_inv self'
    \<and> IdAlloc_universe self' = IdAlloc_universe self
    \<and> IdAlloc_in_use self' = IdAlloc_in_use self - {s..<e}"
proof -
  let ?self' = "self\<lparr>bitset := with_span s e False (bitset self),
      first_available_id := min s (first_available_id self)\<rparr>"
  have "dbg \<longrightarrow> (\<forall>i. s \<le> i \<longrightarrow> i < e \<longrightarrow> bitset self ! i)"
    using assms(4) by (auto simp: IdAlloc_in_use_def)
  then have "IdAlloc_free_consecutive dbg self (s, e) = Return ?self'"
    using assms(2,3) by (simp add: IdAlloc_free_consecutive_def for_each_release_bit Let_def min_def)
  moreover have "IdAlloc_in_use ?self' = IdAlloc_in_use self - {s..<e}"
    using assms(2,3) by (auto simp: IdAlloc_in_use_def nth_with_span split: if_splits)
  ultimately show ?thesis
    using IdAlloc_inv_release [OF assms(1-3)] assms(2,3) by (simp add: IdAlloc_universe_def)
qed

lemma IdAlloc_free_eq_consecutive: "IdAlloc_free dbg self i = IdAlloc_free_consecutive dbg self (i, i + 1)"
proof -
  have "and_then m Return = m" for m :: "bool list outcome" by (cases m) simp_all
  then show ?thesis by (simp add: IdAlloc_free_def IdAlloc_free_consecutive_def)
qed

lemma IdAlloc_free_meets_contract:
  assumes "IdAlloc_inv self" "i \<in> IdAlloc_in_use self"
  shows "\<exists>self'. IdAlloc_free dbg self i = Return self' \<and> IdAlloc_inv self'
    \<and> IdAlloc_universe self' = IdAlloc_universe self
    \<and> IdAlloc_in_use self' = IdAlloc_in_use self - {i}"
  using IdAlloc_free_consecutive_correct [OF assms(1), of i "i + 1" dbg] assms(2)
  by (simp add: IdAlloc_free_eq_consecutive IdAlloc_in_use_def Suc_le_eq atLeastLessThanSuc)

lemma IdAlloc_free_unused_panics:
  assumes "i \<notin> IdAlloc_in_use self"
  shows "IdAlloc_free True self i = Panic"
  using assms by (auto simp: IdAlloc_free_def release_bit_def bit_get_def IdAlloc_in_use_def)

interpretation bitmap: id_allocator IdAlloc_alloc "IdAlloc_free dbg" IdAlloc_universe IdAlloc_in_use IdAlloc_inv
  for dbg
  by unfold_locales (rule IdAlloc_alloc_meets_contract IdAlloc_free_meets_contract; assumption)+

interpretation bitmap_debug: strict_id_allocator IdAlloc_alloc "IdAlloc_free True"
  IdAlloc_universe IdAlloc_in_use IdAlloc_inv
  by unfold_locales (rule IdAlloc_free_unused_panics)

lemma IdAlloc_alloc_specific_in_use:
  "i \<in> IdAlloc_in_use self \<Longrightarrow> IdAlloc_alloc_specific self i = Return (None, self)"
  by (simp add: IdAlloc_alloc_specific_def bit_get_def IdAlloc_in_use_def)

lemma IdAlloc_alloc_specific_panics:
  "i \<notin> IdAlloc_universe self \<Longrightarrow> IdAlloc_alloc_specific self i = Panic"
  by (simp add: IdAlloc_alloc_specific_def bit_get_def IdAlloc_universe_def)

lemma IdAlloc_alloc_specific_free:
  assumes "IdAlloc_inv self" "i \<in> IdAlloc_universe self" "i \<notin> IdAlloc_in_use self"
  shows "\<exists>self'. IdAlloc_alloc_specific self i = Return (Some i, self') \<and> IdAlloc_inv self'
        \<and> IdAlloc_universe self' = IdAlloc_universe self
        \<and> IdAlloc_in_use self' = insert i (IdAlloc_in_use self)"
proof -
  from assms(2,3) have i: "i < length (bitset self)" "i \<notin> IdAlloc_in_use self"
    by (simp_all add: IdAlloc_universe_def)
  let ?s = "self\<lparr>bitset := (bitset self)[i := True]\<rparr>"
  have "\<exists>self'. (if i = first_available_id self then IdAlloc_update_first_available_id ?s (i + 1)
      else Return ?s) = Return self' \<and> IdAlloc_inv self' \<and> bitset self' = bitset ?s"
  proof (cases "i = first_available_id self")
    case True
    with assms i have "\<forall>j < i + 1. bitset ?s ! j" by (auto simp: IdAlloc_inv_def nth_list_update)
    with assms i True update_first_available_id_inv [of "i + 1" ?s] show ?thesis
      by (auto simp: IdAlloc_inv_def)
  next
    case False
    with assms i show ?thesis by (auto simp: IdAlloc_inv_def IdAlloc_in_use_def nth_list_update)
  qed
  with i show ?thesis
    by (auto simp: IdAlloc_alloc_specific_def bit_get_def bit_set_def IdAlloc_in_use_def
        IdAlloc_universe_def nth_list_update Let_def)
qed

text \<open>The lowest position at which \<open>count\<close> consecutive members of a set begin.\<close>

definition first_fit :: "nat set \<Rightarrow> nat \<Rightarrow> nat option" where
  "first_fit F count =
     (if 0 < count \<and> (\<exists>t. {t..<t + count} \<subseteq> F) then Some (LEAST t. {t..<t + count} \<subseteq> F) else None)"

lemma first_fit_None_iff: "first_fit F count = None \<longleftrightarrow> count = 0 \<or> (\<forall>t. \<not> {t..<t + count} \<subseteq> F)"
  by (simp add: first_fit_def)

lemma first_fit_SomeD:
  assumes "first_fit F count = Some t"
  shows "0 < count \<and> {t..<t + count} \<subseteq> F \<and> (\<forall>u < t. \<not> {u..<u + count} \<subseteq> F)"
proof -
  from assms have "0 < count" and ex: "\<exists>t. {t..<t + count} \<subseteq> F"
    and t: "t = (LEAST t. {t..<t + count} \<subseteq> F)"
    by (auto simp: first_fit_def split: if_splits)
  moreover from ex have "{t..<t + count} \<subseteq> F" unfolding t by (rule LeastI_ex)
  moreover have "\<not> {u..<u + count} \<subseteq> F" if "u < t" for u
    using that unfolding t by (rule not_less_Least)
  ultimately show ?thesis by blast
qed

lemma free_run_iff:
  assumes "0 < count"
  shows "free_run (bitset self) t count
    \<longleftrightarrow> {t..<t + count} \<subseteq> IdAlloc_universe self - IdAlloc_in_use self"
proof
  assume sub: "{t..<t + count} \<subseteq> IdAlloc_universe self - IdAlloc_in_use self"
  moreover have "t + count - 1 \<in> {t..<t + count}" using assms by simp
  ultimately have "t + count - 1 \<in> IdAlloc_universe self" by blast
  with assms have "t + count \<le> length (bitset self)" by (simp add: IdAlloc_universe_def)
  with sub show "free_run (bitset self) t count"
    by (auto simp: free_run_def IdAlloc_in_use_def)
qed (auto simp: free_run_def IdAlloc_universe_def IdAlloc_in_use_def)

lemma scan_from_first:
  assumes "IdAlloc_inv self" "0 < count" "first_available_id self + count \<le> length (bitset self)"
    and "scan_range (bitset self) count (first_available_id self) (first_available_id self + 1) = (s, e)"
  shows "if e - s < count then \<forall>t. \<not> free_run (bitset self) t count
    else e = s + count \<and> free_run (bitset self) s count \<and> (\<forall>t < s. \<not> free_run (bitset self) t count)"
proof (rule scan_range_correct [OF _ _ _ _ _ _ assms(4)])
  show "\<forall>t < first_available_id self. \<not> free_run (bitset self) t count"
  proof (intro allI impI)
    fix t assume "t < first_available_id self"
    with assms(1,2) show "\<not> free_run (bitset self) t count"
      by (intro free_run_blocked [of _ t]) (auto simp: IdAlloc_inv_def)
  qed
qed (use assms in \<open>auto simp: IdAlloc_inv_def less_Suc_eq\<close>)

lemma IdAlloc_alloc_consecutive_found:
  assumes inv: "IdAlloc_inv self" and run: "0 < count" "free_run (bitset self) s count"
    and least: "\<forall>t < s. \<not> free_run (bitset self) t count"
  shows "\<exists>self'. IdAlloc_alloc_consecutive self count = Return (Some (s, s + count), self')
    \<and> IdAlloc_inv self' \<and> IdAlloc_universe self' = IdAlloc_universe self
    \<and> IdAlloc_in_use self' = IdAlloc_in_use self \<union> {s..<s + count}"
proof -
  let ?bs = "bitset self" and ?f = "first_available_id self"
  let ?self = "self\<lparr>bitset := with_span s (s + count) True ?bs\<rparr>"
  from run have s: "s + count \<le> length ?bs" "\<not> ?bs ! s" by (auto simp: free_run_def)
  with inv have f: "?f \<le> s" by (metis IdAlloc_inv_def linorder_not_less)
  with s inv have add: "checked_add_usize ?f count = Some (?f + count)" "?f + count \<le> length ?bs"
    by (auto simp: checked_add_usize_def IdAlloc_inv_def)
  obtain s' e' where scan: "scan_range ?bs count ?f (?f + 1) = (s', e')" by fastforce
  from scan_from_first [OF inv run(1) add(2) scan] run(2) have
    e': "\<not> e' - s' < count" "e' = s' + count" and s': "free_run ?bs s' count"
      "\<forall>t < s'. \<not> free_run ?bs t count" by (auto split: if_splits)
  from s' run(2) least have eq: "s' = s" by (metis linorder_neqE_nat)
  from s have set: "for_each (\<lambda>i. bit_set i True) [s..<s + count] ?bs
      = Return (with_span s (s + count) True ?bs)"
    by (simp add: for_each_bit_set)
  have "\<exists>self'. (if bitset ?self ! ?f then IdAlloc_update_first_available_id ?self (s + count)
      else Return ?self) = Return self' \<and> IdAlloc_inv self' \<and> bitset self' = bitset ?self"
  proof (cases "?f = s")
    case True
    with inv s have "\<forall>i < s + count. bitset ?self ! i"
      by (auto simp: nth_with_span IdAlloc_inv_def)
    with s inv run(1) True update_first_available_id_inv [of "s + count" ?self] show ?thesis
      by (auto simp: nth_with_span IdAlloc_inv_def)
  next
    case False
    with f have "?f < s" by simp
    with inv s run(1) show ?thesis by (auto simp: nth_with_span IdAlloc_inv_def)
  qed
  then obtain self' where self': "(if bitset ?self ! ?f
      then IdAlloc_update_first_available_id ?self (s + count) else Return ?self) = Return self'"
    "IdAlloc_inv self'" "bitset self' = bitset ?self" by blast
  have "IdAlloc_alloc_consecutive self count = Return (Some (s, s + count), self')"
    using run(1) add scan e' eq set self'(1) s f
    by (simp add: IdAlloc_alloc_consecutive_def Let_def IdAlloc_is_allocated_def bit_get_def)
  moreover have "IdAlloc_in_use self' = IdAlloc_in_use self \<union> {s..<s + count}"
    using self'(3) s by (auto simp: IdAlloc_in_use_def nth_with_span split: if_splits)
  ultimately show ?thesis using self'(2,3) s by (simp add: IdAlloc_universe_def)
qed

lemma IdAlloc_alloc_consecutive_none:
  assumes inv: "IdAlloc_inv self" and none: "count = 0 \<or> (\<forall>t. \<not> free_run (bitset self) t count)"
  shows "IdAlloc_alloc_consecutive self count = Return (None, self)"
proof (cases "count = 0 \<or> length (bitset self) < first_available_id self + count")
  case True
  with inv show ?thesis
    by (auto simp: IdAlloc_alloc_consecutive_def checked_add_usize_def IdAlloc_inv_def)
next
  case False
  with inv have add: "checked_add_usize (first_available_id self) count
      = Some (first_available_id self + count)"
    by (auto simp: checked_add_usize_def IdAlloc_inv_def)
  obtain s e where scan: "scan_range (bitset self) count (first_available_id self)
      (first_available_id self + 1) = (s, e)" by fastforce
  from scan_from_first [OF inv _ _ scan] False none have "e - s < count" by (auto split: if_splits)
  with False add scan show ?thesis by (simp add: IdAlloc_alloc_consecutive_def)
qed

section \<open>Sequences of operations\<close>

text \<open>A release that returns was within range, in either kind of build.\<close>

lemma for_each_release_bit_Return:
  "for_each (release_bit dbg) [s..<e] bs = Return bs' \<Longrightarrow> s < e
    \<Longrightarrow> e \<le> length bs \<and> bs' = with_span s e False bs"
proof (induction e arbitrary: bs')
  case 0
  then show ?case by simp
next
  case (Suc e)
  then obtain bs1 where bs1: "for_each (release_bit dbg) [s..<e] bs = Return bs1"
    and rel: "release_bit dbg e bs1 = Return bs'"
    by (auto simp: for_each_append)
  have "e \<le> length bs \<and> bs1 = with_span s e False bs \<or> s = e \<and> bs1 = bs"
    using Suc bs1 by (cases "s = e") auto
  moreover from rel have "e < length bs1 \<and> bs' = bs1[e := False]"
    by (auto simp: release_bit_def bit_set_def split: if_splits)
  ultimately show ?case using Suc.prems(2) with_span_Suc [of s e bs False] by auto
qed

lemma IdAlloc_free_consecutive_Return_inv:
  assumes "IdAlloc_inv self" "IdAlloc_free_consecutive dbg self (s, e) = Return self'"
  shows "IdAlloc_inv self' \<and> IdAlloc_universe self' = IdAlloc_universe self"
proof (cases "e \<le> s")
  case True
  with assms show ?thesis by (simp add: IdAlloc_free_consecutive_def)
next
  case False
  with assms(2) obtain bs where "for_each (release_bit dbg) [s..<e] (bitset self) = Return bs"
    and self': "self' = (let self = self\<lparr>bitset := bs\<rparr> in
        if s < first_available_id self then self\<lparr>first_available_id := s\<rparr> else self)"
    by (auto simp: IdAlloc_free_consecutive_def Let_def)
  with for_each_release_bit_Return [of dbg s e "bitset self" bs] False have
    e: "e \<le> length (bitset self)" and "bs = with_span s e False (bitset self)" by simp_all
  with self' have "self' = self\<lparr>bitset := with_span s e False (bitset self),
      first_available_id := min s (first_available_id self)\<rparr>"
    by (simp add: Let_def min_def)
  with IdAlloc_inv_release [OF assms(1), of s e] False e show ?thesis
    by (simp add: IdAlloc_universe_def)
qed

lemma IdAlloc_alloc_consecutive_cases:
  assumes "IdAlloc_inv self"
  shows "\<exists>r self'. IdAlloc_alloc_consecutive self count = Return (r, self') \<and> IdAlloc_inv self'
    \<and> IdAlloc_universe self' = IdAlloc_universe self"
proof (cases "0 < count \<and> (\<exists>t. free_run (bitset self) t count)")
  case True
  then obtain t where t: "free_run (bitset self) t count" "\<forall>u < t. \<not> free_run (bitset self) u count"
    using exists_least_iff [of "\<lambda>t. free_run (bitset self) t count"] by blast
  from True IdAlloc_alloc_consecutive_found [OF assms _ t] show ?thesis by auto
next
  case False
  with IdAlloc_alloc_consecutive_none [OF assms, of count] assms show ?thesis by auto
qed

lemma IdAlloc_alloc_specific_Return_inv:
  assumes "IdAlloc_inv self" "IdAlloc_alloc_specific self i = Return (r, self')"
  shows "IdAlloc_inv self' \<and> IdAlloc_universe self' = IdAlloc_universe self"
proof -
  consider (used) "i \<in> IdAlloc_in_use self" | (out) "i \<notin> IdAlloc_universe self"
    | (free) "i \<in> IdAlloc_universe self" "i \<notin> IdAlloc_in_use self" by blast
  then show ?thesis
  proof cases
    case used
    with IdAlloc_alloc_specific_in_use [of i self] assms show ?thesis by simp
  next
    case out
    with IdAlloc_alloc_specific_panics [of i self] assms show ?thesis by simp
  next
    case free
    with IdAlloc_alloc_specific_free [OF assms(1)] assms show ?thesis by fastforce
  qed
qed

inductive IdAlloc_step :: "IdAlloc \<Rightarrow> IdAlloc \<Rightarrow> bool" where
  step_alloc: "IdAlloc_alloc self = Return (r, self') \<Longrightarrow> IdAlloc_step self self'"
| step_alloc_consecutive:
    "IdAlloc_alloc_consecutive self count = Return (rng, self') \<Longrightarrow> IdAlloc_step self self'"
| step_alloc_specific: "IdAlloc_alloc_specific self i = Return (r, self') \<Longrightarrow> IdAlloc_step self self'"
| step_free: "IdAlloc_free dbg self i = Return self' \<Longrightarrow> IdAlloc_step self self'"
| step_free_consecutive:
    "IdAlloc_free_consecutive dbg self rng = Return self' \<Longrightarrow> IdAlloc_step self self'"

lemma IdAlloc_step_inv:
  assumes "IdAlloc_inv self" "IdAlloc_step self self'"
  shows "IdAlloc_inv self' \<and> IdAlloc_universe self' = IdAlloc_universe self"
  using assms(2)
proof cases
  case (step_alloc r)
  with IdAlloc_alloc_meets_contract [OF assms(1)] show ?thesis by auto
next
  case (step_alloc_consecutive count rng)
  with IdAlloc_alloc_consecutive_cases [OF assms(1), of count] show ?thesis by auto
next
  case (step_alloc_specific i r)
  with IdAlloc_alloc_specific_Return_inv [OF assms(1)] show ?thesis by blast
next
  case (step_free dbg i)
  with IdAlloc_free_consecutive_Return_inv [OF assms(1)] show ?thesis
    by (auto simp: IdAlloc_free_eq_consecutive)
next
  case (step_free_consecutive dbg rng)
  with IdAlloc_free_consecutive_Return_inv [OF assms(1)] show ?thesis by (cases rng) blast
qed

interpretation IdAlloc_run: step_system "\<lambda>s. s = IdAlloc_with_capacity n \<and> n < usize_limit" IdAlloc_step
  "\<lambda>s. IdAlloc_inv s \<and> IdAlloc_universe s = {..<n}" for n
  by unfold_locales (auto simp: IdAlloc_inv_with_capacity dest: IdAlloc_step_inv)

section \<open>Properties\<close>

text \<open>
  C12. \<open>alloc_consecutive\<close> is a first-fit allocation: when \<open>count\<close> is positive and some run of
  \<open>count\<close> consecutive identifiers is free, it returns the lowest such run and marks exactly its
  identifiers as used; otherwise it returns \<open>None\<close> and changes nothing. It never panics.
\<close>

theorem IdAlloc_alloc_consecutive_first_fit:
  assumes "IdAlloc_inv self"
  shows "\<exists>self'. let fit = first_fit (IdAlloc_universe self - IdAlloc_in_use self) count in
    IdAlloc_alloc_consecutive self count = Return (map_option (\<lambda>t. (t, t + count)) fit, self')
    \<and> IdAlloc_inv self' \<and> IdAlloc_universe self' = IdAlloc_universe self
    \<and> (case fit of None \<Rightarrow> self' = self
       | Some t \<Rightarrow> IdAlloc_in_use self' = IdAlloc_in_use self \<union> {t..<t + count})"
proof (cases "first_fit (IdAlloc_universe self - IdAlloc_in_use self) count")
  case None
  then have "count = 0 \<or> (\<forall>t. \<not> free_run (bitset self) t count)"
    unfolding first_fit_None_iff using free_run_iff [of count self] by blast
  with IdAlloc_alloc_consecutive_none [OF assms] assms None show ?thesis by simp
next
  case (Some t)
  from first_fit_SomeD [OF this] have "0 < count"
    "free_run (bitset self) t count" "\<forall>u < t. \<not> free_run (bitset self) u count"
    by (simp_all add: free_run_iff)
  from IdAlloc_alloc_consecutive_found [OF assms this] Some show ?thesis by simp
qed

lemma IdAlloc_alloc_consecutive_first_fit_witness:
  "\<exists>self'. IdAlloc_alloc_consecutive \<lparr>bitset = [True, False, True, False, False], first_available_id = 1\<rparr> 2
     = Return (Some (3, 5), self') \<and> IdAlloc_inv self'"
proof -
  let ?s = "\<lparr>bitset = [True, False, True, False, False], first_available_id = 1\<rparr>"
  have inv: "IdAlloc_inv ?s" by (simp add: IdAlloc_inv_def)
  have "IdAlloc_alloc_consecutive ?s 2
     = Return (Some (3, 5), \<lparr>bitset = [True, False, True, True, True], first_available_id = 1\<rparr>)"
    by (simp add: IdAlloc_alloc_consecutive_def checked_add_usize_def scan_range.simps upt_rec
        bit_set_def IdAlloc_is_allocated_def bit_get_def)
  with IdAlloc_alloc_consecutive_first_fit [OF inv, of 2] show ?thesis by (auto simp: Let_def)
qed

text \<open>
  C27. In every state reached from a fresh allocator by allocations and releases of single
  identifiers and of ranges, in builds with and without debug assertions, the cached position is
  right: \<open>alloc\<close> returns the smallest identifier below the capacity that is not in use, or \<open>None\<close>
  exactly when all are in use.
\<close>

theorem IdAlloc_reachable_alloc_lowest:
  assumes "reachable_from (\<lambda>s. s = IdAlloc_with_capacity n \<and> n < usize_limit) IdAlloc_step self"
  shows "\<exists>self'. IdAlloc_alloc self = Return (lowest_free {..<n} (IdAlloc_in_use self), self')
    \<and> IdAlloc_in_use self' = IdAlloc_in_use self \<union> set_option (lowest_free {..<n} (IdAlloc_in_use self))"
  using IdAlloc_run.reachable_invar [OF assms] IdAlloc_alloc_meets_contract by metis

lemma IdAlloc_reachable_alloc_lowest_witness:
  "\<exists>self'. IdAlloc_alloc \<lparr>bitset = [True, False], first_available_id = 1\<rparr>
    = Return (lowest_free {..<2} (IdAlloc_in_use \<lparr>bitset = [True, False], first_available_id = 1\<rparr>), self')"
proof -
  have step: "IdAlloc_step (IdAlloc_with_capacity 2) \<lparr>bitset = [True, False], first_available_id = 1\<rparr>"
    by (rule IdAlloc_step.step_alloc [of _ "Some 0"]) code_simp
  have "reachable_from (\<lambda>s. s = IdAlloc_with_capacity 2 \<and> 2 < usize_limit) IdAlloc_step
      \<lparr>bitset = [True, False], first_available_id = 1\<rparr>"
    by (rule reachable_from.reach_step, rule reachable_from.reach_init, simp, rule step)
  from IdAlloc_reachable_alloc_lowest [OF this] show ?thesis by blast
qed

end
