(* ===== verification/BTree_Map.thy ===== *)
theory BTree_Map
  imports Kernel_Prelude
begin

text \<open>
  Rust's \<open>BTreeMap\<close> as its contents in key order: an association list with strictly increasing
  keys. The operations are those the sources call; \<open>btree_before\<close> and \<open>btree_after\<close> are the two
  sides of the cursors \<open>lower_bound\<close> and \<open>upper_bound\<close> return.
\<close>

named_theorems btree_simps \<open>lookup after every ordered-map operation\<close>

abbreviation btree_ok :: "('k::linorder \<times> 'v) list \<Rightarrow> bool" where
  "btree_ok m \<equiv> sorted_wrt (\<lambda>p q. fst p < fst q) m"

fun btree_insert :: "'k::linorder \<Rightarrow> 'v \<Rightarrow> ('k \<times> 'v) list \<Rightarrow> ('k \<times> 'v) list" where
  "btree_insert k v [] = [(k, v)]"
| "btree_insert k v ((a, b) # m) =
     (if k < a then (k, v) # (a, b) # m
      else if k = a then (k, v) # m
      else (a, b) # btree_insert k v m)"

fun btree_remove :: "'k::linorder \<Rightarrow> ('k \<times> 'v) list \<Rightarrow> ('k \<times> 'v) list" where
  "btree_remove k [] = []"
| "btree_remove k ((a, b) # m) = (if k = a then m else (a, b) # btree_remove k m)"

definition btree_first :: "('k \<times> 'v) list \<Rightarrow> ('k \<times> 'v) option" where
  "btree_first m = (case m of [] \<Rightarrow> None | p # _ \<Rightarrow> Some p)"

definition btree_last :: "('k \<times> 'v) list \<Rightarrow> ('k \<times> 'v) option" where
  "btree_last m = (if m = [] then None else Some (last m))"

text \<open>The entries whose key satisfies a downward closed condition, and the rest.\<close>

definition btree_before :: "('k \<Rightarrow> bool) \<Rightarrow> ('k \<times> 'v) list \<Rightarrow> ('k \<times> 'v) list" where
  "btree_before p m = takeWhile (\<lambda>e. p (fst e)) m"

definition btree_after :: "('k \<Rightarrow> bool) \<Rightarrow> ('k \<times> 'v) list \<Rightarrow> ('k \<times> 'v) list" where
  "btree_after p m = dropWhile (\<lambda>e. p (fst e)) m"

lemma btree_before_after [simp]: "btree_before p m @ btree_after p m = m"
  by (simp add: btree_before_def btree_after_def)

lemma set_btree_insert:
  "btree_ok m \<Longrightarrow> set (btree_insert k v m) = insert (k, v) {e \<in> set m. fst e \<noteq> k}"
  by (induction k v m rule: btree_insert.induct) auto

lemma set_btree_remove: "btree_ok m \<Longrightarrow> set (btree_remove k m) = {e \<in> set m. fst e \<noteq> k}"
  by (induction k m rule: btree_remove.induct) auto

lemma btree_ok_insert [simp]: "btree_ok m \<Longrightarrow> btree_ok (btree_insert k v m)"
  by (induction k v m rule: btree_insert.induct) (auto simp: set_btree_insert)

lemma btree_ok_remove [simp]: "btree_ok m \<Longrightarrow> btree_ok (btree_remove k m)"
  by (induction k m rule: btree_remove.induct) (auto simp: set_btree_remove)

lemma btree_ok_before [simp]: "btree_ok m \<Longrightarrow> btree_ok (btree_before p m)"
  unfolding btree_before_def by (rule sorted_wrt_takeWhile)

lemma btree_ok_distinct: "btree_ok m \<Longrightarrow> distinct (map fst m)"
  by (induction m) auto

lemma btree_get_insert [btree_simps]: "map_of (btree_insert k v m) = (map_of m)(k \<mapsto> v)"
  by (induction k v m rule: btree_insert.induct) auto

lemma btree_get_remove [btree_simps]: "btree_ok m \<Longrightarrow> map_of (btree_remove k m) = (map_of m)(k := None)"
proof (induction k m rule: btree_remove.induct)
  case (2 k a b m)
  moreover have "map_of m a = None" if "\<forall>e \<in> set m. a < fst e"
    using that by (auto simp: map_of_eq_None_iff)
  ultimately show ?case by auto
qed auto

text \<open>For a sorted map the two sides of a cursor are the entries with and without the condition.\<close>

lemma set_btree_before:
  assumes "btree_ok m" "\<And>x y. p y \<Longrightarrow> x < y \<Longrightarrow> p x"
  shows "set (btree_before p m) = {e \<in> set m. p (fst e)}"
  using assms(1) by (induction m) (auto simp: btree_before_def intro: assms(2))

lemma set_btree_after:
  assumes "btree_ok m" "\<And>x y. p y \<Longrightarrow> x < y \<Longrightarrow> p x"
  shows "set (btree_after p m) = {e \<in> set m. \<not> p (fst e)}"
  using assms(1) by (induction m) (auto simp: btree_after_def intro: assms(2))

text \<open>The operations at a known position of the contents.\<close>

lemma btree_remove_at:
  "\<forall>e \<in> set pre. fst e \<noteq> k \<Longrightarrow> btree_remove k (pre @ (k, v) # post) = pre @ post"
  by (induction pre) auto

lemma btree_update_at:
  "\<forall>e \<in> set pre. fst e < k \<Longrightarrow> btree_insert k v (pre @ (k, w) # post) = pre @ (k, v) # post"
  by (induction pre) auto

lemma btree_insert_at:
  "\<forall>e \<in> set pre. fst e < k \<Longrightarrow> \<forall>e \<in> set post. k < fst e
    \<Longrightarrow> btree_insert k v (pre @ post) = pre @ (k, v) # post"
proof (induction pre)
  case Nil
  then show ?case by (cases post) auto
qed auto

lemma btree_get_at: "\<forall>e \<in> set pre. fst e \<noteq> k \<Longrightarrow> map_of (pre @ (k, v) # post) k = Some v"
  by (induction pre) auto

end
