(* ===== verification/Sparse_Id_Alloc.thy ===== *)
theory Sparse_Id_Alloc
  imports Id_Allocator BTree_Map
begin

text \<open>
  The sparse identifier allocator, \<open>kernel/libs/sparse-id-alloc/src/lib.rs\<close>: the allocated
  identifiers of an inclusive range are kept as maximal runs in an ordered map from the first to
  the last identifier of each run. Identifiers are \<open>u32\<close> values; the additions the code does
  without a check panic on overflow here (they do so in a build with overflow checks), and the
  theorems show that they never overflow.
\<close>

section \<open>The allocator\<close>

abbreviation u32_max :: nat where
  "u32_max \<equiv> 2 ^ 32 - 1"

record SparseIdAlloc =
  sp_min :: nat
  sp_max :: nat
  allocated_runs :: "(nat \<times> nat) list"

definition SparseIdAlloc_new :: "nat \<Rightarrow> nat \<Rightarrow> SparseIdAlloc outcome" where
  "SparseIdAlloc_new lo hi =
     and_then (assert_that (lo \<le> hi)) (\<lambda>_.
     Return \<lparr>sp_min = lo, sp_max = hi, allocated_runs = []\<rparr>)"

definition add_u32 :: "nat \<Rightarrow> nat \<Rightarrow> nat outcome" where
  "add_u32 a b = (if a + b \<le> u32_max then Return (a + b) else Panic)"

definition checked_add_u32 :: "nat \<Rightarrow> nat \<Rightarrow> nat option" where
  "checked_add_u32 a b = (if a + b \<le> u32_max then Some (a + b) else None)"

text \<open>
  \<open>id.checked_add(1).and_then(|next_start| runs.remove(&next_start)).unwrap_or(id)\<close>: absorb the
  run that begins right after \<open>id\<close>, if there is one; the result is the new last identifier.
\<close>

definition absorb_next_run :: "nat \<Rightarrow> (nat \<times> nat) list \<Rightarrow> nat \<times> (nat \<times> nat) list" where
  "absorb_next_run i runs =
     (case checked_add_u32 i 1 of
        None \<Rightarrow> (i, runs)
      | Some next_start \<Rightarrow>
          (case map_of runs next_start of
             None \<Rightarrow> (i, runs)
           | Some next_end \<Rightarrow> (next_end, btree_remove next_start runs)))"

definition SparseIdAlloc_alloc :: "SparseIdAlloc \<Rightarrow> (nat option \<times> SparseIdAlloc) outcome" where
  "SparseIdAlloc_alloc self =
     (let from_min =
        (let i = sp_min self; (end', runs) = absorb_next_run i (allocated_runs self)
         in Return (Some i, self\<lparr>allocated_runs := btree_insert i end' runs\<rparr>))
      in case btree_first (allocated_runs self) of
           Some (start, end') \<Rightarrow>
             if start = sp_min self then
               if end' = sp_max self then Return (None, self)
               else
                 and_then (add_u32 end' 1) (\<lambda>i.
                 let (new_end, runs) = absorb_next_run i (allocated_runs self) in
                 and_then (unwrap (map_of runs start)) (\<lambda>_.
                 Return (Some i, self\<lparr>allocated_runs := btree_insert start new_end runs\<rparr>)))
             else from_min
         | None \<Rightarrow> from_min)"

definition SparseIdAlloc_free :: "SparseIdAlloc \<Rightarrow> nat \<Rightarrow> SparseIdAlloc outcome" where
  "SparseIdAlloc_free self i =
     (case btree_last (btree_before (\<lambda>k. k \<le> i) (allocated_runs self)) of
        Some (start, end') \<Rightarrow>
          if i \<le> end' then
            and_then
              (if i = start then Return (btree_remove start (allocated_runs self))
               else
                 and_then (unwrap (map_of (allocated_runs self) start)) (\<lambda>_.
                 Return (btree_insert start (i - 1) (allocated_runs self))))
              (\<lambda>runs.
            if i < end' then
              and_then (add_u32 i 1) (\<lambda>next_start.
              Return (self\<lparr>allocated_runs := btree_insert next_start end' runs\<rparr>))
            else Return (self\<lparr>allocated_runs := runs\<rparr>))
          else Panic
      | None \<Rightarrow> Panic)"

section \<open>The invariant\<close>

text \<open>
  The runs are non-empty, in order, and neither overlap nor touch: each begins at least two above
  the end of the one before.
\<close>

fun runs_from :: "nat \<Rightarrow> (nat \<times> nat) list \<Rightarrow> bool" where
  "runs_from lo [] = True"
| "runs_from lo ((s, e) # runs) = (lo \<le> s \<and> s \<le> e \<and> runs_from (e + 2) runs)"

definition run_ids :: "(nat \<times> nat) list \<Rightarrow> nat set" where
  "run_ids runs = (\<Union>(s, e) \<in> set runs. {s..e})"

definition SparseIdAlloc_inv :: "SparseIdAlloc \<Rightarrow> bool" where
  "SparseIdAlloc_inv self \<longleftrightarrow>
     sp_min self \<le> sp_max self \<and> sp_max self \<le> u32_max
     \<and> runs_from (sp_min self) (allocated_runs self)
     \<and> (\<forall>(s, e) \<in> set (allocated_runs self). e \<le> sp_max self)"

definition SparseIdAlloc_universe :: "SparseIdAlloc \<Rightarrow> nat set" where
  "SparseIdAlloc_universe self = {sp_min self..sp_max self}"

definition SparseIdAlloc_in_use :: "SparseIdAlloc \<Rightarrow> nat set" where
  "SparseIdAlloc_in_use self = run_ids (allocated_runs self)"

lemma run_ids_simps [simp]:
  "run_ids [] = {}"
  "run_ids ((s, e) # runs) = {s..e} \<union> run_ids runs"
  "run_ids (runs @ runs') = run_ids runs \<union> run_ids runs'"
  by (auto simp: run_ids_def)

lemma runs_from_mono: "runs_from lo runs \<Longrightarrow> lo' \<le> lo \<Longrightarrow> runs_from lo' runs"
  by (cases runs) auto

lemma runs_from_ge: "runs_from lo runs \<Longrightarrow> i \<in> run_ids runs \<Longrightarrow> lo \<le> i"
  by (induction lo runs rule: runs_from.induct) force+

lemma runs_from_keys: "runs_from lo runs \<Longrightarrow> (s, e) \<in> set runs \<Longrightarrow> lo \<le> s \<and> s \<le> e"
  by (induction lo runs rule: runs_from.induct) force+

lemma runs_from_btree_ok: "runs_from lo runs \<Longrightarrow> btree_ok runs"
  by (induction lo runs rule: runs_from.induct) (auto dest: runs_from_keys)

lemma runs_from_append:
  "runs_from lo (pre @ (s, e) # post) \<longleftrightarrow>
     runs_from lo pre \<and> lo \<le> s \<and> (\<forall>(a, b) \<in> set pre. b + 2 \<le> s) \<and> s \<le> e \<and> runs_from (e + 2) post"
proof (induction lo pre rule: runs_from.induct)
  case (2 lo a b pre)
  then show ?case by (auto dest: runs_from_mono)
qed auto

section \<open>Allocation\<close>

lemma absorb_next_run_Cons:
  "k \<noteq> i + 1 \<Longrightarrow> absorb_next_run i ((k, v) # runs) =
    (let (e, runs') = absorb_next_run i runs in (e, (k, v) # runs'))"
  by (auto simp: absorb_next_run_def checked_add_u32_def Let_def split: option.splits)

lemma absorb_next_run_correct:
  assumes "runs_from (i + 1) runs" "\<forall>(s, e) \<in> set runs. e \<le> hi" "hi \<le> u32_max" "i \<le> hi"
  shows "\<exists>e runs'. absorb_next_run i runs = (e, runs') \<and> i \<le> e \<and> e \<le> hi \<and> runs_from (e + 2) runs'
    \<and> (\<forall>(s, e) \<in> set runs'. e \<le> hi) \<and> {i..e} \<union> run_ids runs' = insert i (run_ids runs)"
proof (cases runs)
  case Nil
  with assms show ?thesis by (simp add: absorb_next_run_def checked_add_u32_def)
next
  case (Cons p rest)
  then obtain s e where runs: "runs = (s, e) # rest" by (cases p) simp
  with assms have s: "i + 1 \<le> s" "s \<le> e" "e \<le> hi" and rest: "runs_from (e + 2) rest" by auto
  with assms(3) have add: "checked_add_u32 i 1 = Some (i + 1)" by (simp add: checked_add_u32_def)
  show ?thesis
  proof (cases "s = i + 1")
    case True
    with runs add have "absorb_next_run i runs = (e, rest)" by (simp add: absorb_next_run_def)
    moreover from True s have "{i..e} = insert i {s..e}" by auto
    ultimately show ?thesis using assms runs s rest by auto
  next
    case False
    with rest s have "i + 1 \<notin> fst ` set runs" unfolding runs by (auto dest: runs_from_keys)
    then have "map_of runs (i + 1) = None" by (simp add: map_of_eq_None_iff)
    with add have "absorb_next_run i runs = (i, runs)" by (simp add: absorb_next_run_def)
    with assms runs s rest False show ?thesis by auto
  qed
qed

text \<open>The three ways an allocation goes: nothing left, after the first run, at the minimum.\<close>

lemma SparseIdAlloc_invD:
  assumes "SparseIdAlloc_inv self"
  shows "sp_min self \<le> sp_max self" "sp_max self \<le> u32_max"
    "runs_from (sp_min self) (allocated_runs self)"
    "\<forall>(s, e) \<in> set (allocated_runs self). e \<le> sp_max self"
  using assms by (simp_all add: SparseIdAlloc_inv_def)

lemmas SparseIdAlloc_sets = SparseIdAlloc_universe_def SparseIdAlloc_in_use_def

lemma SparseIdAlloc_alloc_full:
  assumes "allocated_runs self = (sp_min self, sp_max self) # rest"
  shows "SparseIdAlloc_alloc self = Return (None, self)"
    "lowest_free (SparseIdAlloc_universe self) (SparseIdAlloc_in_use self) = None"
  using assms by (auto simp: SparseIdAlloc_alloc_def btree_first_def lowest_free_None_iff SparseIdAlloc_sets)

lemma SparseIdAlloc_alloc_after_first_run:
  assumes inv: "SparseIdAlloc_inv self" and runs: "allocated_runs self = (sp_min self, e) # rest"
    and e: "e \<noteq> sp_max self"
  shows "lowest_free (SparseIdAlloc_universe self) (SparseIdAlloc_in_use self) = Some (e + 1)
    \<and> (\<exists>self'. SparseIdAlloc_alloc self = Return (Some (e + 1), self') \<and> SparseIdAlloc_inv self'
      \<and> SparseIdAlloc_universe self' = SparseIdAlloc_universe self
      \<and> SparseIdAlloc_in_use self' = SparseIdAlloc_in_use self \<union> {e + 1})"
proof -
  note inv' = SparseIdAlloc_invD [OF inv]
  with runs e have le: "sp_min self \<le> e" "e + 1 \<le> sp_max self" and rest: "runs_from (e + 2) rest"
    "\<forall>(s, e) \<in> set rest. e \<le> sp_max self" by auto
  obtain e' rest' where absorb: "absorb_next_run (e + 1) rest = (e', rest')" "e + 1 \<le> e'"
    "e' \<le> sp_max self" "runs_from (e' + 2) rest'" "\<forall>(s, e) \<in> set rest'. e \<le> sp_max self"
    "{e + 1..e'} \<union> run_ids rest' = insert (e + 1) (run_ids rest)"
    using absorb_next_run_correct [of "e + 1" rest "sp_max self"] rest inv'(2) le by auto
  let ?self' = "self\<lparr>allocated_runs := (sp_min self, e') # rest'\<rparr>"
  have "SparseIdAlloc_alloc self = Return (Some (e + 1), ?self')"
    using runs e le inv'(2) absorb(1)
    by (simp add: SparseIdAlloc_alloc_def btree_first_def add_u32_def absorb_next_run_Cons Let_def)
  moreover have "lowest_free (SparseIdAlloc_universe self) (SparseIdAlloc_in_use self) = Some (e + 1)"
    using runs le rest(1)
    by (intro lowest_free_eq_SomeI) (auto simp: SparseIdAlloc_sets dest: runs_from_ge)
  moreover have "SparseIdAlloc_in_use ?self' = SparseIdAlloc_in_use self \<union> {e + 1}"
  proof -
    have "{sp_min self..e'} = {sp_min self..e} \<union> {e + 1..e'}" using le(1) absorb(2) by auto
    with absorb(6) runs show ?thesis by (auto simp: SparseIdAlloc_in_use_def)
  qed
  ultimately show ?thesis using inv' le absorb
    by (auto simp: SparseIdAlloc_inv_def SparseIdAlloc_universe_def)
qed

lemma SparseIdAlloc_alloc_at_min:
  assumes inv: "SparseIdAlloc_inv self" and free: "\<nexists>e rest. allocated_runs self = (sp_min self, e) # rest"
  shows "lowest_free (SparseIdAlloc_universe self) (SparseIdAlloc_in_use self) = Some (sp_min self)
    \<and> (\<exists>self'. SparseIdAlloc_alloc self = Return (Some (sp_min self), self') \<and> SparseIdAlloc_inv self'
      \<and> SparseIdAlloc_universe self' = SparseIdAlloc_universe self
      \<and> SparseIdAlloc_in_use self' = SparseIdAlloc_in_use self \<union> {sp_min self})"
proof -
  let ?runs = "allocated_runs self"
  note inv' = SparseIdAlloc_invD [OF inv]
  have from_succ: "runs_from (sp_min self + 1) ?runs"
    using inv'(3) free by (cases ?runs) (auto simp: Suc_le_eq le_neq_implies_less)
  obtain e' runs' where absorb: "absorb_next_run (sp_min self) ?runs = (e', runs')"
    "sp_min self \<le> e'" "e' \<le> sp_max self" "runs_from (e' + 2) runs'"
    "\<forall>(s, e) \<in> set runs'. e \<le> sp_max self"
    "{sp_min self..e'} \<union> run_ids runs' = insert (sp_min self) (run_ids ?runs)"
    using absorb_next_run_correct [OF from_succ inv'(4) inv'(2) inv'(1)] by blast
  let ?self' = "self\<lparr>allocated_runs := (sp_min self, e') # runs'\<rparr>"
  have "btree_insert (sp_min self) e' runs' = (sp_min self, e') # runs'"
    using absorb(2,4) by (cases runs') auto
  with absorb(1) free have "SparseIdAlloc_alloc self = Return (Some (sp_min self), ?self')"
    by (auto simp: SparseIdAlloc_alloc_def btree_first_def Let_def split: list.splits prod.splits)
  moreover have "lowest_free (SparseIdAlloc_universe self) (SparseIdAlloc_in_use self) = Some (sp_min self)"
    using from_succ inv'(1)
    by (intro lowest_free_eq_SomeI) (auto simp: SparseIdAlloc_sets dest: runs_from_ge)
  ultimately show ?thesis using inv' absorb by (auto simp: SparseIdAlloc_inv_def SparseIdAlloc_sets)
qed

lemma SparseIdAlloc_alloc_meets_contract:
  assumes "SparseIdAlloc_inv self"
  shows "\<exists>self'. SparseIdAlloc_alloc self =
      Return (lowest_free (SparseIdAlloc_universe self) (SparseIdAlloc_in_use self), self')
    \<and> SparseIdAlloc_inv self' \<and> SparseIdAlloc_universe self' = SparseIdAlloc_universe self
    \<and> SparseIdAlloc_in_use self' = SparseIdAlloc_in_use self
        \<union> set_option (lowest_free (SparseIdAlloc_universe self) (SparseIdAlloc_in_use self))"
proof (cases "\<exists>e rest. allocated_runs self = (sp_min self, e) # rest")
  case True
  then obtain e rest where runs: "allocated_runs self = (sp_min self, e) # rest" by blast
  show ?thesis
  proof (cases "e = sp_max self")
    case True
    with SparseIdAlloc_alloc_full [of self rest] runs assms show ?thesis by simp
  next
    case False
    from SparseIdAlloc_alloc_after_first_run [OF assms runs this] show ?thesis by auto
  qed
next
  case False
  from SparseIdAlloc_alloc_at_min [OF assms this] show ?thesis by auto
qed

section \<open>Release\<close>

text \<open>The run a release looks at, in the middle of the contents of the map.\<close>

lemma btree_last_before_split:
  assumes "btree_ok m" "btree_last (btree_before (\<lambda>k. k \<le> i) m) = Some (s, e)"
  obtains pre post where "m = pre @ (s, e) # post" "s \<le> i" "\<forall>x \<in> set post. i < fst x"
proof -
  let ?b = "btree_before (\<lambda>k. k \<le> i) m" and ?a = "btree_after (\<lambda>k. k \<le> i) m"
  from assms(2) have ne: "?b \<noteq> []" and last: "last ?b = (s, e)"
    by (auto simp: btree_last_def split: if_splits)
  then have split: "?b = butlast ?b @ [(s, e)]" by (metis append_butlast_last_id)
  moreover have "(s, e) \<in> set ?b" using ne last last_in_set by metis
  then have "s \<le> i" using assms(1) by (simp add: set_btree_before)
  moreover have "\<forall>x \<in> set ?a. i < fst x" using assms(1) by (simp add: set_btree_after not_le)
  moreover have "m = butlast ?b @ (s, e) # ?a"
    using split btree_before_after [of "\<lambda>k. k \<le> i" m] by (metis append_Cons append_Nil append_assoc)
  ultimately show thesis by (intro that [of "butlast ?b" ?a])
qed

lemma btree_last_before_None:
  assumes "btree_ok m" "btree_last (btree_before (\<lambda>k. k \<le> i) m) = None"
  shows "\<forall>x \<in> set m. i < fst x"
proof -
  have "set (btree_before (\<lambda>k. k \<le> i) m) = {e \<in> set m. fst e \<le> i}"
    using assms(1) by (intro set_btree_before) auto
  with assms(2) show ?thesis by (auto simp: btree_last_def not_le split: if_splits)
qed

lemma run_ids_append_Cons_iff:
  assumes "runs_from lo (pre @ (s, e) # post)" "s \<le> i" "\<forall>x \<in> set post. i < fst x"
  shows "i \<in> run_ids (pre @ (s, e) # post) \<longleftrightarrow> i \<le> e"
  using assms by (fastforce simp: runs_from_append run_ids_def)

text \<open>What a release writes: the rest of the run below the identifier and the rest above it.\<close>

definition split_run :: "nat \<Rightarrow> nat \<Rightarrow> nat \<Rightarrow> (nat \<times> nat) list" where
  "split_run s e i = (if i = s then [] else [(s, i - 1)]) @ (if i < e then [(i + 1, e)] else [])"

lemma runs_from_split_run:
  assumes "runs_from lo (pre @ (s, e) # post)" "s \<le> i" "i \<le> e"
  shows "runs_from lo (pre @ split_run s e i @ post)"
proof -
  from assms have parts: "runs_from lo pre" "\<forall>(a, b) \<in> set pre. b + 2 \<le> s" "lo \<le> s"
    "runs_from (e + 2) post" by (simp_all add: runs_from_append)
  have below: "runs_from lo (pre @ runs)" if "runs_from s runs" for runs
  proof (cases runs)
    case Nil
    with parts show ?thesis by simp
  next
    case (Cons p rest)
    with that parts show ?thesis by (cases p) (fastforce simp: runs_from_append)
  qed
  have "runs_from s (split_run s e i @ post)"
    using assms(2,3) parts(4) by (auto simp: split_run_def intro: runs_from_mono)
  then show ?thesis by (rule below)
qed

lemma SparseIdAlloc_free_split:
  assumes "SparseIdAlloc_inv self" and runs: "allocated_runs self = pre @ (s, e) # post"
    and i: "s \<le> i" "i \<le> e" and post: "\<forall>x \<in> set post. i < fst x"
    and last: "btree_last (btree_before (\<lambda>k. k \<le> i) (allocated_runs self)) = Some (s, e)"
  shows "SparseIdAlloc_free self i
    = Return (self\<lparr>allocated_runs := pre @ split_run s e i @ post\<rparr>)"
proof -
  note inv' = SparseIdAlloc_invD [OF assms(1)]
  have rf: "runs_from (sp_min self) (pre @ (s, e) # post)" using inv'(3) runs by simp
  then have pre: "fst x < s" if "x \<in> set pre" for x
    using that runs_from_keys [of "sp_min self" pre] by (cases x) (fastforce simp: runs_from_append)
  have post': "e + 2 \<le> fst x" if "x \<in> set post" for x
  proof -
    have "runs_from (e + 2) post" using rf by (simp add: runs_from_append)
    from runs_from_keys [OF this, of "fst x" "snd x"] that show ?thesis by simp
  qed
  have max: "e \<le> u32_max" using inv'(2,4) runs by fastforce
  have get: "map_of (allocated_runs self) s = Some e"
    unfolding runs using pre by (intro btree_get_at) fastforce
  have remove: "btree_remove s (allocated_runs self) = pre @ post"
    unfolding runs using pre by (intro btree_remove_at) fastforce
  have update: "btree_insert s (i - 1) (allocated_runs self) = pre @ (s, i - 1) # post"
    unfolding runs using pre by (intro btree_update_at) fastforce
  have insert1: "btree_insert (i + 1) e (pre @ post) = pre @ (i + 1, e) # post" if "i < e"
    using that pre post' i by (intro btree_insert_at) fastforce+
  have insert2: "btree_insert (i + 1) e ((pre @ [(s, i - 1)]) @ post)
      = (pre @ [(s, i - 1)]) @ (i + 1, e) # post" if "i < e"
    using that pre post' i by (intro btree_insert_at) fastforce+
  show ?thesis
    using i max get remove update insert1 insert2 last
    by (cases "i = s"; cases "i < e") (simp_all add: SparseIdAlloc_free_def split_run_def add_u32_def)
qed

lemma SparseIdAlloc_free_meets_contract:
  assumes inv: "SparseIdAlloc_inv self" and used: "i \<in> SparseIdAlloc_in_use self"
  shows "\<exists>self'. SparseIdAlloc_free self i = Return self' \<and> SparseIdAlloc_inv self'
    \<and> SparseIdAlloc_universe self' = SparseIdAlloc_universe self
    \<and> SparseIdAlloc_in_use self' = SparseIdAlloc_in_use self - {i}"
proof -
  note inv' = SparseIdAlloc_invD [OF inv]
  have ok: "btree_ok (allocated_runs self)" by (rule runs_from_btree_ok [OF inv'(3)])
  have "btree_last (btree_before (\<lambda>k. k \<le> i) (allocated_runs self)) \<noteq> None"
    using used btree_last_before_None [OF ok]
    by (fastforce simp: SparseIdAlloc_in_use_def run_ids_def)
  then obtain s e where last: "btree_last (btree_before (\<lambda>k. k \<le> i) (allocated_runs self)) = Some (s, e)"
    by auto
  then obtain pre post where runs: "allocated_runs self = pre @ (s, e) # post" "s \<le> i"
    "\<forall>x \<in> set post. i < fst x" using btree_last_before_split [OF ok] by blast
  with inv'(3) used have "i \<le> e"
    using run_ids_append_Cons_iff by (simp add: SparseIdAlloc_in_use_def)
  let ?self' = "self\<lparr>allocated_runs := pre @ split_run s e i @ post\<rparr>"
  have rf: "runs_from (sp_min self) (pre @ (s, e) # post)" using inv'(3) runs by simp
  then have parts: "runs_from (sp_min self) pre" "\<forall>(a, b) \<in> set pre. b + 2 \<le> s" "sp_min self \<le> s"
    "runs_from (e + 2) post" by (simp_all add: runs_from_append)
  have disjoint: "run_ids pre \<inter> {s..e} = {}" "run_ids post \<inter> {s..e} = {}"
    using parts by (fastforce simp: run_ids_def, force dest: runs_from_ge)
  have "run_ids (split_run s e i) = {s..e} - {i}" using runs(2) \<open>i \<le> e\<close> by (auto simp: split_run_def)
  with disjoint runs(1) have "SparseIdAlloc_in_use ?self' = SparseIdAlloc_in_use self - {i}"
    using runs(2) \<open>i \<le> e\<close> by (auto simp: SparseIdAlloc_in_use_def)
  moreover have "SparseIdAlloc_inv ?self'"
    using inv' runs \<open>i \<le> e\<close> parts runs_from_split_run [OF rf runs(2) \<open>i \<le> e\<close>]
    by (auto simp: SparseIdAlloc_inv_def split_run_def)
  ultimately show ?thesis
    using SparseIdAlloc_free_split [OF inv runs(1,2) \<open>i \<le> e\<close> runs(3) last]
    by (simp add: SparseIdAlloc_universe_def)
qed

lemma SparseIdAlloc_free_unused_panics:
  assumes "SparseIdAlloc_inv self" "i \<notin> SparseIdAlloc_in_use self"
  shows "SparseIdAlloc_free self i = Panic"
proof (cases "btree_last (btree_before (\<lambda>k. k \<le> i) (allocated_runs self))")
  case None
  then show ?thesis by (simp add: SparseIdAlloc_free_def)
next
  case (Some p)
  obtain s e where p: "p = (s, e)" by (cases p)
  have rf: "runs_from (sp_min self) (allocated_runs self)" by (rule SparseIdAlloc_invD [OF assms(1)])
  obtain pre post where "allocated_runs self = pre @ (s, e) # post" "s \<le> i" "\<forall>x \<in> set post. i < fst x"
    using btree_last_before_split [OF runs_from_btree_ok [OF rf]] Some p by blast
  with rf assms(2) have "\<not> i \<le> e" using run_ids_append_Cons_iff by (simp add: SparseIdAlloc_in_use_def)
  with Some p show ?thesis by (simp add: SparseIdAlloc_free_def)
qed

interpretation sparse: strict_id_allocator SparseIdAlloc_alloc SparseIdAlloc_free
  SparseIdAlloc_universe SparseIdAlloc_in_use SparseIdAlloc_inv
  by unfold_locales
    (rule SparseIdAlloc_alloc_meets_contract SparseIdAlloc_free_meets_contract
      SparseIdAlloc_free_unused_panics; assumption)+

lemma SparseIdAlloc_new_inv:
  assumes "lo \<le> hi" "hi \<le> u32_max"
  shows "\<exists>self. SparseIdAlloc_new lo hi = Return self \<and> SparseIdAlloc_inv self
    \<and> SparseIdAlloc_universe self = {lo..hi} \<and> SparseIdAlloc_in_use self = {}"
  using assms by (simp add: SparseIdAlloc_new_def SparseIdAlloc_inv_def SparseIdAlloc_sets)

section \<open>Properties\<close>

text \<open>
  C10. A client of the sparse allocator sees exactly the abstract allocator over \<open>[min, max]\<close>: for
  every sequence of allocations and releases, starting from a new allocator, each allocation
  answers with the smallest identifier not in use or with \<open>None\<close> when all are in use, and the run
  panics exactly when it releases an identifier that is not in use. The overflow-prone additions
  of the code never overflow, up to \<open>max = u32::MAX\<close>.
\<close>

theorem SparseIdAlloc_serves_as_specified:
  assumes "lo \<le> hi" "hi \<le> u32_max"
  shows "and_then (SparseIdAlloc_new lo hi) (\<lambda>self.
      and_then (serve SparseIdAlloc_alloc SparseIdAlloc_free rs self) (\<lambda>(out, self'). Return out))
    = and_then (id_spec {lo..hi} rs {}) (\<lambda>(out, A). Return out)"
proof -
  from SparseIdAlloc_new_inv [OF assms] obtain self where
    "SparseIdAlloc_new lo hi = Return self" "SparseIdAlloc_inv self"
    "SparseIdAlloc_universe self = {lo..hi}" "SparseIdAlloc_in_use self = {}" by blast
  with sparse.serve_answers [of self rs] show ?thesis by simp
qed

lemma SparseIdAlloc_serves_as_specified_witness:
  "and_then (id_spec {4..5} [Alloc_req, Alloc_req, Alloc_req, Free_req 4, Alloc_req] {})
      (\<lambda>(out, A). Return out) = Return [Some 4, Some 5, None, Some 4]"
proof -
  have "and_then (SparseIdAlloc_new 4 5) (\<lambda>self.
      and_then (serve SparseIdAlloc_alloc SparseIdAlloc_free
        [Alloc_req, Alloc_req, Alloc_req, Free_req 4, Alloc_req] self) (\<lambda>(out, self'). Return out))
    = Return [Some 4, Some 5, None, Some 4]"
    by (simp add: SparseIdAlloc_new_def SparseIdAlloc_alloc_def SparseIdAlloc_free_def
        absorb_next_run_def checked_add_u32_def add_u32_def btree_first_def btree_last_def
        btree_before_def)
  with SparseIdAlloc_serves_as_specified [of 4 5 "[Alloc_req, Alloc_req, Alloc_req, Free_req 4, Alloc_req]"]
  show ?thesis by simp
qed
end
