(* ===== verification/File_Range.thy ===== *)
theory File_Range
  imports Kernel_Prelude
begin

text \<open>
  Half-open file ranges and their relative positions,
  \<open>kernel/core/src/fs/vfs/range_lock/range.rs\<close>.
\<close>

record FileRange =
  fr_start :: nat
  fr_end :: nat

datatype FileRangeChange = Same | Expanded | Shrunk

datatype OverlapWith = ToLeft | ToRight | InMiddle | Includes

definition FileRange_new :: "nat \<Rightarrow> nat \<Rightarrow> errno + FileRange" where
  "FileRange_new s e = (if s \<ge> e then Inl EINVAL else Inr \<lparr>fr_start = s, fr_end = e\<rparr>)"

definition FileRange_len :: "FileRange \<Rightarrow> nat" where
  "FileRange_len self = fr_end self - fr_start self"

definition FileRange_set_start :: "FileRange \<Rightarrow> nat \<Rightarrow> errno + (FileRangeChange \<times> FileRange)" where
  "FileRange_set_start self new_start =
     (if new_start \<ge> fr_end self then Inl EINVAL
      else
        let old_start = fr_start self;
            change = (if new_start > old_start then Shrunk
                      else if new_start < old_start then Expanded
                      else Same)
        in Inr (change, self\<lparr>fr_start := new_start\<rparr>))"

definition FileRange_set_end :: "FileRange \<Rightarrow> nat \<Rightarrow> errno + (FileRangeChange \<times> FileRange)" where
  "FileRange_set_end self new_end =
     (if new_end \<le> fr_start self then Inl EINVAL
      else
        let old_end = fr_end self;
            change = (if new_end < old_end then Shrunk
                      else if new_end > old_end then Expanded
                      else Same)
        in Inr (change, self\<lparr>fr_end := new_end\<rparr>))"

definition FileRange_overlap_with :: "FileRange \<Rightarrow> FileRange \<Rightarrow> OverlapWith option" where
  "FileRange_overlap_with self other =
     (if fr_start self \<ge> fr_end other \<or> fr_end self \<le> fr_start other then None
      else if fr_start self \<le> fr_start other \<and> fr_end self < fr_end other then Some ToLeft
      else if fr_start self > fr_start other \<and> fr_end self < fr_end other then Some InMiddle
      else if fr_start self > fr_start other \<and> fr_end self \<ge> fr_end other then Some ToRight
      else Some Includes)"

definition FileRange_merge :: "FileRange \<Rightarrow> FileRange \<Rightarrow> errno + (FileRangeChange \<times> FileRange)" where
  "FileRange_merge self other =
     (if fr_end self < fr_start other \<or> fr_end other < fr_start self then Inl EINVAL
      else
        let (change, self) = (if fr_start other < fr_start self
              then (Expanded, self\<lparr>fr_start := fr_start other\<rparr>) else (Same, self));
            (change, self) = (if fr_end other > fr_end self
              then (Expanded, self\<lparr>fr_end := fr_end other\<rparr>) else (change, self))
        in Inr (change, self))"

section \<open>The offsets of a range\<close>

definition FileRange_valid :: "FileRange \<Rightarrow> bool" where
  "FileRange_valid r \<longleftrightarrow> fr_start r < fr_end r"

definition offsets :: "FileRange \<Rightarrow> nat set" where
  "offsets r = {fr_start r..<fr_end r}"

lemma mem_offsets [simp]: "x \<in> offsets r \<longleftrightarrow> fr_start r \<le> x \<and> x < fr_end r"
  by (simp add: offsets_def)

lemma FileRange_new_valid: "FileRange_new s e = Inr r \<Longrightarrow> FileRange_valid r \<and> offsets r = {s..<e}"
  by (auto simp: FileRange_new_def FileRange_valid_def split: if_splits)

lemma overlap_None_iff:
  "FileRange_valid a \<Longrightarrow> FileRange_valid b
    \<Longrightarrow> FileRange_overlap_with a b = None \<longleftrightarrow> offsets a \<inter> offsets b = {}"
  by (auto simp: FileRange_overlap_with_def FileRange_valid_def offsets_def)

lemma FileRange_merge_union:
  assumes "FileRange_merge a b = Inr (change, r)" "FileRange_valid a" "FileRange_valid b"
  shows "offsets r = offsets a \<union> offsets b \<and> FileRange_valid r \<and> change \<noteq> Shrunk"
  using assms
  by (auto simp: FileRange_merge_def FileRange_valid_def offsets_def split: if_splits)

end
