(* ===== verification/Range_Lock.thy ===== *)
theory Range_Lock
  imports File_Range
begin

text \<open>
  POSIX advisory file range locks, \<open>kernel/core/src/fs/vfs/range_lock/mod.rs\<close>: the per-inode list
  of locks, the insertion loop that merges, splits and replaces locks of the same owner, the
  unlock loop, the conflict test and the wait queues of blocked requests.

  A \<open>WaitQueue\<close> is shared between the clones of a lock item (it is behind an \<open>Arc\<close>), so an item
  holds the identity of its queue and the queues are a separate store; dropping an item or
  shrinking its range wakes every waker of its queue. The list operations run under the write
  lock of the list, so each of them is one atomic step.
\<close>

section \<open>Lock items and wait queues\<close>

datatype RangeLockType = ReadLock | WriteLock | Unlock

type_synonym waker = nat

record WaitQueues =
  queue_of :: "nat \<Rightarrow> waker list"
  woken :: "waker set"

definition wq_enqueue :: "nat \<Rightarrow> waker \<Rightarrow> WaitQueues \<Rightarrow> WaitQueues" where
  "wq_enqueue q w ws = ws\<lparr>queue_of := (queue_of ws)(q := queue_of ws q @ [w])\<rparr>"

definition wq_wake_all :: "nat \<Rightarrow> WaitQueues \<Rightarrow> WaitQueues" where
  "wq_wake_all q ws =
     ws\<lparr>queue_of := (queue_of ws)(q := []), woken := woken ws \<union> set (queue_of ws q)\<rparr>"

record RangeLockItem =
  lk_owner :: nat
  lk_pid :: nat
  lk_type :: RangeLockType
  lk_range :: FileRange
  lk_waitqueue :: nat

definition RangeLockItem_new :: "nat \<Rightarrow> nat \<Rightarrow> RangeLockType \<Rightarrow> FileRange \<Rightarrow> nat \<Rightarrow> RangeLockItem" where
  "RangeLockItem_new owner pid type r new_queue =
     \<lparr>lk_owner = owner, lk_pid = pid, lk_type = type, lk_range = r, lk_waitqueue = new_queue\<rparr>"

abbreviation lk_start :: "RangeLockItem \<Rightarrow> nat" where
  "lk_start lock \<equiv> fr_start (lk_range lock)"

abbreviation lk_end :: "RangeLockItem \<Rightarrow> nat" where
  "lk_end lock \<equiv> fr_end (lk_range lock)"

definition RangeLockItem_overlap_with :: "RangeLockItem \<Rightarrow> RangeLockItem \<Rightarrow> OverlapWith option" where
  "RangeLockItem_overlap_with self other = FileRange_overlap_with (lk_range self) (lk_range other)"

definition RangeLockItem_conflict_with :: "RangeLockItem \<Rightarrow> RangeLockItem \<Rightarrow> bool" where
  "RangeLockItem_conflict_with self other =
     (if lk_owner self = lk_owner other then False
      else if RangeLockItem_overlap_with self other = None then False
      else if lk_type self = WriteLock \<or> lk_type other = WriteLock then True
      else False)"

definition RangeLockItem_merge_with :: "RangeLockItem \<Rightarrow> RangeLockItem \<Rightarrow> RangeLockItem outcome" where
  "RangeLockItem_merge_with self other =
     (case FileRange_merge (lk_range self) (lk_range other) of
        Inl _ \<Rightarrow> Panic
      | Inr (_, r) \<Rightarrow> Return (self\<lparr>lk_range := r\<rparr>))"

definition RangeLockItem_set_start ::
  "RangeLockItem \<Rightarrow> nat \<Rightarrow> WaitQueues \<Rightarrow> (RangeLockItem \<times> WaitQueues) outcome" where
  "RangeLockItem_set_start self new_start ws =
     (case FileRange_set_start (lk_range self) new_start of
        Inl _ \<Rightarrow> Panic
      | Inr (change, r) \<Rightarrow>
          Return (self\<lparr>lk_range := r\<rparr>,
            if change = Shrunk then wq_wake_all (lk_waitqueue self) ws else ws))"

definition RangeLockItem_set_end ::
  "RangeLockItem \<Rightarrow> nat \<Rightarrow> WaitQueues \<Rightarrow> (RangeLockItem \<times> WaitQueues) outcome" where
  "RangeLockItem_set_end self new_end ws =
     (case FileRange_set_end (lk_range self) new_end of
        Inl _ \<Rightarrow> Panic
      | Inr (change, r) \<Rightarrow>
          Return (self\<lparr>lk_range := r\<rparr>,
            if change = Shrunk then wq_wake_all (lk_waitqueue self) ws else ws))"

definition RangeLockItem_drop :: "RangeLockItem \<Rightarrow> WaitQueues \<Rightarrow> WaitQueues" where
  "RangeLockItem_drop self ws = wq_wake_all (lk_waitqueue self) ws"

section \<open>The lock list\<close>

record RangeLockList =
  inner :: "RangeLockItem list"
  waitqueues :: WaitQueues

definition RangeLockList_new :: "WaitQueues \<Rightarrow> RangeLockList" where
  "RangeLockList_new ws = \<lparr>inner = [], waitqueues = ws\<rparr>"

definition RangeLockList_test_lock :: "RangeLockList \<Rightarrow> RangeLockItem \<Rightarrow> RangeLockItem" where
  "RangeLockList_test_lock self lock =
     (case find (RangeLockItem_conflict_with lock) (inner self) of
        Some existing \<Rightarrow>
          lock\<lparr>lk_owner := lk_owner existing, lk_pid := lk_pid existing,
            lk_type := lk_type existing, lk_range := lk_range existing\<rparr>
      | None \<Rightarrow> lock\<lparr>lk_type := Unlock\<rparr>)"

text \<open>
  The loop of \<open>insert_lock_into_list\<close>. Its state is the vector, the two indices and the wait
  queues; \<open>split_at_mut(next_idx)\<close> followed by \<open>left[pre_idx]\<close> panics unless \<open>pre_idx < next_idx\<close>.
\<close>

lemma and_then_cong [fundef_cong]:
  "m = m' \<Longrightarrow> (\<And>x. m' = Return x \<Longrightarrow> f x = g x) \<Longrightarrow> and_then m f = and_then m' g"
  by (cases m') auto

lemma swap_at_length: "swap_at i j xs = Return ys \<Longrightarrow> length ys = length xs"
  by (auto simp: swap_at_def split: if_splits)

lemma remove_at_length: "remove_at i xs = Return ys \<Longrightarrow> length xs = Suc (length ys)"
  by (auto simp: remove_at_def split: if_splits)

function insert_loop :: "RangeLockItem list \<Rightarrow> nat \<Rightarrow> nat \<Rightarrow> WaitQueues
    \<Rightarrow> (RangeLockItem list \<times> WaitQueues) outcome" where
  "insert_loop list pre_idx next_idx ws =
     (if next_idx \<ge> length list then Return (list, ws)
      else if pre_idx \<ge> next_idx then Panic
      else
        let pre_lock = list ! pre_idx; next_lock = list ! next_idx in
        if lk_owner next_lock \<noteq> lk_owner pre_lock then Return (list, ws)
        else if lk_type next_lock = lk_type pre_lock then
          if lk_end pre_lock < lk_start next_lock then Return (list, ws)
          else if lk_end next_lock < lk_start pre_lock then
            and_then (swap_at pre_idx next_idx list) (\<lambda>list'.
            insert_loop list' (pre_idx + 1) (next_idx + 1) ws)
          else
            and_then (RangeLockItem_merge_with next_lock pre_lock) (\<lambda>merged.
            and_then (remove_at pre_idx (list[next_idx := merged])) (\<lambda>list'.
            insert_loop list' pre_idx next_idx (RangeLockItem_drop pre_lock ws)))
        else
          if lk_end pre_lock \<le> lk_start next_lock then Return (list, ws)
          else if lk_end next_lock \<le> lk_start pre_lock then
            and_then (swap_at pre_idx next_idx list) (\<lambda>list'.
            insert_loop list' (pre_idx + 1) (next_idx + 1) ws)
          else
            case RangeLockItem_overlap_with pre_lock next_lock of
              None \<Rightarrow> Panic
            | Some ToLeft \<Rightarrow>
                and_then (RangeLockItem_set_start next_lock (lk_end pre_lock) ws) (\<lambda>(n, ws).
                Return (list[next_idx := n], ws))
            | Some InMiddle \<Rightarrow>
                and_then (RangeLockItem_set_start next_lock (lk_end pre_lock) ws) (\<lambda>(right_lk, ws).
                and_then (RangeLockItem_set_end next_lock (lk_start pre_lock) ws) (\<lambda>(n, ws).
                and_then (swap_at pre_idx next_idx (list[next_idx := n])) (\<lambda>list'.
                and_then (insert_at (next_idx + 1) right_lk list') (\<lambda>list''.
                Return (list'', ws)))))
            | Some ToRight \<Rightarrow>
                and_then (RangeLockItem_set_end next_lock (lk_start pre_lock) ws) (\<lambda>(n, ws').
                and_then (swap_at pre_idx next_idx (list[next_idx := n])) (\<lambda>list'.
                insert_loop list' (pre_idx + 1) (next_idx + 1) ws'))
            | Some Includes \<Rightarrow>
                and_then (remove_at next_idx list) (\<lambda>list'.
                insert_loop list' pre_idx next_idx (RangeLockItem_drop next_lock ws)))"
  by pat_completeness auto
termination
  by (relation "measure (\<lambda>(list, pre_idx, next_idx, ws). length list - next_idx)")
    (auto dest!: swap_at_length remove_at_length)

declare insert_loop.simps [simp del]

definition insert_lock_into_list :: "RangeLockItem list \<Rightarrow> RangeLockItem \<Rightarrow> WaitQueues
    \<Rightarrow> (RangeLockItem list \<times> WaitQueues) outcome" where
  "insert_lock_into_list list lock ws =
     (case position (\<lambda>lk. lk_owner lk = lk_owner lock) list of
        None \<Rightarrow> Return (list @ [lock], ws)
      | Some first_same_owner_idx \<Rightarrow>
          and_then (insert_at first_same_owner_idx lock list) (\<lambda>list.
          insert_loop list first_same_owner_idx (first_same_owner_idx + 1) ws))"

definition RangeLockList_try_set_lock :: "RangeLockList \<Rightarrow> RangeLockItem \<Rightarrow> waker option
    \<Rightarrow> ((errno + unit) \<times> RangeLockList) outcome" where
  "RangeLockList_try_set_lock self req_lock waker =
     (case find (RangeLockItem_conflict_with req_lock) (inner self) of
        Some conflict_lock \<Rightarrow>
          Return (Inl EAGAIN,
            case waker of
              Some w \<Rightarrow> self\<lparr>waitqueues := wq_enqueue (lk_waitqueue conflict_lock) w (waitqueues self)\<rparr>
            | None \<Rightarrow> self)
      | None \<Rightarrow>
          and_then (insert_lock_into_list (inner self) req_lock (waitqueues self)) (\<lambda>(list, ws).
          Return (Inr (), self\<lparr>inner := list, waitqueues := ws\<rparr>)))"

text \<open>The loop of \<open>unlock\<close>.\<close>

function unlock_loop :: "RangeLockItem \<Rightarrow> RangeLockItem list \<Rightarrow> nat \<Rightarrow> WaitQueues
    \<Rightarrow> (RangeLockItem list \<times> WaitQueues) outcome" where
  "unlock_loop lock list skipped ws =
     (case position (\<lambda>lk. lk_owner lk = lk_owner lock) (drop skipped list) of
        None \<Rightarrow> Return (list, ws)
      | Some offset \<Rightarrow>
          let idx = offset + skipped; existing_lock = list ! idx in
          case RangeLockItem_overlap_with lock existing_lock of
            None \<Rightarrow> unlock_loop lock list (idx + 1) ws
          | Some ToLeft \<Rightarrow>
              and_then (RangeLockItem_set_start existing_lock (lk_end lock) ws) (\<lambda>(x, ws).
              Return (list[idx := x], ws))
          | Some InMiddle \<Rightarrow>
              and_then (RangeLockItem_set_start existing_lock (lk_end lock) ws) (\<lambda>(right_lk, ws).
              and_then (RangeLockItem_set_end existing_lock (lk_start lock) ws) (\<lambda>(x, ws).
              and_then (insert_at (idx + 1) right_lk (list[idx := x])) (\<lambda>list'.
              Return (list', ws))))
          | Some ToRight \<Rightarrow>
              and_then (RangeLockItem_set_end existing_lock (lk_start lock) ws) (\<lambda>(x, ws').
              unlock_loop lock (list[idx := x]) (idx + 1) ws')
          | Some Includes \<Rightarrow>
              and_then (remove_at idx list) (\<lambda>list'.
              unlock_loop lock list' idx (RangeLockItem_drop existing_lock ws)))"
  by pat_completeness auto
termination
  by (relation "measure (\<lambda>(lock, list, skipped, ws). length list - skipped)")
    (auto dest!: remove_at_length position_SomeD)

declare unlock_loop.simps [simp del]

definition RangeLockList_unlock :: "RangeLockList \<Rightarrow> RangeLockItem \<Rightarrow> RangeLockList outcome" where
  "RangeLockList_unlock self lock =
     and_then (unlock_loop lock (inner self) 0 (waitqueues self)) (\<lambda>(list, ws).
     Return (self\<lparr>inner := list, waitqueues := ws\<rparr>))"

definition RangeLockList_unlock_all :: "RangeLockList \<Rightarrow> nat \<Rightarrow> RangeLockList" where
  "RangeLockList_unlock_all self owner =
     self\<lparr>inner := filter (\<lambda>lock. lk_owner lock \<noteq> owner) (inner self),
       waitqueues := fold RangeLockItem_drop
         (filter (\<lambda>lock. lk_owner lock = owner) (inner self)) (waitqueues self)\<rparr>"

section \<open>What a list of locks means\<close>

text \<open>
  \<open>covers list ow x t\<close>: owner \<open>ow\<close> holds a lock of type \<open>t\<close> on the offset \<open>x\<close>. The items of an owner
  are contiguous and in order, two of them never share an offset, and two of the same type are
  never adjacent.
\<close>

definition covers :: "RangeLockItem list \<Rightarrow> nat \<Rightarrow> nat \<Rightarrow> RangeLockType \<Rightarrow> bool" where
  "covers list ow x t \<longleftrightarrow>
     (\<exists>lock \<in> set list. lk_owner lock = ow \<and> x \<in> offsets (lk_range lock) \<and> lk_type lock = t)"

definition before :: "RangeLockItem \<Rightarrow> RangeLockItem \<Rightarrow> bool" where
  "before a b \<longleftrightarrow> lk_end a \<le> lk_start b \<and> (lk_type a = lk_type b \<longrightarrow> lk_end a < lk_start b)"

definition item_ok :: "RangeLockItem \<Rightarrow> bool" where
  "item_ok lock \<longleftrightarrow> lk_start lock < lk_end lock \<and> lk_type lock \<noteq> Unlock"

fun contiguous :: "RangeLockItem list \<Rightarrow> bool" where
  "contiguous [] \<longleftrightarrow> True"
| "contiguous (a # list) \<longleftrightarrow>
     contiguous list \<and> (lk_owner a \<in> lk_owner ` set list \<longrightarrow> lk_owner (hd list) = lk_owner a)"

definition list_ok :: "RangeLockItem list \<Rightarrow> bool" where
  "list_ok list \<longleftrightarrow> list_all item_ok list \<and> contiguous list
     \<and> sorted_wrt (\<lambda>a b. lk_owner a = lk_owner b \<longrightarrow> before a b) list"

lemma covers_simps [simp]:
  "\<not> covers [] ow x t"
  "covers (a # list) ow x t \<longleftrightarrow>
     (lk_owner a = ow \<and> x \<in> offsets (lk_range a) \<and> lk_type a = t) \<or> covers list ow x t"
  "covers (xs @ ys) ow x t \<longleftrightarrow> covers xs ow x t \<or> covers ys ow x t"
  by (auto simp: covers_def)

lemma not_owner_iff: "ow \<notin> lk_owner ` set list \<longleftrightarrow> (\<forall>a \<in> set list. lk_owner a \<noteq> ow)"
  by auto

lemma covers_owner: "covers list ow x t \<Longrightarrow> ow \<in> lk_owner ` set list"
  by (auto simp: covers_def)

lemma contiguous_append:
  "lk_owner ` set xs \<inter> lk_owner ` set ys = {}
    \<Longrightarrow> contiguous (xs @ ys) \<longleftrightarrow> contiguous xs \<and> contiguous ys"
proof (induction xs)
  case (Cons a xs)
  then show ?case by (cases xs) auto
qed simp

lemma contiguous_same_owner: "\<forall>a \<in> set xs. lk_owner a = ow \<Longrightarrow> contiguous xs"
proof (induction xs)
  case (Cons a xs)
  have "lk_owner (hd xs) = lk_owner a" if "xs \<noteq> []"
    using Cons.prems hd_in_set [OF that] by simp
  then show ?case using Cons by (cases "xs = []") simp_all
qed simp

text \<open>The locks of one owner in a contiguous list.\<close>

definition owner_split ::
  "nat \<Rightarrow> RangeLockItem list \<Rightarrow> RangeLockItem list \<Rightarrow> RangeLockItem list \<Rightarrow> bool" where
  "owner_split ow pre mine post \<longleftrightarrow>
     ow \<notin> lk_owner ` set pre \<and> (\<forall>a \<in> set mine. lk_owner a = ow) \<and> ow \<notin> lk_owner ` set post
     \<and> lk_owner ` set pre \<inter> lk_owner ` set post = {}"

lemma contiguous_tail: "contiguous (xs @ ys) \<Longrightarrow> contiguous ys"
  by (induction xs) auto

lemma contiguous_after_run:
  "contiguous (a # list) \<Longrightarrow> b \<in> set (dropWhile (\<lambda>c. lk_owner c = lk_owner a) list)
    \<Longrightarrow> lk_owner b \<noteq> lk_owner a"
proof (induction list)
  case (Cons c list)
  show ?case
  proof (cases "lk_owner c = lk_owner a")
    case True
    then have "contiguous (a # list)" using Cons.prems(1) by auto
    then show ?thesis using Cons.IH Cons.prems(2) True by simp
  next
    case False
    then have "lk_owner a \<notin> lk_owner ` set (c # list)" using Cons.prems(1) by auto
    moreover have "b \<in> set (c # list)" using Cons.prems(2) False by simp
    then have "lk_owner b \<in> lk_owner ` set (c # list)" by (rule imageI)
    ultimately show ?thesis by metis
  qed
qed simp

lemma contiguous_apart:
  "contiguous (pre @ m # post) \<Longrightarrow> lk_owner m \<notin> lk_owner ` set pre
    \<Longrightarrow> lk_owner ` set pre \<inter> lk_owner ` set post = {}"
proof (induction pre)
  case (Cons p pre)
  then have IH: "lk_owner ` set pre \<inter> lk_owner ` set post = {}" by auto
  have "lk_owner p \<notin> lk_owner ` set post"
  proof
    assume *: "lk_owner p \<in> lk_owner ` set post"
    then have hd: "lk_owner (hd (pre @ m # post)) = lk_owner p" using Cons.prems(1) by auto
    show False
    proof (cases pre)
      case Nil
      then show False using hd Cons.prems(2) by simp
    next
      case (Cons q qs)
      then have "lk_owner q \<in> lk_owner ` set pre \<inter> lk_owner ` set post" using hd * by simp
      then show False using IH by simp
    qed
  qed
  then show ?case using IH by simp
qed simp

lemma owner_split_exists:
  assumes "contiguous list" "ow \<in> lk_owner ` set list"
  obtains pre m mine post where "list = pre @ (m # mine) @ post" "owner_split ow pre (m # mine) post"
proof -
  from assms(2) have "\<exists>a \<in> set list. lk_owner a = ow" by auto
  from split_list_first_prop [OF this] obtain pre m rest
    where list: "list = pre @ m # rest" "lk_owner m = ow" "\<forall>a \<in> set pre. lk_owner a \<noteq> ow" by auto
  define mine where "mine = takeWhile (\<lambda>c. lk_owner c = lk_owner m) rest"
  define post where "post = dropWhile (\<lambda>c. lk_owner c = lk_owner m) rest"
  have rest: "rest = mine @ post" by (simp add: mine_def post_def)
  have "\<forall>a \<in> set mine. lk_owner a = ow" using list(2) by (auto simp: mine_def dest: set_takeWhileD)
  moreover have "lk_owner b \<noteq> ow" if "b \<in> set post" for b
    using contiguous_after_run [of m rest b] contiguous_tail [of pre "m # rest"] that assms(1) list
    by (simp add: post_def)
  then have "ow \<notin> lk_owner ` set post" by blast
  moreover have m: "lk_owner m \<notin> lk_owner ` set pre" using list(2,3) by force
  then have "lk_owner ` set pre \<inter> lk_owner ` set rest = {}"
    using contiguous_apart [of pre m rest] assms(1) list(1) by simp
  ultimately have "owner_split ow pre (m # mine) post"
    using m list(2) rest by (simp add: owner_split_def image_Un Int_Un_distrib)
  then show ?thesis using that list(1) rest by simp
qed

lemma list_ok_split:
  assumes "owner_split ow pre mine post"
  shows "list_ok (pre @ mine @ post) \<longleftrightarrow>
     list_ok pre \<and> list_ok post \<and> list_all item_ok mine \<and> sorted_wrt before mine"
proof -
  have same: "contiguous mine" using assms contiguous_same_owner by (auto simp: owner_split_def)
  have "contiguous (pre @ mine @ post) \<longleftrightarrow> contiguous pre \<and> contiguous post"
  proof -
    have "lk_owner ` set pre \<inter> lk_owner ` set (mine @ post) = {}"
      "lk_owner ` set mine \<inter> lk_owner ` set post = {}"
      using assms by (auto simp: owner_split_def)
    then show ?thesis using same by (simp add: contiguous_append)
  qed
  moreover have "sorted_wrt (\<lambda>a b. lk_owner a = lk_owner b \<longrightarrow> before a b) mine \<longleftrightarrow> sorted_wrt before mine"
    using assms by (auto simp: owner_split_def intro: sorted_wrt_mono_rel [rotated])
  moreover have "\<forall>a\<in>set pre. \<forall>b \<in> set mine \<union> set post. lk_owner a \<noteq> lk_owner b"
    "\<forall>a\<in>set mine. \<forall>b \<in> set post. lk_owner a \<noteq> lk_owner b"
    using assms by (fastforce simp: owner_split_def)+
  ultimately show ?thesis by (auto simp: list_ok_def sorted_wrt_append)
qed

section \<open>Insertion as a recursive placement\<close>

text \<open>
  The insertion loop moves the new lock \<open>cur\<close> to the right through the locks of its owner. \<open>place\<close> is
  that walk on the remaining list; \<open>trim_start\<close> and \<open>trim_end\<close> are the two ways an existing lock is
  cut back.
\<close>

definition trim_start :: "RangeLockItem \<Rightarrow> nat \<Rightarrow> RangeLockItem" where
  "trim_start lock s = lock\<lparr>lk_range := (lk_range lock)\<lparr>fr_start := s\<rparr>\<rparr>"

definition trim_end :: "RangeLockItem \<Rightarrow> nat \<Rightarrow> RangeLockItem" where
  "trim_end lock e = lock\<lparr>lk_range := (lk_range lock)\<lparr>fr_end := e\<rparr>\<rparr>"

definition join :: "RangeLockItem \<Rightarrow> RangeLockItem \<Rightarrow> RangeLockItem" where
  "join lock other = lock\<lparr>lk_range := (lk_range lock)
     \<lparr>fr_start := min (lk_start lock) (lk_start other), fr_end := max (lk_end lock) (lk_end other)\<rparr>\<rparr>"

lemma trim_join_fields [simp]:
  "lk_owner (trim_start l s) = lk_owner l" "lk_type (trim_start l s) = lk_type l"
  "lk_start (trim_start l s) = s" "lk_end (trim_start l s) = lk_end l"
  "lk_waitqueue (trim_start l s) = lk_waitqueue l"
  "lk_owner (trim_end l s) = lk_owner l" "lk_type (trim_end l s) = lk_type l"
  "lk_start (trim_end l s) = lk_start l" "lk_end (trim_end l s) = s"
  "lk_waitqueue (trim_end l s) = lk_waitqueue l"
  "lk_owner (join l k) = lk_owner l" "lk_type (join l k) = lk_type l"
  "lk_start (join l k) = min (lk_start l) (lk_start k)"
  "lk_end (join l k) = max (lk_end l) (lk_end k)"
  "lk_waitqueue (join l k) = lk_waitqueue l"
  by (simp_all add: trim_start_def trim_end_def join_def)

fun place :: "RangeLockItem \<Rightarrow> RangeLockItem list \<Rightarrow> WaitQueues \<Rightarrow> RangeLockItem list \<times> WaitQueues" where
  "place cur [] ws = ([cur], ws)"
| "place cur (n # list) ws =
     (if lk_owner n \<noteq> lk_owner cur \<or> before cur n then (cur # n # list, ws)
      else if before n cur then
        let (list', ws') = place cur list ws in (n # list', ws')
      else if lk_type n = lk_type cur then
        place (join n cur) list (wq_wake_all (lk_waitqueue cur) ws)
      else if lk_start cur \<le> lk_start n then
        if lk_end cur < lk_end n then
          (cur # trim_start n (lk_end cur) # list, wq_wake_all (lk_waitqueue n) ws)
        else place cur list (wq_wake_all (lk_waitqueue n) ws)
      else if lk_end cur < lk_end n then
        (trim_end n (lk_start cur) # cur # trim_start n (lk_end cur) # list,
         wq_wake_all (lk_waitqueue n) (wq_wake_all (lk_waitqueue n) ws))
      else
        let (list', ws') = place cur list (wq_wake_all (lk_waitqueue n) ws)
        in (trim_end n (lk_start cur) # list', ws'))"

lemma set_start_trim:
  "lk_start l < s \<Longrightarrow> s < lk_end l \<Longrightarrow>
    RangeLockItem_set_start l s ws = Return (trim_start l s, wq_wake_all (lk_waitqueue l) ws)"
  by (simp add: RangeLockItem_set_start_def FileRange_set_start_def trim_start_def)

lemma set_end_trim:
  "lk_start l < e \<Longrightarrow> e < lk_end l \<Longrightarrow>
    RangeLockItem_set_end l e ws = Return (trim_end l e, wq_wake_all (lk_waitqueue l) ws)"
  by (simp add: RangeLockItem_set_end_def FileRange_set_end_def trim_end_def)

lemma merge_with_join:
  "\<not> lk_end l < lk_start k \<Longrightarrow> \<not> lk_end k < lk_start l
    \<Longrightarrow> RangeLockItem_merge_with l k = Return (join l k)"
  by (auto simp: RangeLockItem_merge_with_def FileRange_merge_def join_def min_def max_def)

lemma insert_loop_place:
  assumes "lk_start cur < lk_end cur" "\<forall>a \<in> set list. lk_start a < lk_end a"
  shows "insert_loop (ps @ cur # list) (length ps) (Suc (length ps)) ws =
     Return (ps @ fst (place cur list ws), snd (place cur list ws))"
  using assms
proof (induction list arbitrary: ps cur ws)
  case Nil
  show ?case by (subst insert_loop.simps) simp
next
  case (Cons n list)
  have nth [simp]: "(ps @ cur # n # list) ! length ps = cur"
    "(ps @ cur # n # list) ! Suc (length ps) = n" by (simp_all add: nth_append)
  have upd [simp]: "(ps @ cur # n # list)[Suc (length ps) := m] = ps @ cur # m # list" for m
    by (simp add: list_update_append)
  have ins [simp]: "insert_at (Suc (Suc (length ps))) r (ps @ a # b # list) = Return (ps @ a # b # r # list)"
    for r a b by (simp add: insert_at_def)
  have rem [simp]: "remove_at (Suc (length ps)) (ps @ cur # n # list) = Return (ps @ cur # list)"
    using remove_at_append [of "ps @ [cur]" "Suc (length ps)" n list] by simp
  have shift: "insert_loop (ps @ m # cur # list) (Suc (length ps)) (Suc (Suc (length ps))) ws =
      Return ((ps @ [m]) @ fst (place cur list ws), snd (place cur list ws))" for m ws
    using Cons.IH [of cur "ps @ [m]" ws] Cons.prems by simp
  have stay: "insert_loop (ps @ c # list) (length ps) (Suc (length ps)) ws =
      Return (ps @ fst (place c list ws), snd (place c list ws))" if "lk_start c < lk_end c" for c ws
    using Cons.IH [of c ps ws] Cons.prems that by simp
  show ?case
    using Cons.prems
    by (subst insert_loop.simps)
      (auto simp: before_def Let_def shift stay set_start_trim set_end_trim merge_with_join
        RangeLockItem_drop_def RangeLockItem_overlap_with_def FileRange_overlap_with_def
        split: prod.splits)
qed

lemma place_append:
  "\<forall>b \<in> set post. lk_owner b \<noteq> lk_owner cur \<Longrightarrow>
    place cur (mine @ post) ws = (fst (place cur mine ws) @ post, snd (place cur mine ws))"
proof (induction cur mine ws rule: place.induct)
  case (1 cur ws)
  then show ?case by (cases post) simp_all
next
  case (2 cur n list ws)
  then show ?case by (auto simp: Let_def split: prod.splits)
qed

text \<open>
  The walk as a relation, one rule per way the new lock meets the next lock of its owner.
\<close>

inductive placed :: "RangeLockItem \<Rightarrow> RangeLockItem list \<Rightarrow> WaitQueues
    \<Rightarrow> RangeLockItem list \<Rightarrow> WaitQueues \<Rightarrow> bool" where
  placed_end: "placed cur [] ws [cur] ws"
| placed_stop: "before cur n \<Longrightarrow> placed cur (n # list) ws (cur # n # list) ws"
| placed_skip: "before n cur \<Longrightarrow> placed cur list ws res ws' \<Longrightarrow> placed cur (n # list) ws (n # res) ws'"
| placed_join: "lk_type n = lk_type cur \<Longrightarrow> lk_start cur \<le> lk_end n \<Longrightarrow> lk_start n \<le> lk_end cur
    \<Longrightarrow> placed (join n cur) list (wq_wake_all (lk_waitqueue cur) ws) res ws'
    \<Longrightarrow> placed cur (n # list) ws res ws'"
| placed_left: "lk_type n \<noteq> lk_type cur \<Longrightarrow> lk_start cur \<le> lk_start n \<Longrightarrow> lk_start n < lk_end cur
    \<Longrightarrow> lk_end cur < lk_end n \<Longrightarrow> placed cur (n # list) ws (cur # trim_start n (lk_end cur) # list)
          (wq_wake_all (lk_waitqueue n) ws)"
| placed_cover: "lk_type n \<noteq> lk_type cur \<Longrightarrow> lk_start cur \<le> lk_start n \<Longrightarrow> lk_end n \<le> lk_end cur
    \<Longrightarrow> placed cur list (wq_wake_all (lk_waitqueue n) ws) res ws' \<Longrightarrow> placed cur (n # list) ws res ws'"
| placed_middle: "lk_type n \<noteq> lk_type cur \<Longrightarrow> lk_start n < lk_start cur \<Longrightarrow> lk_end cur < lk_end n
    \<Longrightarrow> placed cur (n # list) ws
          (trim_end n (lk_start cur) # cur # trim_start n (lk_end cur) # list)
          (wq_wake_all (lk_waitqueue n) (wq_wake_all (lk_waitqueue n) ws))"
| placed_right: "lk_type n \<noteq> lk_type cur \<Longrightarrow> lk_start n < lk_start cur \<Longrightarrow> lk_start cur < lk_end n
    \<Longrightarrow> lk_end n \<le> lk_end cur \<Longrightarrow> placed cur list (wq_wake_all (lk_waitqueue n) ws) res ws'
    \<Longrightarrow> placed cur (n # list) ws (trim_end n (lk_start cur) # res) ws'"

definition placeable :: "RangeLockItem \<Rightarrow> RangeLockItem list \<Rightarrow> bool" where
  "placeable cur mine \<longleftrightarrow> item_ok cur \<and> list_all item_ok mine
     \<and> (\<forall>a \<in> set mine. lk_owner a = lk_owner cur) \<and> sorted_wrt before mine"

lemma placeable_step [dest]:
  "placeable cur (n # list) \<Longrightarrow> placeable cur list"
  by (simp add: placeable_def)

lemma placeable_join [intro]:
  "placeable cur (n # list) \<Longrightarrow> lk_type n = lk_type cur \<Longrightarrow> placeable (join n cur) list"
  by (auto simp: placeable_def item_ok_def)

lemma place_placed:
  "placeable cur mine \<Longrightarrow> placed cur mine ws (fst (place cur mine ws)) (snd (place cur mine ws))"
proof (induction cur mine ws rule: place.induct)
  case (1 cur ws)
  show ?case by (simp add: placed_end)
next
  case (2 cur n list ws)
  have own: "lk_owner n = lk_owner cur" "item_ok n" "item_ok cur"
    using 2(5) by (auto simp: placeable_def)
  consider (stop) "before cur n" | (skip) "\<not> before cur n" "before n cur"
    | (join) "\<not> before cur n" "\<not> before n cur" "lk_type n = lk_type cur"
    | (overlap) "\<not> before cur n" "\<not> before n cur" "lk_type n \<noteq> lk_type cur" by blast
  then show ?case
  proof cases
    case stop
    then show ?thesis using own by (simp add: placed_stop)
  next
    case skip
    then show ?thesis using 2(1) 2(5) own by (auto simp: split_beta Let_def intro: placed_skip)
  next
    case join
    then have "lk_start cur \<le> lk_end n" "lk_start n \<le> lk_end cur" by (auto simp: before_def)
    then show ?thesis
      using 2(2) 2(5) own join by (auto intro!: placed_join placeable_join)
  next
    case overlap
    then have "lk_start cur < lk_end n" "lk_start n < lk_end cur" by (auto simp: before_def)
    then show ?thesis using 2(3-4) placeable_step [OF 2(5)] own overlap
      by (auto simp: split_beta Let_def not_less not_le
          intro: placed_left placed_middle placed_cover placed_right)
  qed
qed

declare place.simps [simp del]

lemma placed_origin:
  "placed cur mine ws res ws' \<Longrightarrow> placeable cur mine \<Longrightarrow> y \<in> set res \<Longrightarrow>
    item_ok y \<and> lk_owner y = lk_owner cur
    \<and> (\<exists>x \<in> set (cur # mine). lk_type x = lk_type y \<and> lk_start x \<le> lk_start y)"
proof (induction rule: placed.induct)
  case (placed_join n cur list ws res ws')
  from placed_join.IH [OF placeable_join [OF placed_join.prems(1) placed_join.hyps(1)] placed_join.prems(2)]
  show ?case using placed_join by (auto simp: placeable_def)
qed (auto simp: placeable_def item_ok_def list_all_iff)

lemma before_origin:
  "before a x \<Longrightarrow> lk_type x = lk_type y \<Longrightarrow> lk_start x \<le> lk_start y \<Longrightarrow> before a y"
  by (auto simp: before_def)

lemma before_trans: "before a b \<Longrightarrow> item_ok b \<Longrightarrow> before b c \<Longrightarrow> before a c"
  by (auto simp: before_def item_ok_def)

lemma placed_after:
  assumes "placed cur mine ws res ws'" "placeable cur mine"
    and "before a cur" "\<forall>x \<in> set mine. before a x"
  shows "\<forall>y \<in> set res. before a y"
  using placed_origin [OF assms(1,2)] assms(3,4) before_origin by fastforce

lemma placed_sorted:
  "placed cur mine ws res ws' \<Longrightarrow> placeable cur mine \<Longrightarrow> sorted_wrt before res"
proof (induction rule: placed.induct)
  case (placed_skip n cur list ws res ws')
  then show ?case using placed_after [of cur list ws res ws' n] by (auto simp: placeable_def)
next
  case (placed_right n cur list ws res ws')
  let ?n = "trim_end n (lk_start cur)"
  have "before ?n cur" "\<forall>x \<in> set list. before ?n x"
    using placed_right by (auto simp: placeable_def before_def)
  then have "\<forall>y \<in> set res. before ?n y"
    using placed_after [of cur list _ res ws' ?n] placed_right by auto
  then show ?case using placed_right by (auto simp: placeable_def)
next
  case (placed_join n cur list ws res ws')
  then show ?case by (auto intro: placeable_join)
next
  case (placed_stop cur n list ws)
  then show ?case using before_trans by (auto simp: placeable_def)
next
  case (placed_left n cur list ws)
  let ?n = "trim_start n (lk_end cur)"
  have "\<forall>x \<in> set list. before ?n x" "before cur ?n" "item_ok ?n"
    using placed_left by (auto simp: placeable_def item_ok_def before_def)
  then show ?case using placed_left before_trans by (auto simp: placeable_def)
next
  case (placed_middle n cur list ws)
  let ?n = "trim_start n (lk_end cur)" and ?m = "trim_end n (lk_start cur)"
  have "\<forall>x \<in> set list. before ?n x" "before cur ?n" "item_ok ?n" "before ?m cur" "before ?m ?n"
    using placed_middle by (auto simp: placeable_def item_ok_def before_def)
  moreover have "\<forall>x \<in> set list. before cur x \<and> before ?m x"
    using calculation before_trans [of _ ?n] by blast
  moreover have "sorted_wrt before list" using placed_middle.prems by (simp add: placeable_def)
  ultimately show ?case by simp
qed (auto dest: placeable_step)

lemma sorted_disjoint:
  "sorted_wrt before (n # list) \<Longrightarrow> x \<in> offsets (lk_range n) \<Longrightarrow> \<not> covers list ow x t"
  by (auto simp: covers_def before_def)

lemma join_offsets:
  "item_ok cur \<Longrightarrow> item_ok n \<Longrightarrow> lk_start cur \<le> lk_end n \<Longrightarrow> lk_start n \<le> lk_end cur
    \<Longrightarrow> x \<in> offsets (lk_range (join n cur)) \<longleftrightarrow> x \<in> offsets (lk_range n) \<or> x \<in> offsets (lk_range cur)"
  by (auto simp: item_ok_def)

lemma placed_covers:
  "placed cur mine ws res ws' \<Longrightarrow> placeable cur mine \<Longrightarrow>
    covers res ow x t \<longleftrightarrow>
      (if ow = lk_owner cur \<and> x \<in> offsets (lk_range cur) then t = lk_type cur
       else covers mine ow x t)"
proof (induction rule: placed.induct)
  case (placed_join n cur list ws res ws')
  have "\<not> covers list ow x t" if "x \<in> offsets (lk_range n)"
    using placed_join.prems that sorted_disjoint [of n list x ow t] by (auto simp: placeable_def)
  moreover have "x \<in> offsets (lk_range (join n cur)) \<longleftrightarrow> x \<in> offsets (lk_range n) \<or> x \<in> offsets (lk_range cur)"
    using join_offsets [of cur n] placed_join.hyps placed_join.prems by (simp add: placeable_def)
  moreover have "lk_owner n = lk_owner cur" using placed_join.prems by (simp add: placeable_def)
  ultimately show ?case
    using placed_join.IH [OF placeable_join [OF placed_join.prems placed_join.hyps(1)]] placed_join.hyps(1)
    by (auto simp del: mem_offsets)
next
  case (placed_stop cur n list ws)
  then have "sorted_wrt before (cur # n # list)" by (blast intro: placed_sorted placed.placed_stop)
  from sorted_disjoint [OF this, of x ow t] show ?case by (auto simp del: mem_offsets)
next
  case (placed_left n cur list ws)
  then have "sorted_wrt before (cur # trim_start n (lk_end cur) # list)"
    by (blast intro: placed_sorted placed.placed_left)
  moreover have "lk_owner n = lk_owner cur" using placed_left.prems by (simp add: placeable_def)
  ultimately show ?case
    using sorted_disjoint [of cur "trim_start n (lk_end cur) # list" x ow t] placed_left.hyps
    by (auto simp del: sorted_wrt.simps)
next
  case (placed_middle n cur list ws)
  then have "sorted_wrt before (trim_end n (lk_start cur) # cur # trim_start n (lk_end cur) # list)"
    by (blast intro: placed_sorted placed.placed_middle)
  then have "sorted_wrt before (cur # trim_start n (lk_end cur) # list)" by simp
  moreover have "lk_owner n = lk_owner cur" "lk_start cur < lk_end cur"
    using placed_middle.prems by (simp_all add: placeable_def item_ok_def)
  ultimately show ?case
    using sorted_disjoint [of cur "trim_start n (lk_end cur) # list" x ow t] placed_middle.hyps
    by (auto simp del: sorted_wrt.simps)
next
  case (placed_skip n cur list ws res ws')
  then have "placeable cur list" by blast
  then show ?case using placed_skip.IH placed_skip.hyps(1) by (auto simp: before_def)
next
  case (placed_cover n cur list ws res ws')
  then have "placeable cur list" "lk_owner n = lk_owner cur" by (auto simp: placeable_def)
  then show ?case using placed_cover.IH placed_cover.hyps(1-3) by auto
next
  case (placed_right n cur list ws res ws')
  then have "placeable cur list" "lk_owner n = lk_owner cur" by (auto simp: placeable_def)
  then show ?case using placed_right.IH placed_right.hyps(1-4) by auto
qed auto

section \<open>No waiter is forgotten\<close>

text \<open>
  A change of the list keeps its waiters when everyone who waited on some lock has been woken or
  still waits on a lock of the same owner and type whose range did not shrink.
\<close>

definition extends :: "RangeLockItem \<Rightarrow> RangeLockItem \<Rightarrow> bool" where
  "extends b a \<longleftrightarrow> lk_waitqueue b = lk_waitqueue a \<and> lk_owner b = lk_owner a \<and> lk_type b = lk_type a
     \<and> lk_start b \<le> lk_start a \<and> lk_end a \<le> lk_end b"

definition waiters_kept ::
  "RangeLockItem list \<Rightarrow> WaitQueues \<Rightarrow> RangeLockItem list \<Rightarrow> WaitQueues \<Rightarrow> bool" where
  "waiters_kept list ws list' ws' \<longleftrightarrow> woken ws \<subseteq> woken ws'
     \<and> (\<forall>q. \<forall>w \<in> set (queue_of ws q). w \<in> woken ws' \<or> w \<in> set (queue_of ws' q))
     \<and> (\<forall>a \<in> set list. \<forall>w \<in> set (queue_of ws (lk_waitqueue a)).
          w \<in> woken ws' \<or> (\<exists>b \<in> set list'. extends b a))"

lemma extends_refl [simp, intro]: "extends a a"
  by (simp add: extends_def)

lemma extends_trans: "extends c b \<Longrightarrow> extends b a \<Longrightarrow> extends c a"
  by (auto simp: extends_def)

lemma kept_same: "(\<And>a. a \<in> set list \<Longrightarrow> \<exists>b \<in> set list'. extends b a) \<Longrightarrow> waiters_kept list ws list' ws"
  by (auto simp: waiters_kept_def)

lemma kept_wake:
  "(\<And>a. a \<in> set list \<Longrightarrow> lk_waitqueue a = q \<or> (\<exists>b \<in> set list'. extends b a))
    \<Longrightarrow> waiters_kept list ws list' (wq_wake_all q ws)"
  by (fastforce simp: waiters_kept_def wq_wake_all_def)

lemma kept_trans [trans]:
  assumes 1: "waiters_kept list ws list' ws'" and 2: "waiters_kept list' ws' list'' ws''"
  shows "waiters_kept list ws list'' ws''"
  unfolding waiters_kept_def
proof (intro conjI allI ballI)
  show "woken ws \<subseteq> woken ws''" using assms by (auto simp: waiters_kept_def)
next
  fix q w assume "w \<in> set (queue_of ws q)"
  then have "w \<in> woken ws' \<or> w \<in> set (queue_of ws' q)" using 1 by (simp add: waiters_kept_def)
  then show "w \<in> woken ws'' \<or> w \<in> set (queue_of ws'' q)" using 2 by (auto simp: waiters_kept_def)
next
  fix a w assume a: "a \<in> set list" "w \<in> set (queue_of ws (lk_waitqueue a))"
  then have "w \<in> woken ws' \<or> w \<in> set (queue_of ws' (lk_waitqueue a))"
    and "w \<in> woken ws' \<or> (\<exists>b \<in> set list'. extends b a)" using 1 by (auto simp: waiters_kept_def)
  moreover have "w \<in> woken ws''" if "w \<in> woken ws'" using that 2 by (auto simp: waiters_kept_def)
  moreover have "w \<in> woken ws'' \<or> (\<exists>c \<in> set list''. extends c a)"
    if b: "b \<in> set list'" "extends b a" and w: "w \<in> set (queue_of ws' (lk_waitqueue a))" for b
  proof -
    have "w \<in> set (queue_of ws' (lk_waitqueue b))" using b(2) w by (simp add: extends_def)
    then have "w \<in> woken ws'' \<or> (\<exists>c \<in> set list''. extends c b)"
      using 2 b(1) by (auto simp: waiters_kept_def)
    then show ?thesis using b(2) extends_trans by blast
  qed
  ultimately show "w \<in> woken ws'' \<or> (\<exists>b \<in> set list''. extends b a)" by blast
qed

lemma kept_add: "waiters_kept list ws list' ws' \<Longrightarrow> waiters_kept (n # list) ws (n # list') ws'"
  by (auto simp: waiters_kept_def)

lemma kept_frame:
  "waiters_kept list ws list' ws' \<Longrightarrow> waiters_kept (pre @ list @ post) ws (pre @ list' @ post) ws'"
  by (auto simp: waiters_kept_def intro: extends_refl)

lemma kept_perm:
  "set list = set list1 \<Longrightarrow> waiters_kept list ws list' ws' \<Longrightarrow> waiters_kept list1 ws list' ws'"
  by (simp add: waiters_kept_def)

lemma placed_waiters:
  "placed cur mine ws res ws' \<Longrightarrow> waiters_kept (cur # mine) ws res ws'"
proof (induction rule: placed.induct)
  case (placed_skip n cur list ws res ws')
  show ?case by (rule kept_perm [OF _ kept_add [OF placed_skip.IH, of n]]) auto
next
  case (placed_join n cur list ws res ws')
  have "waiters_kept (cur # n # list) ws (join n cur # list) (wq_wake_all (lk_waitqueue cur) ws)"
    by (rule kept_wake) (auto simp: extends_def)
  also note placed_join.IH
  finally show ?case .
next
  case (placed_left n cur list ws)
  show ?case by (rule kept_wake) auto
next
  case (placed_cover n cur list ws res ws')
  have "waiters_kept (cur # n # list) ws (cur # list) (wq_wake_all (lk_waitqueue n) ws)"
    by (rule kept_wake) auto
  also note placed_cover.IH
  finally show ?case .
next
  case (placed_middle n cur list ws)
  let ?res = "trim_end n (lk_start cur) # cur # trim_start n (lk_end cur) # list"
  have "waiters_kept (cur # n # list) ws ?res (wq_wake_all (lk_waitqueue n) ws)"
    by (rule kept_wake) auto
  also have "waiters_kept ?res (wq_wake_all (lk_waitqueue n) ws) ?res
      (wq_wake_all (lk_waitqueue n) (wq_wake_all (lk_waitqueue n) ws))"
    by (rule kept_wake) auto
  finally show ?case .
next
  case (placed_right n cur list ws res ws')
  have "waiters_kept (cur # n # list) ws (cur # list) (wq_wake_all (lk_waitqueue n) ws)"
    by (rule kept_wake) auto
  also note placed_right.IH
  also have "waiters_kept res ws' (trim_end n (lk_start cur) # res) ws'" by (rule kept_same) auto
  finally show ?case .
qed (auto intro: kept_same)

section \<open>Insertion\<close>

lemma covers_split:
  assumes "owner_split ow pre mine post"
  shows "covers (pre @ mine @ post) ow' x t \<longleftrightarrow>
    (if ow' = ow then covers mine ow x t else covers pre ow' x t \<or> covers post ow' x t)"
  using assms by (auto simp: owner_split_def dest: covers_owner)

lemma insert_lock_correct:
  assumes "list_ok list" "item_ok lock"
  obtains list' ws' where "insert_lock_into_list list lock ws = Return (list', ws')"
    "list_ok list'"
    "\<And>ow x t. covers list' ow x t \<longleftrightarrow> (if ow = lk_owner lock \<and> x \<in> offsets (lk_range lock)
       then t = lk_type lock else covers list ow x t)"
    "waiters_kept list ws list' ws'"
proof (cases "lk_owner lock \<in> lk_owner ` set list")
  case False
  then have none: "position (\<lambda>lk. lk_owner lk = lk_owner lock) list = None"
    by (simp add: position_None_iff not_owner_iff)
  have "owner_split (lk_owner lock) list [lock] []" using False by (simp add: owner_split_def)
  from list_ok_split [OF this] have "list_ok (list @ [lock])"
    using assms by (simp add: list_ok_def)
  moreover have "waiters_kept list ws (list @ [lock]) ws" by (rule kept_same) auto
  ultimately show ?thesis
    using none False by (intro that [of "list @ [lock]" ws])
      (auto simp: insert_lock_into_list_def dest: covers_owner)
next
  case True
  have "contiguous list" using assms(1) by (simp add: list_ok_def)
  from owner_split_exists [OF this True] obtain pre m mine post
    where list: "list = pre @ (m # mine) @ post" "owner_split (lk_owner lock) pre (m # mine) post" .
  let ?mine = "m # mine" and ?res = "place lock (m # mine) ws"
  have owners: "lk_owner m = lk_owner lock" "\<forall>a \<in> set pre. lk_owner a \<noteq> lk_owner lock"
    "\<forall>a \<in> set post. lk_owner a \<noteq> lk_owner lock" using list(2) by (simp_all add: owner_split_def not_owner_iff)
  have ok: "list_ok pre" "list_ok post" "list_all item_ok ?mine" "sorted_wrt before ?mine"
    using assms(1) unfolding list(1) list_ok_split [OF list(2)] by simp_all
  then have able: "placeable lock ?mine"
    using assms(2) list(2) by (simp add: placeable_def owner_split_def)
  note placed = place_placed [OF able, of ws]
  have split: "owner_split (lk_owner lock) pre (fst ?res) post"
    using list(2) placed_origin [OF placed able] by (simp add: owner_split_def)
  have pos: "position (\<lambda>lk. lk_owner lk = lk_owner lock) list = Some (length pre)"
    using owners list(1) position_None_iff [of "\<lambda>lk. lk_owner lk = lk_owner lock" pre]
    by (simp add: position_append)
  have "insert_lock_into_list list lock ws = Return (pre @ fst ?res @ post, snd ?res)"
    using assms list(1) pos insert_loop_place [of lock "?mine @ post" pre ws]
      place_append [OF owners(3), of ?mine ws]
    by (simp add: insert_lock_into_list_def list_ok_def item_ok_def list_all_iff)
  moreover have "list_ok (pre @ fst ?res @ post)"
    using list_ok_split [OF split] ok placed_origin [OF placed able] placed_sorted [OF placed able]
    by (simp add: list_all_iff)
  moreover have "covers (pre @ fst ?res @ post) ow x t \<longleftrightarrow>
      (if ow = lk_owner lock \<and> x \<in> offsets (lk_range lock) then t = lk_type lock else covers list ow x t)"
    for ow x t
    unfolding covers_split [OF split] list(1) covers_split [OF list(2)] placed_covers [OF placed able]
    by auto
  moreover have "waiters_kept list ws (pre @ fst ?res @ post) (snd ?res)"
  proof -
    have "waiters_kept list ws (pre @ (lock # ?mine) @ post) ws"
      using list(1) by (intro kept_same) auto
    also have "waiters_kept (pre @ (lock # ?mine) @ post) ws (pre @ fst ?res @ post) (snd ?res)"
      by (rule kept_frame) (rule placed_waiters [OF placed])
    finally show ?thesis .
  qed
  ultimately show ?thesis by (rule that)
qed

section \<open>Unlocking\<close>

text \<open>The unlock loop on the remaining list: the range of \<open>lock\<close> is carved out of its owner's locks.\<close>

fun carve :: "RangeLockItem \<Rightarrow> RangeLockItem list \<Rightarrow> WaitQueues \<Rightarrow> RangeLockItem list \<times> WaitQueues" where
  "carve lock [] ws = ([], ws)"
| "carve lock (e # list) ws =
     (if lk_owner e \<noteq> lk_owner lock \<or> lk_start lock \<ge> lk_end e \<or> lk_end lock \<le> lk_start e then
        let (list', ws') = carve lock list ws in (e # list', ws')
      else if lk_start lock \<le> lk_start e then
        if lk_end lock < lk_end e then
          (trim_start e (lk_end lock) # list, wq_wake_all (lk_waitqueue e) ws)
        else carve lock list (wq_wake_all (lk_waitqueue e) ws)
      else if lk_end lock < lk_end e then
        (trim_end e (lk_start lock) # trim_start e (lk_end lock) # list,
         wq_wake_all (lk_waitqueue e) (wq_wake_all (lk_waitqueue e) ws))
      else
        let (list', ws') = carve lock list (wq_wake_all (lk_waitqueue e) ws)
        in (trim_end e (lk_start lock) # list', ws'))"

lemma unlock_loop_skip:
  "lk_owner e \<noteq> lk_owner lock \<Longrightarrow>
    unlock_loop lock (ps @ e # list) (length ps) ws = unlock_loop lock (ps @ e # list) (Suc (length ps)) ws"
  by (subst (1 2) unlock_loop.simps, cases "position (\<lambda>lk. lk_owner lk = lk_owner lock) list") simp_all

lemma unlock_loop_carve:
  assumes "lk_start lock < lk_end lock" "\<forall>a \<in> set list. lk_start a < lk_end a"
  shows "unlock_loop lock (ps @ list) (length ps) ws =
     Return (ps @ fst (carve lock list ws), snd (carve lock list ws))"
  using assms(2)
proof (induction list arbitrary: ps ws)
  case Nil
  show ?case by (subst unlock_loop.simps) simp
next
  case (Cons e list)
  have nth [simp]: "(ps @ e # list) ! length ps = e" by simp
  have ins [simp]: "insert_at (Suc (length ps)) r (ps @ a # list) = Return (ps @ a # r # list)" for r a
    by (simp add: insert_at_def)
  have shift: "unlock_loop lock (ps @ m # list) (Suc (length ps)) ws =
      Return ((ps @ [m]) @ fst (carve lock list ws), snd (carve lock list ws))" for m ws
    using Cons.IH [of "ps @ [m]" ws] Cons.prems by simp
  have stay: "unlock_loop lock (ps @ list) (length ps) ws =
      Return (ps @ fst (carve lock list ws), snd (carve lock list ws))" for ws
    using Cons.IH [of ps ws] Cons.prems by simp
  show ?case
  proof (cases "lk_owner e = lk_owner lock")
    case False
    then show ?thesis by (simp add: unlock_loop_skip shift Let_def split: prod.splits)
  next
    case True
    then show ?thesis
      using Cons.prems assms(1)
      by (subst unlock_loop.simps)
        (auto simp: Let_def shift stay set_start_trim set_end_trim RangeLockItem_drop_def
          RangeLockItem_overlap_with_def FileRange_overlap_with_def split: prod.splits)
  qed
qed

inductive carved :: "RangeLockItem \<Rightarrow> RangeLockItem list \<Rightarrow> WaitQueues
    \<Rightarrow> RangeLockItem list \<Rightarrow> WaitQueues \<Rightarrow> bool" for lock where
  carved_end: "carved lock [] ws [] ws"
| carved_skip: "lk_start lock \<ge> lk_end e \<or> lk_end lock \<le> lk_start e \<Longrightarrow> carved lock list ws res ws'
    \<Longrightarrow> carved lock (e # list) ws (e # res) ws'"
| carved_left: "lk_start lock \<le> lk_start e \<Longrightarrow> lk_start e < lk_end lock \<Longrightarrow> lk_end lock < lk_end e
    \<Longrightarrow> carved lock (e # list) ws (trim_start e (lk_end lock) # list) (wq_wake_all (lk_waitqueue e) ws)"
| carved_cover: "lk_start lock \<le> lk_start e \<Longrightarrow> lk_end e \<le> lk_end lock
    \<Longrightarrow> carved lock list (wq_wake_all (lk_waitqueue e) ws) res ws' \<Longrightarrow> carved lock (e # list) ws res ws'"
| carved_middle: "lk_start e < lk_start lock \<Longrightarrow> lk_end lock < lk_end e
    \<Longrightarrow> carved lock (e # list) ws (trim_end e (lk_start lock) # trim_start e (lk_end lock) # list)
          (wq_wake_all (lk_waitqueue e) (wq_wake_all (lk_waitqueue e) ws))"
| carved_right: "lk_start e < lk_start lock \<Longrightarrow> lk_start lock < lk_end e \<Longrightarrow> lk_end e \<le> lk_end lock
    \<Longrightarrow> carved lock list (wq_wake_all (lk_waitqueue e) ws) res ws'
    \<Longrightarrow> carved lock (e # list) ws (trim_end e (lk_start lock) # res) ws'"

lemma carve_carved:
  "\<forall>a \<in> set mine. lk_owner a = lk_owner lock
    \<Longrightarrow> carved lock mine ws (fst (carve lock mine ws)) (snd (carve lock mine ws))"
proof (induction mine arbitrary: ws)
  case (Cons e list)
  have own: "lk_owner e = lk_owner lock" using Cons.prems by (meson list.set_intros(1))
  have rest: "\<forall>a \<in> set list. lk_owner a = lk_owner lock" using Cons.prems by (meson list.set_intros(2))
  note IH = Cons.IH [OF rest]
  show ?case
    using IH [of ws] IH [of "wq_wake_all (lk_waitqueue e) ws"] own
    by (simp add: Let_def split_beta not_le not_less
        carved_skip carved_left carved_cover carved_middle carved_right)
qed (simp add: carved_end)

lemma carve_before:
  "\<forall>a \<in> set pre. lk_owner a \<noteq> lk_owner lock
    \<Longrightarrow> carve lock (pre @ list) ws = (pre @ fst (carve lock list ws), snd (carve lock list ws))"
  by (induction pre) (auto simp: Let_def split_beta)

lemma carve_after:
  assumes "\<forall>a \<in> set post. lk_owner a \<noteq> lk_owner lock"
  shows "carve lock (mine @ post) ws = (fst (carve lock mine ws) @ post, snd (carve lock mine ws))"
proof (induction mine arbitrary: ws)
  case Nil
  show ?case using carve_before [OF assms, of "[]" ws] by simp
next
  case (Cons e mine)
  then show ?case by (simp add: Let_def split_beta)
qed

declare carve.simps [simp del]

lemma carved_origin:
  "carved lock mine ws res ws' \<Longrightarrow> list_all item_ok mine \<Longrightarrow> item_ok lock \<or> lk_start lock < lk_end lock
    \<Longrightarrow> y \<in> set res \<Longrightarrow> item_ok y
    \<and> (\<exists>x \<in> set mine. lk_owner x = lk_owner y \<and> lk_type x = lk_type y \<and> lk_start x \<le> lk_start y)"
  by (induction rule: carved.induct) (auto simp: item_ok_def list_all_iff)

lemma carved_sorted:
  "carved lock mine ws res ws' \<Longrightarrow> list_all item_ok mine \<Longrightarrow> lk_start lock < lk_end lock
    \<Longrightarrow> sorted_wrt before mine \<Longrightarrow> sorted_wrt before res"
proof (induction rule: carved.induct)
  case (carved_skip e list ws res ws')
  then have "\<forall>y \<in> set res. before e y"
    using carved_origin [of lock list ws res ws'] before_origin by fastforce
  then show ?case using carved_skip by simp
next
  case (carved_left e list ws)
  then show ?case by (auto simp: before_def)
next
  case (carved_middle e list ws)
  then show ?case by (auto simp: before_def)
next
  case (carved_right e list ws res ws')
  let ?e = "trim_end e (lk_start lock)"
  have "\<forall>x \<in> set list. before ?e x" using carved_right by (auto simp: before_def)
  then have "\<forall>y \<in> set res. before ?e y"
    using carved_origin [OF carved_right.hyps(4)] carved_right.prems before_origin by fastforce
  then show ?case using carved_right by simp
qed auto

lemma carved_covers:
  "carved lock mine ws res ws' \<Longrightarrow> sorted_wrt before mine \<Longrightarrow> list_all item_ok mine
    \<Longrightarrow> list_all (\<lambda>a. lk_owner a = lk_owner lock) mine \<Longrightarrow> lk_start lock < lk_end lock
    \<Longrightarrow> covers res ow x t \<longleftrightarrow> covers mine ow x t \<and> \<not> (ow = lk_owner lock \<and> x \<in> offsets (lk_range lock))"
proof (induction rule: carved.induct)
  case (carved_left e list ws)
  have "\<not> covers list ow x t" if "x < lk_end lock"
    using that carved_left.hyps(3) carved_left.prems(1) by (auto simp: covers_def before_def)
  then show ?case using carved_left.hyps carved_left.prems(3) by auto
next
  case (carved_middle e list ws)
  have "\<not> covers list ow x t" if "x < lk_end lock"
    using that carved_middle.hyps(2) carved_middle.prems(1) by (auto simp: covers_def before_def)
  then show ?case using carved_middle.hyps carved_middle.prems(3,4) by auto
qed auto

lemma carved_waiters: "carved lock mine ws res ws' \<Longrightarrow> waiters_kept mine ws res ws'"
proof (induction rule: carved.induct)
  case (carved_skip e list ws res ws')
  then show ?case by (blast intro: kept_add)
next
  case (carved_left e list ws)
  show ?case by (rule kept_wake) auto
next
  case (carved_cover e list ws res ws')
  have "waiters_kept (e # list) ws list (wq_wake_all (lk_waitqueue e) ws)"
    by (rule kept_wake) auto
  also note carved_cover.IH
  finally show ?case .
next
  case (carved_middle e list ws)
  let ?res = "trim_end e (lk_start lock) # trim_start e (lk_end lock) # list"
  have "waiters_kept (e # list) ws ?res (wq_wake_all (lk_waitqueue e) ws)"
    by (rule kept_wake) auto
  also have "waiters_kept ?res (wq_wake_all (lk_waitqueue e) ws) ?res
      (wq_wake_all (lk_waitqueue e) (wq_wake_all (lk_waitqueue e) ws))"
    by (rule kept_wake) auto
  finally show ?case .
next
  case (carved_right e list ws res ws')
  have "waiters_kept (e # list) ws list (wq_wake_all (lk_waitqueue e) ws)"
    by (rule kept_wake) auto
  also note carved_right.IH
  also have "waiters_kept res ws' (trim_end e (lk_start lock) # res) ws'" by (rule kept_same) auto
  finally show ?case .
qed (auto intro: kept_same)

lemma unlock_correct:
  assumes "list_ok (inner self)" "lk_start lock < lk_end lock"
  obtains self' where "RangeLockList_unlock self lock = Return self'" "list_ok (inner self')"
    "\<And>ow x t. covers (inner self') ow x t \<longleftrightarrow>
       covers (inner self) ow x t \<and> \<not> (ow = lk_owner lock \<and> x \<in> offsets (lk_range lock))"
    "waiters_kept (inner self) (waitqueues self) (inner self') (waitqueues self')"
proof -
  let ?res = "carve lock (inner self) (waitqueues self)"
  define self' where "self' = self\<lparr>inner := fst ?res, waitqueues := snd ?res\<rparr>"
  have run: "RangeLockList_unlock self lock = Return self'"
    using assms unlock_loop_carve [of lock "inner self" "[]" "waitqueues self"]
    by (simp add: RangeLockList_unlock_def self'_def list_ok_def item_ok_def list_all_iff split_beta)
  show ?thesis
  proof (cases "lk_owner lock \<in> lk_owner ` set (inner self)")
    case False
    then have "?res = (inner self, waitqueues self)"
      using carve_before [of "inner self" lock "[]" "waitqueues self"]
      by (simp add: not_owner_iff carve.simps)
    then show ?thesis using that [OF run] assms(1) False
      by (auto simp: self'_def intro: kept_same dest: covers_owner)
  next
    case True
    have "contiguous (inner self)" using assms(1) by (simp add: list_ok_def)
    from owner_split_exists [OF this True] obtain pre m mine post
      where list: "inner self = pre @ (m # mine) @ post" "owner_split (lk_owner lock) pre (m # mine) post" .
    let ?mine = "m # mine" and ?carved = "carve lock (m # mine) (waitqueues self)"
    have owners: "\<forall>a \<in> set ?mine. lk_owner a = lk_owner lock" "\<forall>a \<in> set pre. lk_owner a \<noteq> lk_owner lock"
      "\<forall>a \<in> set post. lk_owner a \<noteq> lk_owner lock"
      using list(2) unfolding owner_split_def not_owner_iff by blast+
    have ok: "list_ok pre" "list_ok post" "list_all item_ok ?mine" "sorted_wrt before ?mine"
      using assms(1) unfolding list(1) list_ok_split [OF list(2)] by simp_all
    note carved = carve_carved [OF owners(1), of "waitqueues self"]
    have own: "list_all (\<lambda>a. lk_owner a = lk_owner lock) ?mine"
      using owners(1) unfolding list_all_iff .
    have res: "?res = (pre @ fst ?carved @ post, snd ?carved)"
      unfolding list(1) carve_before [OF owners(2)] carve_after [OF owners(3)] by simp
    then have inner': "inner self' = pre @ fst ?carved @ post" "waitqueues self' = snd ?carved"
      by (simp_all add: self'_def)
    have origin: "item_ok y \<and> lk_owner y = lk_owner lock" if "y \<in> set (fst ?carved)" for y
      using carved_origin [OF carved ok(3) disjI2 [OF assms(2)] that] owners(1) by metis
    then have split: "owner_split (lk_owner lock) pre (fst ?carved) post"
      using list(2) by (simp add: owner_split_def)
    show ?thesis
    proof (rule that [OF run])
      show "list_ok (inner self')"
        using list_ok_split [OF split] ok origin carved_sorted [OF carved ok(3) assms(2) ok(4)]
        by (simp add: inner' list_all_iff)
      show "covers (inner self') ow x t \<longleftrightarrow>
          covers (inner self) ow x t \<and> \<not> (ow = lk_owner lock \<and> x \<in> offsets (lk_range lock))" for ow x t
        unfolding inner' list(1) covers_split [OF list(2)] covers_split [OF split]
          carved_covers [OF carved ok(4,3) own assms(2)] by simp
      show "waiters_kept (inner self) (waitqueues self) (inner self') (waitqueues self')"
        using kept_frame [OF carved_waiters [OF carved], of pre post] unfolding inner' list(1) .
    qed
  qed
qed

end
