(* ===== verification/File_Locks.thy ===== *)
theory File_Locks
  imports Range_Lock
begin

text \<open>
  The users of the range-lock list: the checks of an open file
  (\<open>kernel/core/src/fs/file/inode_handle.rs\<close>), the conversion between \<open>struct flock\<close> and file
  ranges (\<open>kernel/core/src/syscall/fcntl.rs\<close>), and the requests of concurrent threads on one inode
  as a step system. A thread whose request conflicts sleeps until its waker fires, then tries
  again; a signal can end the wait.
\<close>

section \<open>Setting a lock through an open file\<close>

record InodeHandle =
  ih_o_path :: bool
  ih_readable :: bool
  ih_writable :: bool

text \<open>
  One evaluation of the closure that \<open>set_lock\<close> gives to \<open>pause_until\<close>, or the single attempt of a
  non-blocking request. \<open>None\<close> means that the thread goes to sleep.
\<close>

definition RangeLockList_set_lock :: "RangeLockList \<Rightarrow> RangeLockItem \<Rightarrow> bool \<Rightarrow> waker
    \<Rightarrow> ((errno + unit) option \<times> RangeLockList) outcome" where
  "RangeLockList_set_lock self req_lock is_nonblocking waker =
     (if is_nonblocking then
        and_then (RangeLockList_try_set_lock self req_lock None) (\<lambda>(result, self).
        Return (Some result, self))
      else
        and_then (RangeLockList_try_set_lock self req_lock (Some waker)) (\<lambda>(result, self).
        Return (if result = Inl EAGAIN then None else Some result, self)))"

text \<open>The lock context of an inode is created by the first request that needs it.\<close>

definition lock_list_or_init :: "RangeLockList option \<Rightarrow> WaitQueues \<Rightarrow> RangeLockList" where
  "lock_list_or_init ctx ws = (case ctx of Some list \<Rightarrow> list | None \<Rightarrow> RangeLockList_new ws)"

definition InodeHandle_test_range_lock ::
  "InodeHandle \<Rightarrow> RangeLockList option \<Rightarrow> RangeLockItem \<Rightarrow> errno + RangeLockItem" where
  "InodeHandle_test_range_lock self ctx lock =
     (if ih_o_path self then Inl EBADF
      else case ctx of
        None \<Rightarrow> Inr (lock\<lparr>lk_type := Unlock\<rparr>)
      | Some list \<Rightarrow> Inr (RangeLockList_test_lock list lock))"

definition InodeHandle_unlock_range_lock ::
  "RangeLockList option \<Rightarrow> RangeLockItem \<Rightarrow> RangeLockList option outcome" where
  "InodeHandle_unlock_range_lock ctx lock =
     (case ctx of
        None \<Rightarrow> Return None
      | Some list \<Rightarrow> and_then (RangeLockList_unlock list lock) (\<lambda>list. Return (Some list)))"

definition InodeHandle_set_range_lock :: "InodeHandle \<Rightarrow> RangeLockList option \<Rightarrow> WaitQueues
    \<Rightarrow> RangeLockItem \<Rightarrow> bool \<Rightarrow> waker \<Rightarrow> ((errno + unit) option \<times> RangeLockList option) outcome" where
  "InodeHandle_set_range_lock self ctx ws lock is_nonblocking waker =
     (if (case lk_type lock of
            ReadLock \<Rightarrow> ih_o_path self \<or> \<not> ih_readable self
          | WriteLock \<Rightarrow> ih_o_path self \<or> \<not> ih_writable self
          | Unlock \<Rightarrow> ih_o_path self)
      then Return (Some (Inl EBADF), ctx)
      else if lk_type lock = Unlock then
        and_then (InodeHandle_unlock_range_lock ctx lock) (\<lambda>ctx. Return (Some (Inr ()), ctx))
      else
        and_then (RangeLockList_set_lock (lock_list_or_init ctx ws) lock is_nonblocking waker)
          (\<lambda>(result, list). Return (result, Some list)))"

definition InodeHandle_release_range_locks ::
  "RangeLockList option \<Rightarrow> nat \<Rightarrow> RangeLockList option" where
  "InodeHandle_release_range_locks ctx owner =
     (case ctx of None \<Rightarrow> None | Some list \<Rightarrow> Some (RangeLockList_unlock_all list owner))"

section \<open>The \<open>struct flock\<close> of the system call\<close>

abbreviation OFFSET_MAX :: nat where
  "OFFSET_MAX \<equiv> 2 ^ 63 - 1"

abbreviation i64_max :: int where
  "i64_max \<equiv> 2 ^ 63 - 1"

definition checked_add_i64 :: "int \<Rightarrow> int \<Rightarrow> int option" where
  "checked_add_i64 a b = (if - (2 ^ 63) \<le> a + b \<and> a + b \<le> i64_max then Some (a + b) else None)"

text \<open>The cast \<open>usize as off_t\<close>.\<close>

definition off_t_of_usize :: "nat \<Rightarrow> int" where
  "off_t_of_usize n = (if n < 2 ^ 63 then int n else int n - 2 ^ 64)"

record c_flock =
  l_type :: nat
  l_whence :: nat
  l_start :: int
  l_len :: int
  l_pid :: nat

definition RangeLockType_try_from :: "nat \<Rightarrow> errno + RangeLockType" where
  "RangeLockType_try_from n =
     (if n = 0 then Inr ReadLock else if n = 1 then Inr WriteLock else if n = 2 then Inr Unlock
      else Inl EINVAL)"

primrec lock_type_code :: "RangeLockType \<Rightarrow> nat" where
  "lock_type_code ReadLock = 0"
| "lock_type_code WriteLock = 1"
| "lock_type_code Unlock = 2"

definition copy_from_range_lock :: "c_flock \<Rightarrow> RangeLockItem \<Rightarrow> c_flock" where
  "copy_from_range_lock self lock =
     (let self = self\<lparr>l_type := lock_type_code (lk_type lock)\<rparr> in
      if lk_type lock \<noteq> Unlock then
        self\<lparr>l_whence := 0, l_start := off_t_of_usize (lk_start lock),
          l_len := (if lk_end lock = OFFSET_MAX then 0
                    else off_t_of_usize (FileRange_len (lk_range lock))),
          l_pid := lk_pid lock\<rparr>
      else self)"

text \<open>
  The offset and the size of the file are queried only for \<open>SEEK_CUR\<close> and \<open>SEEK_END\<close>, and the query
  can fail; \<open>unreachable!()\<close> is the last arm of the source's match on the sign of \<open>l_len\<close>.
\<close>

definition from_c_flock_and_file ::
  "c_flock \<Rightarrow> errno + nat \<Rightarrow> errno + nat \<Rightarrow> errno + FileRange" where
  "from_c_flock_and_file lock file_offset file_size =
     (let relative = (\<lambda>query. case query of
            Inl err \<Rightarrow> Inl err
          | Inr base \<Rightarrow>
              (case checked_add_i64 (off_t_of_usize base) (l_start lock) of
                 None \<Rightarrow> Inl EOVERFLOW
               | Some start \<Rightarrow> Inr start));
          start = (if l_whence lock = 0 then Inr (l_start lock)
            else if l_whence lock = 1 then relative file_offset
            else if l_whence lock = 2 then relative file_size
            else Inl EINVAL)
      in case start of
           Inl err \<Rightarrow> Inl err
         | Inr start \<Rightarrow>
             if start < 0 then Inl EINVAL
             else if l_len lock > 0 then
               (case checked_add_i64 start (l_len lock) of
                  None \<Rightarrow> Inl EOVERFLOW
                | Some e \<Rightarrow> FileRange_new (nat start) (nat e))
             else if l_len lock = 0 then FileRange_new (nat start) OFFSET_MAX
             else if start + l_len lock < 0 then Inl EINVAL
             else FileRange_new (nat (start + l_len lock)) (nat start))"

section \<open>Conflicts in terms of the locks held\<close>

definition conflicts_at :: "RangeLockItem list \<Rightarrow> RangeLockItem \<Rightarrow> nat \<Rightarrow> bool" where
  "conflicts_at list req x \<longleftrightarrow> x \<in> offsets (lk_range req)
     \<and> (\<exists>ow t. ow \<noteq> lk_owner req \<and> covers list ow x t \<and> (lk_type req = WriteLock \<or> t = WriteLock))"


lemma conflict_iff:
  assumes "item_ok req" "item_ok lock"
  shows "RangeLockItem_conflict_with req lock \<longleftrightarrow> (\<exists>x. conflicts_at [lock] req x)"
proof
  assume c: "RangeLockItem_conflict_with req lock"
  then have "FileRange_overlap_with (lk_range req) (lk_range lock) \<noteq> None"
    and other: "lk_owner lock \<noteq> lk_owner req" "lk_type req = WriteLock \<or> lk_type lock = WriteLock"
    by (auto simp: RangeLockItem_conflict_with_def RangeLockItem_overlap_with_def split: if_splits)
  moreover have "FileRange_valid (lk_range req)" "FileRange_valid (lk_range lock)"
    using assms by (auto simp: item_ok_def FileRange_valid_def)
  ultimately have "offsets (lk_range req) \<inter> offsets (lk_range lock) \<noteq> {}"
    using overlap_None_iff by simp
  then obtain x where "x \<in> offsets (lk_range req)" "x \<in> offsets (lk_range lock)"
    by (auto simp del: mem_offsets)
  then have "conflicts_at [lock] req x" using other by (simp add: conflicts_at_def)
  then show "\<exists>x. conflicts_at [lock] req x" ..
next
  assume "\<exists>x. conflicts_at [lock] req x"
  then obtain x where "conflicts_at [lock] req x" ..
  then show "RangeLockItem_conflict_with req lock"
    by (auto simp: conflicts_at_def RangeLockItem_conflict_with_def RangeLockItem_overlap_with_def
        FileRange_overlap_with_def)
qed

lemma conflicts_at_single:
  "conflicts_at list req x \<longleftrightarrow> (\<exists>lock \<in> set list. conflicts_at [lock] req x)"
  by (auto simp: conflicts_at_def covers_def)

lemma find_conflict_None_iff:
  assumes "list_ok list" "item_ok req"
  shows "find (RangeLockItem_conflict_with req) list = None \<longleftrightarrow> (\<forall>x. \<not> conflicts_at list req x)"
proof -
  have "RangeLockItem_conflict_with req lock \<longleftrightarrow> (\<exists>x. conflicts_at [lock] req x)"
    if "lock \<in> set list" for lock
    using that assms conflict_iff by (auto simp: list_ok_def list_all_iff)
  then show ?thesis using conflicts_at_single [of list req] by (auto simp: find_None_iff)
qed

lemma try_set_lock_correct:
  assumes "list_ok (inner self)" "item_ok req"
  shows "if (\<exists>x. conflicts_at (inner self) req x)
    then \<exists>lock. find (RangeLockItem_conflict_with req) (inner self) = Some lock
      \<and> RangeLockList_try_set_lock self req w = Return (Inl EAGAIN, case w of None \<Rightarrow> self
          | Some w \<Rightarrow> self\<lparr>waitqueues := wq_enqueue (lk_waitqueue lock) w (waitqueues self)\<rparr>)
    else \<exists>self'. RangeLockList_try_set_lock self req w = Return (Inr (), self') \<and> list_ok (inner self')
      \<and> (\<forall>ow x t. covers (inner self') ow x t \<longleftrightarrow>
            (if ow = lk_owner req \<and> x \<in> offsets (lk_range req) then t = lk_type req
             else covers (inner self) ow x t))
      \<and> waiters_kept (inner self) (waitqueues self) (inner self') (waitqueues self')"
proof (cases "find (RangeLockItem_conflict_with req) (inner self)")
  case None
  obtain list' ws' where "insert_lock_into_list (inner self) req (waitqueues self) = Return (list', ws')"
    "list_ok list'"
    "\<And>ow x t. covers list' ow x t \<longleftrightarrow> (if ow = lk_owner req \<and> x \<in> offsets (lk_range req)
       then t = lk_type req else covers (inner self) ow x t)"
    "waiters_kept (inner self) (waitqueues self) list' ws'"
    using insert_lock_correct [OF assms] by blast
  then show ?thesis using None find_conflict_None_iff [OF assms]
    by (simp add: RangeLockList_try_set_lock_def)
next
  case (Some lock)
  then show ?thesis using find_conflict_None_iff [OF assms]
    by (auto simp: RangeLockList_try_set_lock_def split: option.splits)
qed

lemma filter_list_ok:
  assumes "list_ok list"
  shows "list_ok (filter (\<lambda>lock. lk_owner lock \<noteq> ow) list)"
proof (cases "ow \<in> lk_owner ` set list")
  case False
  then have "filter (\<lambda>lock. lk_owner lock \<noteq> ow) list = list"
    by (simp add: not_owner_iff filter_id_conv)
  then show ?thesis using assms by simp
next
  case True
  have "contiguous list" using assms by (simp add: list_ok_def)
  from owner_split_exists [OF this True] obtain pre m mine post
    where list: "list = pre @ (m # mine) @ post" "owner_split ow pre (m # mine) post" .
  have "filter (\<lambda>lock. lk_owner lock \<noteq> ow) list = pre @ [] @ post"
    using list(2) unfolding list(1) owner_split_def not_owner_iff by (simp add: filter_id_conv)
  moreover have "owner_split ow pre [] post" using list(2) by (simp add: owner_split_def)
  ultimately show ?thesis
    using assms list_ok_split [OF list(2)] list_ok_split [of ow pre "[]" post] list(1) by simp
qed

lemma drops_keep_waiters:
  "waiters_kept (keep @ drops) ws keep (fold RangeLockItem_drop drops ws)"
proof (induction drops arbitrary: ws)
  case Nil
  have "waiters_kept keep ws keep ws" by (rule kept_same) auto
  then show ?case by simp
next
  case (Cons d drops)
  have "waiters_kept (keep @ d # drops) ws (keep @ drops) (RangeLockItem_drop d ws)"
    unfolding RangeLockItem_drop_def by (rule kept_wake) auto
  also note Cons.IH [of "RangeLockItem_drop d ws"]
  finally show ?case by simp
qed

lemma unlock_all_correct:
  fixes owner :: nat
  assumes "list_ok (inner self)"
  defines "self' \<equiv> RangeLockList_unlock_all self owner"
  shows "list_ok (inner self')"
    and "covers (inner self') ow x t \<longleftrightarrow> covers (inner self) ow x t \<and> ow \<noteq> owner"
    and "waiters_kept (inner self) (waitqueues self) (inner self') (waitqueues self')"
proof -
  show "list_ok (inner self')"
    using filter_list_ok [OF assms(1)] by (simp add: self'_def RangeLockList_unlock_all_def)
  show "covers (inner self') ow x t \<longleftrightarrow> covers (inner self) ow x t \<and> ow \<noteq> owner"
    by (auto simp: self'_def RangeLockList_unlock_all_def covers_def)
  show "waiters_kept (inner self) (waitqueues self) (inner self') (waitqueues self')"
    unfolding self'_def RangeLockList_unlock_all_def
    by simp (rule kept_perm [OF _ drops_keep_waiters], auto)
qed

section \<open>Concurrent requests on one inode\<close>

text \<open>
  The state of one inode: its lock list (once created), the wait queues, the requests that sleep
  in \<open>set_lock\<close>, by waker, and the request items that are still alive in a system call (dropping one
  wakes its queue, which the inserted clone of the item shares).
\<close>

record FileLocks =
  fl_list :: RangeLockList
  fl_blocked :: "waker \<rightharpoonup> RangeLockItem"
  fl_live :: "nat set"

definition FileLocks_init :: "FileLocks \<Rightarrow> bool" where
  "FileLocks_init s \<longleftrightarrow> inner (fl_list s) = [] \<and> fl_blocked s = Map.empty \<and> fl_live s = {}"

inductive FileLocks_step :: "FileLocks \<Rightarrow> FileLocks \<Rightarrow> bool" where
  request_done: "lk_start req < lk_end req \<Longrightarrow> fl_blocked s w = None
    \<Longrightarrow> InodeHandle_set_range_lock h (Some (fl_list s)) ws req nb w = Return (Some result, Some list')
    \<Longrightarrow> FileLocks_step s (s\<lparr>fl_list := list', fl_live := insert (lk_waitqueue req) (fl_live s)\<rparr>)"
| request_blocks: "lk_start req < lk_end req \<Longrightarrow> fl_blocked s w = None
    \<Longrightarrow> InodeHandle_set_range_lock h (Some (fl_list s)) ws req nb w = Return (None, Some list')
    \<Longrightarrow> FileLocks_step s (s\<lparr>fl_list := list', fl_blocked := (fl_blocked s)(w \<mapsto> req),
          fl_live := insert (lk_waitqueue req) (fl_live s)\<rparr>)"
| retry: "fl_blocked s w = Some req \<Longrightarrow> w \<in> woken (waitqueues (fl_list s))
    \<Longrightarrow> woke = (fl_list s)\<lparr>waitqueues := (waitqueues (fl_list s))
          \<lparr>woken := woken (waitqueues (fl_list s)) - {w}\<rparr>\<rparr>
    \<Longrightarrow> RangeLockList_set_lock woke req False w = Return (result, list')
    \<Longrightarrow> FileLocks_step s (s\<lparr>fl_list := list',
          fl_blocked := (if result = None then fl_blocked s else (fl_blocked s)(w := None))\<rparr>)"
| interrupt: "fl_blocked s w = Some req \<Longrightarrow> FileLocks_step s (s\<lparr>fl_blocked := (fl_blocked s)(w := None)\<rparr>)"
| drop_request: "q \<in> fl_live s
    \<Longrightarrow> FileLocks_step s (s\<lparr>fl_list := (fl_list s)\<lparr>waitqueues := wq_wake_all q (waitqueues (fl_list s))\<rparr>,
          fl_live := fl_live s - {q}\<rparr>)"
| close: "FileLocks_step s (s\<lparr>fl_list := RangeLockList_unlock_all (fl_list s) owner\<rparr>)"

definition exclusive :: "RangeLockItem list \<Rightarrow> bool" where
  "exclusive list \<longleftrightarrow> (\<forall>ow x ow' t. covers list ow x WriteLock \<longrightarrow> covers list ow' x t \<longrightarrow> ow' = ow)"

definition attended :: "RangeLockItem list \<Rightarrow> WaitQueues \<Rightarrow> waker \<Rightarrow> RangeLockItem \<Rightarrow> bool" where
  "attended list ws w req \<longleftrightarrow> w \<in> woken ws
     \<or> (\<exists>lock \<in> set list. w \<in> set (queue_of ws (lk_waitqueue lock)) \<and> RangeLockItem_conflict_with req lock)"

definition FileLocks_inv :: "FileLocks \<Rightarrow> bool" where
  "FileLocks_inv s \<longleftrightarrow> list_ok (inner (fl_list s)) \<and> exclusive (inner (fl_list s))
     \<and> (\<forall>w req. fl_blocked s w = Some req \<longrightarrow> item_ok req
          \<and> attended (inner (fl_list s)) (waitqueues (fl_list s)) w req)"

lemma conflict_extends:
  "RangeLockItem_conflict_with req a \<Longrightarrow> extends b a \<Longrightarrow> RangeLockItem_conflict_with req b"
  by (auto simp: RangeLockItem_conflict_with_def RangeLockItem_overlap_with_def extends_def
      FileRange_overlap_with_def split: if_splits)

lemma attended_kept:
  assumes "attended list ws w req" "waiters_kept list ws list' ws'"
  shows "attended list' ws' w req"
proof (cases "w \<in> woken ws")
  case True
  then show ?thesis using assms(2) by (auto simp: attended_def waiters_kept_def)
next
  case False
  then obtain a where a: "a \<in> set list" "w \<in> set (queue_of ws (lk_waitqueue a))"
    "RangeLockItem_conflict_with req a" using assms(1) by (auto simp: attended_def)
  then have "w \<in> woken ws' \<or> w \<in> set (queue_of ws' (lk_waitqueue a)) \<and> (\<exists>b \<in> set list'. extends b a)"
    using assms(2) by (auto simp: waiters_kept_def)
  then show ?thesis
  proof (elim disjE conjE bexE)
    fix b assume b: "w \<in> set (queue_of ws' (lk_waitqueue a))" "b \<in> set list'" "extends b a"
    then have "w \<in> set (queue_of ws' (lk_waitqueue b))" by (simp add: extends_def)
    then show ?thesis using conflict_extends [OF a(3) b(3)] b(2) by (auto simp: attended_def)
  qed (simp add: attended_def)
qed

lemma attended_enqueue: "attended list ws w' req \<Longrightarrow> attended list (wq_enqueue q w ws) w' req"
  by (auto simp: attended_def wq_enqueue_def)

lemma exclusive_update:
  assumes "exclusive list" "item_ok req" "\<forall>x. \<not> conflicts_at list req x"
    and "\<forall>ow x t. covers list' ow x t \<longleftrightarrow>
      (if ow = lk_owner req \<and> x \<in> offsets (lk_range req) then t = lk_type req else covers list ow x t)"
  shows "exclusive list'"
  unfolding exclusive_def
proof (intro allI impI)
  fix ow x ow' t assume c: "covers list' ow x WriteLock" "covers list' ow' x t"
  show "ow' = ow"
  proof (cases "x \<in> offsets (lk_range req)")
    case False
    then show ?thesis using c assms(1,4) by (auto simp: exclusive_def simp del: mem_offsets)
  next
    case True
    then have free: "\<not> (covers list o2 x t2 \<and> o2 \<noteq> lk_owner req \<and> (lk_type req = WriteLock \<or> t2 = WriteLock))"
      for o2 t2 using assms(3) unfolding conflicts_at_def by blast
    have "covers list' o2 x t2 \<longleftrightarrow> (if o2 = lk_owner req then t2 = lk_type req else covers list o2 x t2)"
      for o2 t2 using assms(4) True by simp
    then show ?thesis using c free [of ow WriteLock] free [of ow' t]
      by (cases "ow = lk_owner req"; cases "ow' = lk_owner req") auto
  qed
qed


text \<open>What one attempt of a request, a retry or an unlock does to the list and to the waiters.\<close>

lemma set_lock_step:
  assumes "RangeLockList_set_lock self req nb w = Return (result, self')"
    and "list_ok (inner self)" "exclusive (inner self)" "item_ok req"
  shows "list_ok (inner self') \<and> exclusive (inner self')
    \<and> (\<forall>v r. attended (inner self) (waitqueues self) v r \<longrightarrow> attended (inner self') (waitqueues self') v r)
    \<and> (result = None \<longrightarrow> attended (inner self') (waitqueues self') w req)"
proof (cases "\<exists>x. conflicts_at (inner self) req x")
  case False
  note ok = try_set_lock_correct [OF assms(2,4), of "if nb then None else Some w"]
  then obtain s' where s': "RangeLockList_try_set_lock self req (if nb then None else Some w) = Return (Inr (), s')"
    "list_ok (inner s')" "\<forall>ow x t. covers (inner s') ow x t \<longleftrightarrow>
       (if ow = lk_owner req \<and> x \<in> offsets (lk_range req) then t = lk_type req else covers (inner self) ow x t)"
    "waiters_kept (inner self) (waitqueues self) (inner s') (waitqueues s')"
    using False by auto
  then have "self' = s'" "result = Some (Inr ())"
    using assms(1) by (auto simp: RangeLockList_set_lock_def split: if_splits)
  then show ?thesis
    using s' exclusive_update [OF assms(3,4)] False attended_kept by blast
next
  case True
  then obtain lock where lock: "find (RangeLockItem_conflict_with req) (inner self) = Some lock"
    and run: "RangeLockList_try_set_lock self req (if nb then None else Some w) = Return (Inl EAGAIN,
      case (if nb then None else Some w) of None \<Rightarrow> self
        | Some w \<Rightarrow> self\<lparr>waitqueues := wq_enqueue (lk_waitqueue lock) w (waitqueues self)\<rparr>)"
    using try_set_lock_correct [OF assms(2,4), of "if nb then None else Some w"] by auto
  have "lock \<in> set (inner self)" "RangeLockItem_conflict_with req lock"
    using lock by (auto simp: find_Some_iff)
  then have "attended (inner self) (wq_enqueue (lk_waitqueue lock) w (waitqueues self)) w req"
    by (auto simp: attended_def wq_enqueue_def)
  then show ?thesis
    using run assms(1-3) by (auto simp: RangeLockList_set_lock_def attended_enqueue split: if_splits)
qed

lemma exclusive_subset:
  "exclusive list \<Longrightarrow> (\<And>ow x t. covers list' ow x t \<Longrightarrow> covers list ow x t) \<Longrightarrow> exclusive list'"
  unfolding exclusive_def by blast

lemma unlock_step:
  assumes "RangeLockList_unlock self req = Return self'"
    and "list_ok (inner self)" "exclusive (inner self)" "lk_start req < lk_end req"
  shows "list_ok (inner self') \<and> exclusive (inner self')
    \<and> (\<forall>v r. attended (inner self) (waitqueues self) v r \<longrightarrow> attended (inner self') (waitqueues self') v r)"
proof -
  obtain s' where s': "RangeLockList_unlock self req = Return s'" "list_ok (inner s')"
    "\<And>ow x t. covers (inner s') ow x t \<longleftrightarrow>
       covers (inner self) ow x t \<and> \<not> (ow = lk_owner req \<and> x \<in> offsets (lk_range req))"
    "waiters_kept (inner self) (waitqueues self) (inner s') (waitqueues s')"
    using unlock_correct [OF assms(2,4)] by metis
  have "self' = s'" using assms(1) s'(1) by simp
  moreover have "exclusive (inner s')"
    using s'(3) by (intro exclusive_subset [OF assms(3), of "inner s'"]) blast
  ultimately show ?thesis using s'(2) attended_kept [OF _ s'(4)] by blast
qed

lemma unlock_all_step:
  fixes owner :: nat
  assumes "list_ok (inner self)" "exclusive (inner self)"
  defines "self' \<equiv> RangeLockList_unlock_all self owner"
  shows "list_ok (inner self') \<and> exclusive (inner self')
    \<and> (\<forall>v r. attended (inner self) (waitqueues self) v r \<longrightarrow> attended (inner self') (waitqueues self') v r)"
proof (intro conjI allI impI)
  show "list_ok (inner self')" unfolding self'_def by (rule unlock_all_correct(1) [OF assms(1)])
  show "exclusive (inner self')"
    by (rule exclusive_subset [OF assms(2)]) (simp add: self'_def unlock_all_correct(2) [OF assms(1)])
  show "attended (inner self') (waitqueues self') v r"
    if "attended (inner self) (waitqueues self) v r" for v r
    using that unlock_all_correct(3) [OF assms(1)] unfolding self'_def by (rule attended_kept)
qed

lemma set_range_lock_step:
  assumes run: "InodeHandle_set_range_lock h (Some self) ws req nb w = Return (result, Some self')"
    and inv: "list_ok (inner self)" "exclusive (inner self)" and req: "lk_start req < lk_end req"
  shows "list_ok (inner self') \<and> exclusive (inner self')
    \<and> (\<forall>v r. attended (inner self) (waitqueues self) v r \<longrightarrow> attended (inner self') (waitqueues self') v r)
    \<and> (result = None \<longrightarrow> item_ok req \<and> attended (inner self') (waitqueues self') w req)"
proof -
  consider (refused) "result = Some (Inl EBADF)" "self' = self"
    | (unlock) "result = Some (Inr ())" "RangeLockList_unlock self req = Return self'"
    | (set_lock) "item_ok req" "RangeLockList_set_lock self req nb w = Return (result, self')"
    using run req by (auto simp: InodeHandle_set_range_lock_def InodeHandle_unlock_range_lock_def
        lock_list_or_init_def item_ok_def split: if_splits)
  then show ?thesis
  proof cases
    case refused
    then show ?thesis using inv by simp
  next
    case unlock
    then show ?thesis using unlock_step [OF unlock(2) inv req] by simp
  next
    case set_lock
    then show ?thesis using set_lock_step [OF set_lock(2) inv set_lock(1)] by simp
  qed
qed

lemma FileLocks_inv_step:
  assumes "FileLocks_inv s" "FileLocks_step s t"
  shows "FileLocks_inv t"
proof -
  have inv: "list_ok (inner (fl_list s))" "exclusive (inner (fl_list s))"
    and blocked: "\<And>v r. fl_blocked s v = Some r
      \<Longrightarrow> item_ok r \<and> attended (inner (fl_list s)) (waitqueues (fl_list s)) v r"
    using assms(1) by (auto simp: FileLocks_inv_def)
  from assms(2) show ?thesis
  proof cases
    case (request_done req w h ws nb result list')
    then show ?thesis using set_range_lock_step [OF request_done(4) inv request_done(2)] blocked
      by (auto simp: FileLocks_inv_def)
  next
    case (request_blocks req w h ws nb list')
    then show ?thesis using set_range_lock_step [OF request_blocks(4) inv request_blocks(2)] blocked
      by (auto simp: FileLocks_inv_def)
  next
    case (retry w req woke result list')
    have same: "inner woke = inner (fl_list s)" using retry(4) by simp
    have others: "attended (inner woke) (waitqueues woke) v r" if "fl_blocked s v = Some r" "v \<noteq> w" for v r
      using blocked [OF that(1)] that(2) retry(4) by (auto simp: attended_def)
    have "item_ok req" using blocked [OF retry(2)] by simp
    note step = set_lock_step [OF retry(5) inv [folded same] this]
    show ?thesis unfolding FileLocks_inv_def retry(1)
    proof (intro conjI allI impI)
      fix v r assume v: "fl_blocked (s\<lparr>fl_list := list', fl_blocked :=
        (if result = None then fl_blocked s else (fl_blocked s)(w := None))\<rparr>) v = Some r"
      then have s: "fl_blocked s v = Some r" by (auto split: if_splits)
      then show "item_ok r" using blocked by blast
      show "attended (inner (fl_list (s\<lparr>fl_list := list', fl_blocked :=
          (if result = None then fl_blocked s else (fl_blocked s)(w := None))\<rparr>)))
        (waitqueues (fl_list (s\<lparr>fl_list := list', fl_blocked :=
          (if result = None then fl_blocked s else (fl_blocked s)(w := None))\<rparr>))) v r"
        using v s step others retry(2) by (cases "v = w") (auto split: if_splits)
    qed (use step in auto)
  next
    case (interrupt w req)
    then show ?thesis using inv blocked by (auto simp: FileLocks_inv_def)
  next
    case (drop_request q)
    have "waiters_kept (inner (fl_list s)) (waitqueues (fl_list s)) (inner (fl_list s))
        (wq_wake_all q (waitqueues (fl_list s)))" by (rule kept_wake) auto
    from attended_kept [OF _ this] show ?thesis
      using drop_request inv blocked by (auto simp: FileLocks_inv_def)
  next
    case (close owner)
    then show ?thesis using unlock_all_step [OF inv, of owner] blocked by (auto simp: FileLocks_inv_def)
  qed
qed

interpretation file_locks: step_system FileLocks_init FileLocks_step FileLocks_inv
proof
  show "FileLocks_inv s" if "FileLocks_init s" for s
    using that by (simp add: FileLocks_init_def FileLocks_inv_def list_ok_def exclusive_def)
qed (rule FileLocks_inv_step)


section \<open>Properties\<close>

text \<open>
  C7. Setting a lock refines the update of the map from owners and offsets to lock types: on a
  well-formed list a request either meets an offset where another owner's lock is incompatible,
  and then it is refused with \<open>EAGAIN\<close> and the list is unchanged, or it succeeds, and afterwards
  its owner holds exactly the requested type on the requested range and every other lock is as
  before. The list is well-formed again, and no branch panics.
\<close>

theorem try_set_lock_refines:
  assumes "list_ok (inner self)" "item_ok req"
  shows "if (\<exists>x. conflicts_at (inner self) req x)
    then \<exists>self'. RangeLockList_try_set_lock self req w = Return (Inl EAGAIN, self')
      \<and> inner self' = inner self
    else \<exists>self'. RangeLockList_try_set_lock self req w = Return (Inr (), self') \<and> list_ok (inner self')
      \<and> (\<forall>ow x t. covers (inner self') ow x t \<longleftrightarrow>
            (if ow = lk_owner req \<and> x \<in> offsets (lk_range req) then t = lk_type req
             else covers (inner self) ow x t))"
  using try_set_lock_correct [OF assms, of w] by (auto split: if_splits option.splits)

text \<open>
  C21. Unlocking removes exactly the requested range from the owner's locks, for every shape of
  overlap, keeps the list well-formed and never panics.
\<close>

theorem unlock_refines:
  assumes "list_ok (inner self)" "lk_start lock < lk_end lock"
  shows "\<exists>self'. RangeLockList_unlock self lock = Return self' \<and> list_ok (inner self')
    \<and> (\<forall>ow x t. covers (inner self') ow x t \<longleftrightarrow>
          covers (inner self) ow x t \<and> \<not> (ow = lk_owner lock \<and> x \<in> offsets (lk_range lock)))"
  using unlock_correct [OF assms] by metis

text \<open>
  C2. In every state that concurrent requests, retries, interruptions and closes can reach, a
  write lock excludes every lock of other owners at each of its offsets.
\<close>

theorem write_locks_exclude:
  assumes "reachable_from FileLocks_init FileLocks_step s"
    and "covers (inner (fl_list s)) ow x WriteLock" "covers (inner (fl_list s)) ow' x t"
  shows "ow' = ow"
  using file_locks.reachable_invar [OF assms(1)] assms(2,3)
  unfolding FileLocks_inv_def exclusive_def by blast

text \<open>
  C16. No wake-up is lost: in every reachable state, a sleeping request that no longer conflicts
  with any lock of the list has been woken.
\<close>

theorem no_lost_wakeup:
  assumes "reachable_from FileLocks_init FileLocks_step s"
    and "fl_blocked s w = Some req" "\<forall>x. \<not> conflicts_at (inner (fl_list s)) req x"
  shows "w \<in> woken (waitqueues (fl_list s))"
proof -
  have ok: "list_ok (inner (fl_list s))" "item_ok req"
    and att: "attended (inner (fl_list s)) (waitqueues (fl_list s)) w req"
    using file_locks.reachable_invar [OF assms(1)] assms(2) by (auto simp: FileLocks_inv_def)
  have "find (RangeLockItem_conflict_with req) (inner (fl_list s)) = None"
    using find_conflict_None_iff [OF ok] assms(3) by simp
  then show ?thesis using att by (auto simp: attended_def find_None_iff)
qed

text \<open>
  C31. \<open>F_GETLK\<close> tells the truth: on a well-formed list \<open>test_lock\<close> answers \<open>Unlock\<close> exactly when the
  same request would be granted, and otherwise reports the owner, type and range of a lock of the
  list that conflicts with it.
\<close>

theorem test_lock_agrees:
  assumes "list_ok (inner self)" "item_ok req"
  shows "(lk_type (RangeLockList_test_lock self req) = Unlock \<longleftrightarrow>
      (\<exists>self'. RangeLockList_try_set_lock self req None = Return (Inr (), self')))
    \<and> (lk_type (RangeLockList_test_lock self req) \<noteq> Unlock \<longrightarrow>
      (\<exists>lock \<in> set (inner self). RangeLockItem_conflict_with req lock
        \<and> lk_owner (RangeLockList_test_lock self req) = lk_owner lock
        \<and> lk_type (RangeLockList_test_lock self req) = lk_type lock
        \<and> lk_range (RangeLockList_test_lock self req) = lk_range lock))"
proof (cases "find (RangeLockItem_conflict_with req) (inner self)")
  case None
  then show ?thesis
    using try_set_lock_correct [OF assms, of None] find_conflict_None_iff [OF assms]
    by (auto simp: RangeLockList_test_lock_def)
next
  case (Some lock)
  then have "lock \<in> set (inner self)" "RangeLockItem_conflict_with req lock"
    by (auto simp: find_Some_iff)
  then show ?thesis using Some assms(1)
    by (auto simp: RangeLockList_test_lock_def RangeLockList_try_set_lock_def list_ok_def
        list_all_iff item_ok_def)
qed

text \<open>
  C32. A range reported to user space through \<open>struct flock\<close> reads back as the same range: decoding
  the \<open>SEEK_SET\<close> description that \<open>copy_from_range_lock\<close> writes gives the lock's range, including
  the encoding of ``until the end of the file'' as length 0.
\<close>

theorem flock_round_trip:
  assumes "lk_start lock < lk_end lock" "lk_end lock \<le> OFFSET_MAX" "lk_type lock \<noteq> Unlock"
  shows "from_c_flock_and_file (copy_from_range_lock fl lock) off sz = Inr (lk_range lock)"
  using assms
  by (auto simp: from_c_flock_and_file_def copy_from_range_lock_def off_t_of_usize_def
      checked_add_i64_def FileRange_new_def FileRange_len_def Let_def)

text \<open>
  C33. Every range accepted from user space is non-empty and ends at or below \<open>OFFSET_MAX\<close>, whatever
  the three 64-bit fields, the file offset and the file size are.
\<close>

theorem flock_ranges_bounded:
  assumes "from_c_flock_and_file fl off sz = Inr r" "l_start fl \<le> i64_max"
  shows "fr_start r < fr_end r \<and> fr_end r \<le> OFFSET_MAX"
  using assms
  by (auto simp: from_c_flock_and_file_def FileRange_new_def checked_add_i64_def Let_def
      split: if_splits option.splits sum.splits)


section \<open>The properties at concrete states\<close>

text \<open>
  Owner 1 holds a write lock on [0, 10). Owner 2 asks for a read lock on [5, 20) and sleeps as waker
  7; then owner 1 closes the file.
\<close>

definition sample_lock :: "nat \<Rightarrow> RangeLockType \<Rightarrow> nat \<Rightarrow> nat \<Rightarrow> RangeLockItem" where
  "sample_lock ow ty s e = RangeLockItem_new ow (100 + ow) ty \<lparr>fr_start = s, fr_end = e\<rparr> ow"

definition sample_handle :: InodeHandle where
  "sample_handle = \<lparr>ih_o_path = False, ih_readable = True, ih_writable = True\<rparr>"

definition quiet :: WaitQueues where
  "quiet = \<lparr>queue_of = (\<lambda>_. []), woken = {}\<rparr>"

definition sample_held :: FileLocks where
  "sample_held = \<lparr>fl_list = \<lparr>inner = [sample_lock 1 WriteLock 0 10], waitqueues = quiet\<rparr>,
     fl_blocked = Map.empty, fl_live = {1}\<rparr>"

definition sample_waiting :: FileLocks where
  "sample_waiting = \<lparr>fl_list = \<lparr>inner = [sample_lock 1 WriteLock 0 10], waitqueues = wq_enqueue 1 7 quiet\<rparr>,
     fl_blocked = Map.empty(7 \<mapsto> sample_lock 2 ReadLock 5 20), fl_live = {1, 2}\<rparr>"

definition sample_closed :: FileLocks where
  "sample_closed = sample_waiting\<lparr>fl_list := RangeLockList_unlock_all (fl_list sample_waiting) 1\<rparr>"

lemmas sample_defs = sample_lock_def RangeLockItem_new_def sample_handle_def quiet_def

lemmas range_lock_ops = InodeHandle_set_range_lock_def lock_list_or_init_def RangeLockList_set_lock_def
  RangeLockList_try_set_lock_def RangeLockItem_conflict_with_def RangeLockItem_overlap_with_def
  FileRange_overlap_with_def insert_lock_into_list_def

lemma sample_held_reachable: "reachable_from FileLocks_init FileLocks_step sample_held"
proof (rule reachable_from.reach_step)
  let ?s = "\<lparr>fl_list = RangeLockList_new quiet, fl_blocked = Map.empty, fl_live = {}\<rparr>"
  show "reachable_from FileLocks_init FileLocks_step ?s"
    by (rule reachable_from.reach_init) (simp add: FileLocks_init_def RangeLockList_new_def)
  have "FileLocks_step ?s (?s\<lparr>fl_list := \<lparr>inner = [sample_lock 1 WriteLock 0 10], waitqueues = quiet\<rparr>,
      fl_live := insert (lk_waitqueue (sample_lock 1 WriteLock 0 10)) (fl_live ?s)\<rparr>)"
    by (rule FileLocks_step.request_done [where h = sample_handle and nb = True and w = 7 and ws = quiet
          and result = "Inr ()"])
      (simp_all add: range_lock_ops sample_defs RangeLockList_new_def)
  then show "FileLocks_step ?s sample_held" by (simp add: sample_held_def sample_defs)
qed

lemma sample_closed_reachable: "reachable_from FileLocks_init FileLocks_step sample_closed"
proof (rule reachable_from.reach_step)
  have "FileLocks_step sample_held (sample_held\<lparr>
      fl_list := \<lparr>inner = [sample_lock 1 WriteLock 0 10], waitqueues = wq_enqueue 1 7 quiet\<rparr>,
      fl_blocked := (fl_blocked sample_held)(7 \<mapsto> sample_lock 2 ReadLock 5 20),
      fl_live := insert (lk_waitqueue (sample_lock 2 ReadLock 5 20)) (fl_live sample_held)\<rparr>)"
    by (rule FileLocks_step.request_blocks [where h = sample_handle and nb = False and ws = quiet])
      (simp_all add: range_lock_ops sample_defs sample_held_def)
  then have "FileLocks_step sample_held sample_waiting"
    by (simp add: sample_held_def sample_waiting_def sample_defs insert_commute)
  with sample_held_reachable show "reachable_from FileLocks_init FileLocks_step sample_waiting"
    by (rule reachable_from.reach_step)
  show "FileLocks_step sample_waiting sample_closed"
    unfolding sample_closed_def by (rule FileLocks_step.close)
qed

lemma try_set_lock_refines_witness:
  "\<exists>self'. RangeLockList_try_set_lock (fl_list sample_held) (sample_lock 1 ReadLock 3 5) None = Return (Inr (), self')
    \<and> list_ok (inner self') \<and> covers (inner self') 1 4 ReadLock \<and> covers (inner self') 1 5 WriteLock"
proof -
  let ?req = "sample_lock 1 ReadLock 3 5"
  have ok: "list_ok (inner (fl_list sample_held))" "item_ok ?req"
    "\<not> (\<exists>x. conflicts_at (inner (fl_list sample_held)) ?req x)"
    by (auto simp: sample_held_def sample_defs list_ok_def item_ok_def conflicts_at_def)
  show ?thesis
    using try_set_lock_refines [OF ok(1,2), of None] ok(3)
    by (auto simp: sample_held_def sample_defs)
qed

lemma unlock_refines_witness:
  "\<exists>self'. RangeLockList_unlock (fl_list sample_held) (sample_lock 1 Unlock 3 5) = Return self'
    \<and> \<not> covers (inner self') 1 4 WriteLock \<and> covers (inner self') 1 5 WriteLock"
proof -
  have "list_ok (inner (fl_list sample_held))" "lk_start (sample_lock 1 Unlock 3 5) < lk_end (sample_lock 1 Unlock 3 5)"
    by (simp_all add: sample_held_def sample_defs list_ok_def item_ok_def)
  from unlock_refines [OF this] show ?thesis by (auto simp: sample_held_def sample_defs)
qed

lemma write_locks_exclude_witness: "\<not> covers (inner (fl_list sample_held)) 2 4 ReadLock"
proof
  assume "covers (inner (fl_list sample_held)) 2 4 ReadLock"
  moreover have "covers (inner (fl_list sample_held)) 1 4 WriteLock"
    by (simp add: sample_held_def sample_defs)
  ultimately have "(2 :: nat) = 1" using write_locks_exclude [OF sample_held_reachable] by blast
  then show False by simp
qed

lemma no_lost_wakeup_witness:
  "fl_blocked sample_closed 7 = Some (sample_lock 2 ReadLock 5 20)
    \<and> 7 \<in> woken (waitqueues (fl_list sample_closed))"
proof
  show blocked: "fl_blocked sample_closed 7 = Some (sample_lock 2 ReadLock 5 20)"
    by (simp add: sample_closed_def sample_waiting_def)
  show "7 \<in> woken (waitqueues (fl_list sample_closed))"
    by (rule no_lost_wakeup [OF sample_closed_reachable blocked])
      (simp add: conflicts_at_def sample_closed_def sample_waiting_def RangeLockList_unlock_all_def sample_defs)
qed

lemma test_lock_agrees_witness:
  "lk_owner (RangeLockList_test_lock (fl_list sample_held) (sample_lock 2 ReadLock 5 20)) = 1"
proof -
  have "list_ok (inner (fl_list sample_held))" "item_ok (sample_lock 2 ReadLock 5 20)"
    by (simp_all add: sample_held_def sample_defs list_ok_def item_ok_def)
  moreover have "lk_type (RangeLockList_test_lock (fl_list sample_held) (sample_lock 2 ReadLock 5 20)) \<noteq> Unlock"
    by (simp add: RangeLockList_test_lock_def range_lock_ops sample_held_def sample_defs)
  ultimately show ?thesis
    using test_lock_agrees [of "fl_list sample_held" "sample_lock 2 ReadLock 5 20"]
    by (auto simp: sample_held_def sample_defs)
qed

lemma flock_round_trip_witness:
  "from_c_flock_and_file (copy_from_range_lock \<lparr>l_type = 2, l_whence = 1, l_start = -3, l_len = 8, l_pid = 0\<rparr>
      (sample_lock 1 WriteLock 5 OFFSET_MAX)) (Inl EINVAL) (Inr 0) = Inr \<lparr>fr_start = 5, fr_end = OFFSET_MAX\<rparr>"
  using flock_round_trip [of "sample_lock 1 WriteLock 5 OFFSET_MAX"] by (simp add: sample_defs)

lemma flock_ranges_bounded_witness:
  "\<exists>r. from_c_flock_and_file \<lparr>l_type = 0, l_whence = 1, l_start = 2, l_len = -4, l_pid = 0\<rparr> (Inr 6) (Inr 0) = Inr r
    \<and> fr_start r < fr_end r \<and> fr_end r \<le> OFFSET_MAX"
proof -
  have "from_c_flock_and_file \<lparr>l_type = 0, l_whence = 1, l_start = 2, l_len = -4, l_pid = 0\<rparr> (Inr 6) (Inr 0)
      = Inr \<lparr>fr_start = 4, fr_end = 8\<rparr>"
    by (simp add: from_c_flock_and_file_def checked_add_i64_def off_t_of_usize_def FileRange_new_def)
  with flock_ranges_bounded [OF this] show ?thesis by simp
qed

end
