(* ===== verification/Cap_Set.thy ===== *)
theory Cap_Set
  imports Kernel_Prelude "HOL-Library.Word"
begin

text \<open>
  Linux capability sets and secure bits: \<open>capabilities.rs\<close> and \<open>secure_bits.rs\<close> under
  \<open>kernel/core/src/process/credentials/\<close>. A \<open>bitflags\<close> type is the word of its bits; its operators
  are the bitwise ones, truncated to the defined flags where the \<open>bitflags\<close> crate truncates.
\<close>

unbundle bit_operations_syntax

section \<open>Capability sets\<close>

type_synonym CapSet = "64 word"

definition CapSet_bit :: "nat \<Rightarrow> CapSet" where
  "CapSet_bit n = push_bit n 1"

abbreviation CAP_CHOWN :: CapSet where "CAP_CHOWN \<equiv> CapSet_bit 0"
abbreviation CAP_DAC_OVERRIDE :: CapSet where "CAP_DAC_OVERRIDE \<equiv> CapSet_bit 1"
abbreviation CAP_DAC_READ_SEARCH :: CapSet where "CAP_DAC_READ_SEARCH \<equiv> CapSet_bit 2"
abbreviation CAP_FOWNER :: CapSet where "CAP_FOWNER \<equiv> CapSet_bit 3"
abbreviation CAP_FSETID :: CapSet where "CAP_FSETID \<equiv> CapSet_bit 4"
abbreviation CAP_SETGID :: CapSet where "CAP_SETGID \<equiv> CapSet_bit 6"
abbreviation CAP_SETUID :: CapSet where "CAP_SETUID \<equiv> CapSet_bit 7"
abbreviation CAP_SETPCAP :: CapSet where "CAP_SETPCAP \<equiv> CapSet_bit 8"
abbreviation CAP_LINUX_IMMUTABLE :: CapSet where "CAP_LINUX_IMMUTABLE \<equiv> CapSet_bit 9"
abbreviation CAP_MKNOD :: CapSet where "CAP_MKNOD \<equiv> CapSet_bit 27"
abbreviation CAP_MAC_OVERRIDE :: CapSet where "CAP_MAC_OVERRIDE \<equiv> CapSet_bit 32"

definition most_significant_bit :: nat where
  "most_significant_bit = 40"

text \<open>\<open>CapSet::all()\<close>: the flags 0 to 40 (\<open>CHECKPOINT_RESTORE\<close>) are all defined.\<close>

definition CapSet_all :: CapSet where
  "CapSet_all = mask (Suc most_significant_bit)"

definition cap_contains :: "CapSet \<Rightarrow> CapSet \<Rightarrow> bool" where
  "cap_contains self other \<longleftrightarrow> self AND other = other"

definition cap_minus :: "CapSet \<Rightarrow> CapSet \<Rightarrow> CapSet" where
  "cap_minus self other = self AND NOT other"

definition cap_not :: "CapSet \<Rightarrow> CapSet" where
  "cap_not self = NOT self AND CapSet_all"

definition CapSet_from_lo_hi :: "32 word \<Rightarrow> 32 word \<Rightarrow> CapSet" where
  "CapSet_from_lo_hi lo hi = (ucast lo OR push_bit 32 (ucast hi)) AND CapSet_all"

definition CapSet_to_lo_hi :: "CapSet \<Rightarrow> 32 word \<times> 32 word" where
  "CapSet_to_lo_hi self = (ucast self, ucast (drop_bit 32 self))"

definition CapSet_from_capability_number :: "64 word \<Rightarrow> CapSet option" where
  "CapSet_from_capability_number capability =
     (if unat capability > most_significant_bit then None else Some (CapSet_bit (unat capability)))"

named_theorems capset_bits \<open>a capability set by its bits\<close>

lemma bit_CapSet_all [capset_bits]: "bit CapSet_all n \<longleftrightarrow> n \<le> 40"
  by (auto simp: CapSet_all_def most_significant_bit_def bit_simps)

lemma bit_CapSet_bit [capset_bits]: "n < 64 \<Longrightarrow> bit (CapSet_bit n) m \<longleftrightarrow> m = n"
  by (auto simp: CapSet_bit_def bit_simps)

lemma cap_contains_iff [capset_bits]: "cap_contains b a \<longleftrightarrow> (\<forall>n. bit a n \<longrightarrow> bit b n)"
proof
  assume "cap_contains b a"
  then show "\<forall>n. bit a n \<longrightarrow> bit b n" unfolding cap_contains_def by (metis bit_and_iff)
next
  assume "\<forall>n. bit a n \<longrightarrow> bit b n"
  then show "cap_contains b a" unfolding cap_contains_def by (intro bit_word_eqI) (auto simp: bit_simps)
qed

lemma bit_cap_minus [capset_bits]: "bit (cap_minus a b) n \<longleftrightarrow> bit a n \<and> \<not> bit b n"
  by (auto simp: cap_minus_def bit_simps dest: bit_imp_le_length)

lemma bit_cap_not [capset_bits]: "bit (cap_not a) n \<longleftrightarrow> n \<le> 40 \<and> \<not> bit a n"
  by (auto simp: cap_not_def bit_simps capset_bits)

lemmas [capset_bits] = bit_and_iff bit_or_iff

lemma cap_contains_refl [simp]: "cap_contains a a"
  by (simp add: cap_contains_def)

lemma cap_contains_trans: "cap_contains c b \<Longrightarrow> cap_contains b a \<Longrightarrow> cap_contains c a"
  by (auto simp: capset_bits)

lemma cap_contains_zero [simp]: "cap_contains a 0" "cap_contains 0 a \<longleftrightarrow> a = 0"
  by (auto simp: cap_contains_def)

lemma from_to_lo_hi:
  assumes "cap_contains CapSet_all c"
  shows "CapSet_from_lo_hi (fst (CapSet_to_lo_hi c)) (snd (CapSet_to_lo_hi c)) = c"
proof (rule bit_word_eqI)
  fix n assume "n < LENGTH(64)"
  then show "bit (CapSet_from_lo_hi (fst (CapSet_to_lo_hi c)) (snd (CapSet_to_lo_hi c))) n = bit c n"
    using assms by (auto simp: CapSet_from_lo_hi_def CapSet_to_lo_hi_def capset_bits bit_simps)
qed

section \<open>Secure bits\<close>

type_synonym SecureBits = "16 word"

abbreviation NOROOT :: SecureBits where "NOROOT \<equiv> push_bit 0 1"
abbreviation NO_SETUID_FIXUP :: SecureBits where "NO_SETUID_FIXUP \<equiv> push_bit 2 1"
abbreviation KEEP_CAPS :: SecureBits where "KEEP_CAPS \<equiv> push_bit 4 1"
abbreviation KEEP_CAPS_LOCKED :: SecureBits where "KEEP_CAPS_LOCKED \<equiv> push_bit 5 1"
abbreviation NO_CAP_AMBIENT_RAISE :: SecureBits where "NO_CAP_AMBIENT_RAISE \<equiv> push_bit 6 1"

definition SecureBits_all :: SecureBits where
  "SecureBits_all = 0xFF"

definition LOCK_MASK :: SecureBits where
  "LOCK_MASK = 0xAA"

definition SecureBits_locked_bits :: "SecureBits \<Rightarrow> SecureBits" where
  "SecureBits_locked_bits self = drop_bit 1 (self AND LOCK_MASK) AND SecureBits_all"

definition secure_contains :: "SecureBits \<Rightarrow> SecureBits \<Rightarrow> bool" where
  "secure_contains self other \<longleftrightarrow> self AND other = other"

definition SecureBits_try_from :: "16 word \<Rightarrow> errno + SecureBits" where
  "SecureBits_try_from v = (if v AND NOT SecureBits_all = 0 then Inr v else Inl EPERM)"

definition SecureBits_no_root :: "SecureBits \<Rightarrow> bool" where
  "SecureBits_no_root self = secure_contains self NOROOT"

definition SecureBits_keep_capabilities :: "SecureBits \<Rightarrow> bool" where
  "SecureBits_keep_capabilities self = secure_contains self KEEP_CAPS"

definition SecureBits_no_setuid_fixup :: "SecureBits \<Rightarrow> bool" where
  "SecureBits_no_setuid_fixup self = secure_contains self NO_SETUID_FIXUP"

definition SecureBits_no_cap_ambient_raise :: "SecureBits \<Rightarrow> bool" where
  "SecureBits_no_cap_ambient_raise self = secure_contains self NO_CAP_AMBIENT_RAISE"

text \<open>\<open>AtomicSecureBits::try_store\<close>, with the current value as an argument.\<close>

definition SecureBits_try_store :: "SecureBits \<Rightarrow> SecureBits \<Rightarrow> errno + SecureBits" where
  "SecureBits_try_store current bits =
     (let locked_bits = SecureBits_locked_bits current in
      if locked_bits AND current \<noteq> locked_bits AND bits then Inl EPERM
      else if LOCK_MASK AND current AND NOT bits \<noteq> 0 then Inl EPERM
      else Inr bits)"

text \<open>
  The odd bits lock the even bit below them. \<open>locks_kept old new\<close>: every lock that was set is still
  set, and the bit it protects has not changed.
\<close>

definition locks_kept :: "SecureBits \<Rightarrow> SecureBits \<Rightarrow> bool" where
  "locks_kept old new \<longleftrightarrow>
     (\<forall>n \<in> {0, 2, 4, 6}. bit old (Suc n) \<longrightarrow> bit new (Suc n) \<and> (bit new n \<longleftrightarrow> bit old n))"

lemma bit_LOCK_MASK: "bit LOCK_MASK n \<longleftrightarrow> n \<in> {1, 3, 5, 7}"
proof -
  have "bit (push_bit a 1 OR push_bit b 1 OR push_bit c 1 OR push_bit d 1 :: SecureBits) n
      \<longleftrightarrow> n \<in> {a, b, c, d}" if "a < 16" "b < 16" "c < 16" "d < 16" for a b c d
    using that by (auto simp: bit_simps)
  from this [of 1 3 5 7] show ?thesis by (simp add: LOCK_MASK_def)
qed

lemma bit_SecureBits_all: "bit SecureBits_all n \<longleftrightarrow> n < 8"
proof -
  have "bit (mask k :: SecureBits) n \<longleftrightarrow> n < k" if "k \<le> 16" for k
    using that by (auto simp: bit_simps)
  from this [of 8] show ?thesis by (simp add: SecureBits_all_def mask_numeral)
qed

lemma bit_locked_bits: "bit (SecureBits_locked_bits b) n \<longleftrightarrow> n \<in> {0, 2, 4, 6} \<and> bit b (Suc n)"
  by (auto simp: SecureBits_locked_bits_def bit_simps bit_LOCK_MASK bit_SecureBits_all)

lemma try_store_locks:
  assumes "SecureBits_try_store old bits = Inr new"
  shows "new = bits \<and> locks_kept old new"
proof -
  have new: "new = bits" and same: "SecureBits_locked_bits old AND old = SecureBits_locked_bits old AND bits"
    and kept: "LOCK_MASK AND old AND NOT bits = 0"
    using assms by (auto simp: SecureBits_try_store_def Let_def split: if_splits)
  have "bit bits n \<longleftrightarrow> bit old n" if "n \<in> {0, 2, 4, 6}" "bit old (Suc n)" for n
  proof -
    have "bit (SecureBits_locked_bits old) n" using that by (simp add: bit_locked_bits)
    then show ?thesis using arg_cong [OF same, of "\<lambda>w. bit w n"] by (simp add: bit_and_iff)
  qed
  moreover have "bit bits (Suc n)" if "n \<in> {0, 2, 4, 6}" "bit old (Suc n)" for n
  proof (rule ccontr)
    assume "\<not> bit bits (Suc n)"
    then have "bit (LOCK_MASK AND old AND NOT bits) (Suc n)"
      using that by (auto simp: bit_simps bit_LOCK_MASK)
    then show False using kept by simp
  qed
  ultimately show ?thesis using new by (auto simp: locks_kept_def)
qed

lemma locks_kept_refl [simp]: "locks_kept b b"
  by (simp add: locks_kept_def)

lemma locks_kept_trans: "locks_kept a b \<Longrightarrow> locks_kept b c \<Longrightarrow> locks_kept a c"
  by (auto simp: locks_kept_def)

end
