(* ===== verification/File_Capabilities.thy ===== *)
theory File_Capabilities
  imports Cap_Set
begin

text \<open>
  The \<open>security.capability\<close> extended attribute,
  \<open>kernel/core/src/process/credentials/file_capabilities.rs\<close>: a header word (revision and flags)
  followed by little-endian words, of a length fixed by the revision.
\<close>

type_synonym byte = "8 word"
type_synonym Uid = "32 word"
type_synonym Gid = "32 word"

datatype VfsCapRevision = V1 | V2 | V3

definition VfsCapRevision_MASK :: "32 word" where
  "VfsCapRevision_MASK = 0xFF000000"

definition VfsCapRevision_try_from :: "32 word \<Rightarrow> errno + VfsCapRevision" where
  "VfsCapRevision_try_from v =
     (if v = 0x01000000 then Inr V1 else if v = 0x02000000 then Inr V2
      else if v = 0x03000000 then Inr V3 else Inl EINVAL)"

primrec VfsCapRevision_xattr_size :: "VfsCapRevision \<Rightarrow> nat" where
  "VfsCapRevision_xattr_size V1 = 3 * 4"
| "VfsCapRevision_xattr_size V2 = 5 * 4"
| "VfsCapRevision_xattr_size V3 = 6 * 4"

definition VfsCapFlags_MASK :: "32 word" where
  "VfsCapFlags_MASK = 0x00FFFFFF"

definition VfsCapFlags_EFFECTIVE :: "32 word" where
  "VfsCapFlags_EFFECTIVE = 1"

record FileCapabilities =
  fc_permitted :: CapSet
  fc_inheritable :: CapSet
  fc_has_effective_flag :: bool
  fc_root_uid :: "Uid option"

definition MAX_XATTR_SIZE :: nat where
  "MAX_XATTR_SIZE = VfsCapRevision_xattr_size V3"

fun u32_from_le_bytes :: "byte list \<Rightarrow> 32 word" where
  "u32_from_le_bytes [] = 0"
| "u32_from_le_bytes (b # bs) = ucast b OR push_bit 8 (u32_from_le_bytes bs)"

definition read_u32_le :: "byte list \<Rightarrow> nat \<Rightarrow> errno + 32 word" where
  "read_u32_le bytes word_index =
     (let start = word_index * 4; stop = start + 4 in
      if stop \<le> length bytes then Inr (u32_from_le_bytes (take 4 (drop start bytes)))
      else Inl EINVAL)"

definition read_v3_uid :: "byte list \<Rightarrow> errno + Uid" where
  "read_v3_uid raw_value = read_u32_le raw_value 5"

text \<open>\<open>?\<close> on a result.\<close>

primrec bind_ok :: "'e + 'a \<Rightarrow> ('a \<Rightarrow> 'e + 'b) \<Rightarrow> 'e + 'b" where
  "bind_ok (Inl e) f = Inl e"
| "bind_ok (Inr x) f = f x"

lemma bind_ok_Inr_iff: "bind_ok m f = Inr y \<longleftrightarrow> (\<exists>x. m = Inr x \<and> f x = Inr y)"
  by (cases m) auto

definition parse_header :: "byte list \<Rightarrow> errno + (VfsCapRevision \<times> 32 word)" where
  "parse_header raw_value =
     bind_ok (read_u32_le raw_value 0) (\<lambda>header.
     bind_ok (VfsCapRevision_try_from (header AND VfsCapRevision_MASK)) (\<lambda>revision.
     let flags_bits = header AND VfsCapFlags_MASK in
     if flags_bits AND NOT VfsCapFlags_EFFECTIVE \<noteq> 0 then Inl EINVAL
     else if length raw_value \<noteq> VfsCapRevision_xattr_size revision then Inl EINVAL
     else Inr (revision, flags_bits)))"

definition FileCapabilities_parse :: "byte list \<Rightarrow> errno + FileCapabilities" where
  "FileCapabilities_parse raw_value =
     bind_ok (parse_header raw_value) (\<lambda>(revision, flags).
     bind_ok (if revision = V1 then
         bind_ok (read_u32_le raw_value 1) (\<lambda>p.
         bind_ok (read_u32_le raw_value 2) (\<lambda>i.
         Inr (CapSet_from_lo_hi p 0, CapSet_from_lo_hi i 0)))
       else
         bind_ok (read_u32_le raw_value 1) (\<lambda>p_lo.
         bind_ok (read_u32_le raw_value 3) (\<lambda>p_hi.
         bind_ok (read_u32_le raw_value 2) (\<lambda>i_lo.
         bind_ok (read_u32_le raw_value 4) (\<lambda>i_hi.
         Inr (CapSet_from_lo_hi p_lo p_hi, CapSet_from_lo_hi i_lo i_hi))))))
     (\<lambda>(permitted, inheritable).
     bind_ok (if revision = V3 then bind_ok (read_v3_uid raw_value) (\<lambda>uid. Inr (Some uid)) else Inr None)
     (\<lambda>root_uid.
     Inr \<lparr>fc_permitted = permitted, fc_inheritable = inheritable,
       fc_has_effective_flag = (flags AND VfsCapFlags_EFFECTIVE = VfsCapFlags_EFFECTIVE),
       fc_root_uid = root_uid\<rparr>)))"

text \<open>
  The inode answers \<open>get_xattr\<close> with the bytes it wrote to a buffer of \<open>MAX_XATTR_SIZE\<close> bytes; the
  slice \<open>raw_value[..value_len]\<close> panics if the reported length exceeds the buffer.
\<close>

definition FileCapabilities_read_from_inode ::
  "errno + byte list \<Rightarrow> (errno + FileCapabilities option) outcome" where
  "FileCapabilities_read_from_inode get_xattr =
     (case get_xattr of
        Inl error \<Rightarrow> Return (if error \<in> {ENODATA, EOPNOTSUPP} then Inr None else Inl error)
      | Inr value \<Rightarrow>
          if length value > MAX_XATTR_SIZE then Panic
          else Return (bind_ok (FileCapabilities_parse value) (\<lambda>fc. Inr (Some fc))))"

section \<open>Parsing\<close>

definition u32_le_bytes :: "32 word \<Rightarrow> byte list" where
  "u32_le_bytes w = [ucast w, ucast (drop_bit 8 w), ucast (drop_bit 16 w), ucast (drop_bit 24 w)]"

lemma length_u32_le_bytes [simp]: "length (u32_le_bytes w) = 4"
  by (simp add: u32_le_bytes_def)

lemma u32_from_u32_le_bytes [simp]: "u32_from_le_bytes (u32_le_bytes w) = w"
proof (rule bit_word_eqI)
  fix n assume "n < LENGTH(32)"
  then consider "n < 8" | "8 \<le> n" "n < 16" | "16 \<le> n" "n < 24" | "24 \<le> n" "n < 32" by fastforce
  then show "bit (u32_from_le_bytes (u32_le_bytes w)) n \<longleftrightarrow> bit w n"
    by cases (auto simp: u32_le_bytes_def bit_simps)
qed

lemma read_u32_le_concat:
  assumes "i < length ws"
  shows "read_u32_le (concat (map u32_le_bytes ws)) i = Inr (ws ! i)"
proof -
  have len: "length (concat (map u32_le_bytes ws)) = length ws * 4" for ws
    by (induction ws) auto
  have "take 4 (drop (i * 4) (concat (map u32_le_bytes ws))) = u32_le_bytes (ws ! i)"
    using assms
  proof (induction ws arbitrary: i)
    case (Cons w ws)
    then show ?case by (cases i) simp_all
  qed simp
  moreover have "i * 4 + 4 \<le> length ws * 4" using assms by simp
  ultimately show ?thesis by (simp add: read_u32_le_def len)
qed

lemma read_u32_le_in_range: "Suc i * 4 \<le> length bytes \<Longrightarrow> \<exists>w. read_u32_le bytes i = Inr w"
  by (simp add: read_u32_le_def)

lemma parse_header_accepts:
  assumes "parse_header raw_value = Inr (revision, flags)"
  shows "length raw_value = VfsCapRevision_xattr_size revision"
  using assms by (auto simp: parse_header_def bind_ok_Inr_iff Let_def split: if_splits)

section \<open>Properties\<close>

text \<open>
  C34. A value is parsed exactly when its header is accepted: once \<open>parse_header\<close> has checked the
  revision, the flags and the length, no later read of a word is out of range.
\<close>

theorem parse_total:
  "(\<exists>fc. FileCapabilities_parse raw_value = Inr fc) \<longleftrightarrow> (\<exists>rf. parse_header raw_value = Inr rf)"
proof (cases "parse_header raw_value")
  case (Inl e)
  then show ?thesis by (simp add: FileCapabilities_parse_def)
next
  case (Inr rf)
  obtain revision flags where rf: "rf = (revision, flags)" by (cases rf)
  have len: "length raw_value = VfsCapRevision_xattr_size revision"
    using Inr rf parse_header_accepts by simp
  have read: "\<exists>w. read_u32_le raw_value i = Inr w" if "Suc i * 4 \<le> VfsCapRevision_xattr_size revision" for i
    using that len read_u32_le_in_range by simp
  have "\<exists>fc. FileCapabilities_parse raw_value = Inr fc"
    using Inr rf read [of 1] read [of 2] read [of 3] read [of 4] read [of 5]
    by (cases revision) (auto simp: FileCapabilities_parse_def read_v3_uid_def)
  then show ?thesis using Inr by blast
qed

text \<open>
  C35. Parsing recovers what a revision-3 attribute stores: the two capability sets from their low
  and high words, the effective flag and the root user.
\<close>

theorem parse_v3:
  assumes "cap_contains CapSet_all p" "cap_contains CapSet_all i"
  shows "FileCapabilities_parse (concat (map u32_le_bytes
      [0x03000000 OR (if eff then 1 else 0), fst (CapSet_to_lo_hi p), fst (CapSet_to_lo_hi i),
       snd (CapSet_to_lo_hi p), snd (CapSet_to_lo_hi i), uid]))
    = Inr \<lparr>fc_permitted = p, fc_inheritable = i, fc_has_effective_flag = eff, fc_root_uid = Some uid\<rparr>"
proof -
  let ?ws = "[0x03000000 OR (if eff then 1 else 0), fst (CapSet_to_lo_hi p), fst (CapSet_to_lo_hi i),
       snd (CapSet_to_lo_hi p), snd (CapSet_to_lo_hi i), uid]"
  let ?raw = "concat (map u32_le_bytes ?ws)"
  have len: "length ?raw = VfsCapRevision_xattr_size V3" by simp
  have header: "parse_header ?raw = Inr (V3, if eff then 1 else 0)"
    using read_u32_le_concat [of 0 ?ws] len
    by (simp add: parse_header_def VfsCapRevision_MASK_def VfsCapRevision_try_from_def VfsCapFlags_MASK_def
        VfsCapFlags_EFFECTIVE_def Let_def split: if_splits)
  show ?thesis
    unfolding FileCapabilities_parse_def header read_v3_uid_def
    using read_u32_le_concat [of 1 ?ws] read_u32_le_concat [of 2 ?ws] read_u32_le_concat [of 3 ?ws]
      read_u32_le_concat [of 4 ?ws] read_u32_le_concat [of 5 ?ws] from_to_lo_hi [OF assms(1)] from_to_lo_hi [OF assms(2)]
    by (simp add: VfsCapFlags_EFFECTIVE_def del: concat.simps list.map)
qed

lemma parse_v3_witness:
  "FileCapabilities_parse (concat (map u32_le_bytes
      [0x03000000 OR (if True then 1 else 0), fst (CapSet_to_lo_hi CAP_SETUID), fst (CapSet_to_lo_hi 0),
       snd (CapSet_to_lo_hi CAP_SETUID), snd (CapSet_to_lo_hi 0), 1000]))
    = Inr \<lparr>fc_permitted = CAP_SETUID, fc_inheritable = 0, fc_has_effective_flag = True, fc_root_uid = Some 1000\<rparr>"
  by (rule parse_v3) (simp_all add: capset_bits)

end
