(* ===== verification/Credentials.thy ===== *)
theory Credentials
  imports File_Capabilities
begin

text \<open>
  The credentials of a thread, \<open>kernel/core/src/process/credentials/credentials_.rs\<close>. Every field is an atomic that only its own thread stores to, so an operation is a
  function on the record of the fields, in the order of the stores.
\<close>

record Credentials_ =
  cr_ruid :: Uid
  cr_euid :: Uid
  cr_suid :: Uid
  cr_fsuid :: Uid
  cr_rgid :: Gid
  cr_egid :: Gid
  cr_sgid :: Gid
  cr_fsgid :: Gid
  cr_supplementary_gids :: "Gid set"
  cr_inheritable :: CapSet
  cr_permitted :: CapSet
  cr_effective :: CapSet
  cr_bounding :: CapSet
  cr_ambient :: CapSet
  cr_securebits :: SecureBits
  cr_no_new_privs :: bool

record ExecCred =
  ec_setuid :: "Uid option"
  ec_setgid :: "Gid option"
  ec_permitted :: CapSet
  ec_effective :: CapSet
  ec_ambient :: CapSet

definition Uid_is_root :: "Uid \<Rightarrow> bool" where
  "Uid_is_root uid \<longleftrightarrow> uid = 0"

definition Credentials_new :: "Uid \<Rightarrow> Gid \<Rightarrow> CapSet \<Rightarrow> Credentials_" where
  "Credentials_new uid gid capset =
     \<lparr>cr_ruid = uid, cr_euid = uid, cr_suid = uid, cr_fsuid = uid,
      cr_rgid = gid, cr_egid = gid, cr_sgid = gid, cr_fsgid = gid, cr_supplementary_gids = {gid},
      cr_inheritable = 0, cr_permitted = capset, cr_effective = capset,
      cr_bounding = CapSet_all, cr_ambient = 0, cr_securebits = 0, cr_no_new_privs = False\<rparr>"

section \<open>Capability sets\<close>

definition set_inheritable_capset :: "CapSet \<Rightarrow> Credentials_ \<Rightarrow> Credentials_" where
  "set_inheritable_capset inheritable self =
     (let self = self\<lparr>cr_inheritable := inheritable\<rparr>
      in self\<lparr>cr_ambient := cr_ambient self AND inheritable\<rparr>)"

definition set_permitted_capset :: "CapSet \<Rightarrow> Credentials_ \<Rightarrow> Credentials_" where
  "set_permitted_capset permitted self =
     (let self = self\<lparr>cr_permitted := permitted\<rparr>
      in self\<lparr>cr_ambient := cr_ambient self AND permitted\<rparr>)"

definition set_effective_capset :: "CapSet \<Rightarrow> Credentials_ \<Rightarrow> Credentials_" where
  "set_effective_capset effective self = self\<lparr>cr_effective := effective\<rparr>"

definition raise_ambient_capability :: "CapSet \<Rightarrow> Credentials_ \<Rightarrow> (errno + unit) \<times> Credentials_" where
  "raise_ambient_capability capability self =
     (if SecureBits_no_cap_ambient_raise (cr_securebits self) then (Inl EPERM, self)
      else if \<not> cap_contains (cr_permitted self) capability
          \<or> \<not> cap_contains (cr_inheritable self) capability then (Inl EPERM, self)
      else (Inr (), self\<lparr>cr_ambient := cr_ambient self OR capability\<rparr>))"

definition lower_ambient_capability :: "CapSet \<Rightarrow> Credentials_ \<Rightarrow> Credentials_" where
  "lower_ambient_capability capability self =
     self\<lparr>cr_ambient := cap_minus (cr_ambient self) capability\<rparr>"

definition clear_ambient_capset :: "Credentials_ \<Rightarrow> Credentials_" where
  "clear_ambient_capset self = self\<lparr>cr_ambient := 0\<rparr>"

definition drop_bounding_capability :: "CapSet \<Rightarrow> Credentials_ \<Rightarrow> (errno + unit) \<times> Credentials_" where
  "drop_bounding_capability capability self =
     (if \<not> cap_contains (cr_effective self) CAP_SETPCAP then (Inl EPERM, self)
      else (Inr (), self\<lparr>cr_bounding := cap_minus (cr_bounding self) capability\<rparr>))"

section \<open>Secure bits\<close>

definition store_securebits :: "SecureBits \<Rightarrow> Credentials_ \<Rightarrow> (errno + unit) \<times> Credentials_" where
  "store_securebits bits self =
     (case SecureBits_try_store (cr_securebits self) bits of
        Inl err \<Rightarrow> (Inl err, self)
      | Inr bits \<Rightarrow> (Inr (), self\<lparr>cr_securebits := bits\<rparr>))"

definition set_keep_capabilities :: "bool \<Rightarrow> Credentials_ \<Rightarrow> (errno + unit) \<times> Credentials_" where
  "set_keep_capabilities keep self =
     (let current_bits = cr_securebits self;
          stored_bits = (if \<not> keep then current_bits AND NOT KEEP_CAPS else current_bits OR KEEP_CAPS)
      in store_securebits stored_bits self)"

definition set_securebits :: "SecureBits \<Rightarrow> Credentials_ \<Rightarrow> (errno + unit) \<times> Credentials_" where
  "set_securebits bits self =
     (if \<not> cap_contains (cr_effective self) CAP_SETPCAP then (Inl EPERM, self)
      else store_securebits bits self)"

definition set_no_new_privs :: "Credentials_ \<Rightarrow> Credentials_" where
  "set_no_new_privs self = self\<lparr>cr_no_new_privs := True\<rparr>"

section \<open>User IDs\<close>

definition set_fsuid_unchecked :: "Uid \<Rightarrow> Credentials_ \<Rightarrow> Credentials_" where
  "set_fsuid_unchecked fsuid self =
     (let old_fsuid = cr_fsuid self; self = self\<lparr>cr_fsuid := fsuid\<rparr> in
      if Uid_is_root old_fsuid \<and> \<not> Uid_is_root fsuid then
        let cap_to_remove = CAP_CHOWN OR CAP_DAC_OVERRIDE OR CAP_FOWNER OR CAP_DAC_READ_SEARCH
              OR CAP_FSETID OR CAP_LINUX_IMMUTABLE OR CAP_MAC_OVERRIDE OR CAP_MKNOD
        in set_effective_capset (cap_minus (cr_effective self) cap_to_remove) self
      else self)"

definition store_uids :: "Uid option \<Rightarrow> Uid option \<Rightarrow> Uid option \<Rightarrow> Credentials_ \<Rightarrow> Credentials_" where
  "store_uids ruid euid suid self =
     self\<lparr>cr_ruid := (case ruid of Some u \<Rightarrow> u | None \<Rightarrow> cr_ruid self),
       cr_euid := (case euid of Some u \<Rightarrow> u | None \<Rightarrow> cr_euid self),
       cr_suid := (case suid of Some u \<Rightarrow> u | None \<Rightarrow> cr_suid self)\<rparr>"

text \<open>The adjustment of the capability sets after the three user IDs changed from \<open>old\<close> to \<open>self\<close>.\<close>

definition setuid_fixup :: "Credentials_ \<Rightarrow> Credentials_ \<Rightarrow> Credentials_" where
  "setuid_fixup old self =
     (let had_root = (Uid_is_root (cr_ruid old) \<or> Uid_is_root (cr_euid old) \<or> Uid_is_root (cr_suid old));
          all_nonroot = (\<not> Uid_is_root (cr_ruid self) \<and> \<not> Uid_is_root (cr_euid self)
            \<and> \<not> Uid_is_root (cr_suid self));
          self = (if had_root \<and> all_nonroot then
              (if \<not> SecureBits_keep_capabilities (cr_securebits self)
               then set_effective_capset 0 (set_permitted_capset 0 self)
               else clear_ambient_capset self)
            else self)
      in if Uid_is_root (cr_euid old) \<and> \<not> Uid_is_root (cr_euid self) then set_effective_capset 0 self
         else if \<not> Uid_is_root (cr_euid old) \<and> Uid_is_root (cr_euid self)
         then set_effective_capset (cr_permitted self) self
         else self)"

definition set_resuid_unchecked ::
  "Uid option \<Rightarrow> Uid option \<Rightarrow> Uid option \<Rightarrow> Credentials_ \<Rightarrow> Credentials_" where
  "set_resuid_unchecked ruid euid suid old =
     (let self = store_uids ruid euid suid old;
          self = set_fsuid_unchecked (cr_euid self) self
      in if SecureBits_no_setuid_fixup (cr_securebits self) then self
         else setuid_fixup old self)"

definition check_uid_perm ::
  "Uid option \<Rightarrow> Uid option \<Rightarrow> Uid option \<Rightarrow> bool \<Rightarrow> Credentials_ \<Rightarrow> errno + unit" where
  "check_uid_perm ruid euid suid ruid_may_be_old_suid self =
     (let associated = (\<lambda>uid. uid = cr_ruid self \<or> uid = cr_euid self \<or> uid = cr_suid self) in
      if cap_contains (cr_effective self) CAP_SETUID then Inr ()
      else if (case ruid of None \<Rightarrow> False | Some ruid \<Rightarrow>
          ruid \<noteq> cr_ruid self \<and> ruid \<noteq> cr_euid self
          \<and> (\<not> ruid_may_be_old_suid \<or> ruid \<noteq> cr_suid self)) then Inl EPERM
      else if (case euid of None \<Rightarrow> False | Some euid \<Rightarrow> \<not> associated euid) then Inl EPERM
      else if (case suid of None \<Rightarrow> False | Some suid \<Rightarrow> \<not> associated suid) then Inl EPERM
      else Inr ())"

definition set_resuid ::
  "Uid option \<Rightarrow> Uid option \<Rightarrow> Uid option \<Rightarrow> Credentials_ \<Rightarrow> (errno + unit) \<times> Credentials_" where
  "set_resuid ruid euid suid self =
     (case check_uid_perm ruid euid suid True self of
        Inl err \<Rightarrow> (Inl err, self)
      | Inr _ \<Rightarrow> (Inr (), set_resuid_unchecked ruid euid suid self))"

definition set_uid :: "Uid \<Rightarrow> Credentials_ \<Rightarrow> (errno + unit) \<times> Credentials_" where
  "set_uid uid self =
     (if cap_contains (cr_effective self) CAP_SETUID
      then (Inr (), set_resuid_unchecked (Some uid) (Some uid) (Some uid) self)
      else set_resuid None (Some uid) None self)"

definition set_reuid :: "Uid option \<Rightarrow> Uid option \<Rightarrow> Credentials_ \<Rightarrow> (errno + unit) \<times> Credentials_" where
  "set_reuid ruid euid self =
     (case check_uid_perm ruid euid None False self of
        Inl err \<Rightarrow> (Inl err, self)
      | Inr _ \<Rightarrow>
          let should_set_suid = (ruid \<noteq> None \<or> (case euid of None \<Rightarrow> False | Some e \<Rightarrow> e \<noteq> cr_ruid self));
              suid = (if should_set_suid
                then Some (case euid of Some e \<Rightarrow> e | None \<Rightarrow> cr_euid self) else None)
          in (Inr (), set_resuid_unchecked ruid euid suid self))"

definition set_fsuid :: "Uid option \<Rightarrow> Credentials_ \<Rightarrow> (Uid + Uid) \<times> Credentials_" where
  "set_fsuid fsuid self =
     (let old_fsuid = cr_fsuid self in
      case fsuid of
        None \<Rightarrow> (Inr old_fsuid, self)
      | Some fsuid \<Rightarrow>
          if cap_contains (cr_effective self) CAP_SETUID then (Inr old_fsuid, set_fsuid_unchecked fsuid self)
          else if fsuid \<noteq> cr_ruid self \<and> fsuid \<noteq> cr_euid self \<and> fsuid \<noteq> cr_suid self
          then (Inl old_fsuid, self)
          else (Inr old_fsuid, set_fsuid_unchecked fsuid self))"

definition set_euid :: "Uid \<Rightarrow> Credentials_ \<Rightarrow> Credentials_" where
  "set_euid euid self = set_resuid_unchecked None (Some euid) None self"

definition set_suid :: "Uid \<Rightarrow> Credentials_ \<Rightarrow> Credentials_" where
  "set_suid suid self = set_resuid_unchecked None None (Some suid) self"

section \<open>Group IDs\<close>

definition set_fsgid_unchecked :: "Gid \<Rightarrow> Credentials_ \<Rightarrow> Credentials_" where
  "set_fsgid_unchecked fsgid self = self\<lparr>cr_fsgid := fsgid\<rparr>"

definition set_resgid_unchecked ::
  "Gid option \<Rightarrow> Gid option \<Rightarrow> Gid option \<Rightarrow> Credentials_ \<Rightarrow> Credentials_" where
  "set_resgid_unchecked rgid egid sgid self =
     (let self = (case rgid of Some g \<Rightarrow> self\<lparr>cr_rgid := g\<rparr> | None \<Rightarrow> self);
          self = (case egid of Some g \<Rightarrow> self\<lparr>cr_egid := g\<rparr> | None \<Rightarrow> self);
          self = (case sgid of Some g \<Rightarrow> self\<lparr>cr_sgid := g\<rparr> | None \<Rightarrow> self)
      in set_fsgid_unchecked (cr_egid self) self)"

definition check_gid_perm ::
  "Gid option \<Rightarrow> Gid option \<Rightarrow> Gid option \<Rightarrow> bool \<Rightarrow> Credentials_ \<Rightarrow> errno + unit" where
  "check_gid_perm rgid egid sgid rgid_may_be_old_sgid self =
     (let associated = (\<lambda>gid. gid = cr_rgid self \<or> gid = cr_egid self \<or> gid = cr_sgid self) in
      if cap_contains (cr_effective self) CAP_SETGID then Inr ()
      else if (case rgid of None \<Rightarrow> False | Some rgid \<Rightarrow>
          rgid \<noteq> cr_rgid self \<and> rgid \<noteq> cr_egid self
          \<and> (\<not> rgid_may_be_old_sgid \<or> rgid \<noteq> cr_sgid self)) then Inl EPERM
      else if (case egid of None \<Rightarrow> False | Some egid \<Rightarrow> \<not> associated egid) then Inl EPERM
      else if (case sgid of None \<Rightarrow> False | Some sgid \<Rightarrow> \<not> associated sgid) then Inl EPERM
      else Inr ())"

definition set_resgid ::
  "Gid option \<Rightarrow> Gid option \<Rightarrow> Gid option \<Rightarrow> Credentials_ \<Rightarrow> (errno + unit) \<times> Credentials_" where
  "set_resgid rgid egid sgid self =
     (case check_gid_perm rgid egid sgid True self of
        Inl err \<Rightarrow> (Inl err, self)
      | Inr _ \<Rightarrow> (Inr (), set_resgid_unchecked rgid egid sgid self))"

definition set_gid :: "Gid \<Rightarrow> Credentials_ \<Rightarrow> (errno + unit) \<times> Credentials_" where
  "set_gid gid self =
     (if cap_contains (cr_effective self) CAP_SETGID
      then (Inr (), set_resgid_unchecked (Some gid) (Some gid) (Some gid) self)
      else set_resgid None (Some gid) None self)"

definition set_regid :: "Gid option \<Rightarrow> Gid option \<Rightarrow> Credentials_ \<Rightarrow> (errno + unit) \<times> Credentials_" where
  "set_regid rgid egid self =
     (case check_gid_perm rgid egid None False self of
        Inl err \<Rightarrow> (Inl err, self)
      | Inr _ \<Rightarrow>
          let should_set_sgid = (rgid \<noteq> None \<or> (case egid of None \<Rightarrow> False | Some e \<Rightarrow> e \<noteq> cr_rgid self));
              sgid = (if should_set_sgid
                then Some (case egid of Some e \<Rightarrow> e | None \<Rightarrow> cr_egid self) else None)
          in (Inr (), set_resgid_unchecked rgid egid sgid self))"

definition set_fsgid :: "Gid option \<Rightarrow> Credentials_ \<Rightarrow> (Gid + Gid) \<times> Credentials_" where
  "set_fsgid fsgid self =
     (let old_fsgid = cr_fsgid self in
      case fsgid of
        None \<Rightarrow> (Inr old_fsgid, self)
      | Some fsgid \<Rightarrow>
          if fsgid = old_fsgid then (Inr old_fsgid, self)
          else if cap_contains (cr_effective self) CAP_SETGID then (Inr old_fsgid, set_fsgid_unchecked fsgid self)
          else if fsgid \<noteq> cr_rgid self \<and> fsgid \<noteq> cr_egid self \<and> fsgid \<noteq> cr_sgid self
          then (Inl old_fsgid, self)
          else (Inr old_fsgid, set_fsgid_unchecked fsgid self))"

definition set_egid :: "Gid \<Rightarrow> Credentials_ \<Rightarrow> Credentials_" where
  "set_egid egid self = set_resgid_unchecked None (Some egid) None self"

definition set_sgid :: "Gid \<Rightarrow> Credentials_ \<Rightarrow> Credentials_" where
  "set_sgid sgid self = set_resgid_unchecked None None (Some sgid) self"

section \<open>Program execution\<close>

definition exec_ambient :: "FileCapabilities option \<Rightarrow> Uid \<Rightarrow> Gid \<Rightarrow> Credentials_ \<Rightarrow> CapSet" where
  "exec_ambient file_capabilities new_euid new_egid self =
     (let id_changed = (new_euid \<noteq> cr_euid self
            \<or> (new_egid \<noteq> cr_fsgid self \<and> new_egid \<notin> cr_supplementary_gids self))
      in if file_capabilities \<noteq> None \<or> id_changed then 0 else cr_ambient self)"

text \<open>The file's permitted, inheritable and effective sets, with the rules for programs run by root.\<close>

definition exec_file_sets :: "FileCapabilities option \<Rightarrow> Uid \<Rightarrow> Credentials_ \<Rightarrow> CapSet \<times> CapSet \<times> CapSet" where
  "exec_file_sets file_capabilities new_euid self =
     (let file_permitted = (case file_capabilities of None \<Rightarrow> 0 | Some fc \<Rightarrow> fc_permitted fc);
          file_inheritable = (case file_capabilities of None \<Rightarrow> 0 | Some fc \<Rightarrow> fc_inheritable fc);
          file_effective = (case file_capabilities of None \<Rightarrow> 0
            | Some fc \<Rightarrow> if fc_has_effective_flag fc then CapSet_all else 0);
          is_setuid_root = (\<not> Uid_is_root (cr_ruid self) \<and> Uid_is_root new_euid)
      in if \<not> SecureBits_no_root (cr_securebits self) \<and> \<not> (file_capabilities \<noteq> None \<and> is_setuid_root) then
           let (file_permitted, file_inheritable) =
                 (if Uid_is_root (cr_ruid self) \<or> Uid_is_root new_euid then (CapSet_all, CapSet_all)
                  else (file_permitted, file_inheritable));
               file_effective = (if Uid_is_root new_euid then CapSet_all else file_effective)
           in (file_permitted, file_inheritable, file_effective)
         else (file_permitted, file_inheritable, file_effective))"

definition calculate_capsets_for_exec :: "FileCapabilities option \<Rightarrow> bool \<Rightarrow> Uid \<Rightarrow> Gid \<Rightarrow> Credentials_
    \<Rightarrow> errno + (CapSet \<times> CapSet \<times> CapSet)" where
  "calculate_capsets_for_exec file_capabilities no_new_privs new_euid new_egid self =
     (let new_ambient = exec_ambient file_capabilities new_euid new_egid self;
          (file_permitted, file_inheritable, file_effective) = exec_file_sets file_capabilities new_euid self;
          candidate_permitted = (cr_inheritable self AND file_inheritable)
            OR (file_permitted AND cr_bounding self) OR new_ambient
      in if (case file_capabilities of None \<Rightarrow> False | Some fc \<Rightarrow>
             fc_has_effective_flag fc \<and> \<not> cap_contains candidate_permitted (fc_permitted fc)) then Inl EPERM
         else
           let new_permitted = (if no_new_privs then candidate_permitted AND cr_permitted self
                 else candidate_permitted);
               new_effective = (file_effective AND new_permitted) OR (cap_not file_effective AND new_ambient)
           in Inr (new_permitted, new_effective, new_ambient))"

definition prepare_exec_cred :: "FileCapabilities option \<Rightarrow> Uid option \<Rightarrow> Gid option \<Rightarrow> Credentials_
    \<Rightarrow> errno + ExecCred" where
  "prepare_exec_cred file_capabilities setuid setgid self =
     (let no_new_privs = cr_no_new_privs self;
          setuid = (if no_new_privs then None else setuid);
          setgid = (if no_new_privs then None else setgid);
          new_euid = (case setuid of Some u \<Rightarrow> u | None \<Rightarrow> cr_euid self);
          new_egid = (case setgid of Some g \<Rightarrow> g | None \<Rightarrow> cr_egid self)
      in bind_ok (calculate_capsets_for_exec file_capabilities no_new_privs new_euid new_egid self)
           (\<lambda>(permitted, effective, ambient).
              Inr \<lparr>ec_setuid = setuid, ec_setgid = setgid, ec_permitted = permitted,
                ec_effective = effective, ec_ambient = ambient\<rparr>))"

definition apply_exec_cred :: "ExecCred \<Rightarrow> Credentials_ \<Rightarrow> (errno + unit) \<times> Credentials_" where
  "apply_exec_cred exec_cred self =
     (let self = (case ec_setuid exec_cred of Some u \<Rightarrow> set_euid u self | None \<Rightarrow> self);
          self = set_suid (cr_euid self) self;
          self = (case ec_setgid exec_cred of Some g \<Rightarrow> set_egid g self | None \<Rightarrow> self);
          self = set_sgid (cr_egid self) self;
          self = set_permitted_capset (ec_permitted exec_cred) self;
          self = set_effective_capset (ec_effective exec_cred) self;
          self = self\<lparr>cr_ambient := ec_ambient exec_cred\<rparr>
      in set_keep_capabilities False self)"

text \<open>
  \<open>prepare_exec_cred\<close> of \<open>kernel/core/src/process/execve.rs\<close>: the credentials that the executable asks
  for, ignored on a mount with \<open>NOSUID\<close>. The attributes of the file and the owner of the user
  namespace are what the file system and the namespace answer.
\<close>

record ElfFile =
  elf_nosuid :: bool
  elf_capabilities :: "errno + FileCapabilities option"
  elf_mode_bits :: "errno + (bool \<times> bool)"
  elf_owner :: "errno + Uid"
  elf_group :: "errno + Gid"

definition execve_prepare_exec_cred :: "ElfFile \<Rightarrow> errno + Uid \<Rightarrow> Credentials_ \<Rightarrow> errno + ExecCred" where
  "execve_prepare_exec_cred elf user_ns_owner_uid self =
     (if elf_nosuid elf then prepare_exec_cred None None None self
      else
        bind_ok user_ns_owner_uid (\<lambda>owner.
        bind_ok (elf_capabilities elf) (\<lambda>caps.
        let file_capabilities = (case caps of None \<Rightarrow> None | Some fc \<Rightarrow>
              if (case fc_root_uid fc of None \<Rightarrow> Uid_is_root owner | Some root_uid \<Rightarrow> root_uid = owner)
              then Some fc else None) in
        bind_ok (elf_mode_bits elf) (\<lambda>(has_set_uid, has_set_gid).
        bind_ok (if has_set_uid then bind_ok (elf_owner elf) (\<lambda>u. Inr (Some u)) else Inr None) (\<lambda>setuid.
        bind_ok (if has_set_gid then bind_ok (elf_group elf) (\<lambda>g. Inr (Some g)) else Inr None) (\<lambda>setgid.
        prepare_exec_cred file_capabilities setuid setgid self))))))"

end
