(* ===== verification/Cred_Syscalls.thy ===== *)
theory Cred_Syscalls
  imports Credentials
begin

text \<open>
  The system calls on credentials (\<open>kernel/core/src/syscall/\<close>: \<open>setuid.rs\<close>, \<open>setreuid.rs\<close>,
  \<open>setresuid.rs\<close>, \<open>setfsuid.rs\<close>, their group versions, \<open>setgroups.rs\<close>, \<open>capset.rs\<close>, the credential
  commands of \<open>prctl.rs\<close>) and \<open>execve\<close>, as one step function on the credentials of the calling
  thread.
\<close>

section \<open>IDs from registers\<close>

text \<open>An \<open>i32\<close> argument: a negative value stands for ``leave unchanged''.\<close>

definition id_arg :: "32 word \<Rightarrow> 32 word option" where
  "id_arg v = (if sint v \<ge> 0 then Some v else None)"

definition sys_setuid :: "32 word \<Rightarrow> Credentials_ \<Rightarrow> (errno + unit) \<times> Credentials_" where
  "sys_setuid uid self = (if sint uid < 0 then (Inl EINVAL, self) else set_uid uid self)"

definition sys_setreuid :: "32 word \<Rightarrow> 32 word \<Rightarrow> Credentials_ \<Rightarrow> (errno + unit) \<times> Credentials_" where
  "sys_setreuid ruid euid self = set_reuid (id_arg ruid) (id_arg euid) self"

definition sys_setresuid ::
  "32 word \<Rightarrow> 32 word \<Rightarrow> 32 word \<Rightarrow> Credentials_ \<Rightarrow> (errno + unit) \<times> Credentials_" where
  "sys_setresuid ruid euid suid self = set_resuid (id_arg ruid) (id_arg euid) (id_arg suid) self"

text \<open>\<open>setfsuid\<close> and \<open>setfsgid\<close> return the previous ID whether or not they change it.\<close>

definition sys_setfsuid :: "32 word \<Rightarrow> Credentials_ \<Rightarrow> Uid \<times> Credentials_" where
  "sys_setfsuid uid self =
     (let (result, self) = set_fsuid (id_arg uid) self in (case result of Inl old \<Rightarrow> old | Inr old \<Rightarrow> old, self))"

definition sys_setgid :: "32 word \<Rightarrow> Credentials_ \<Rightarrow> (errno + unit) \<times> Credentials_" where
  "sys_setgid gid self = (if sint gid < 0 then (Inl EINVAL, self) else set_gid gid self)"

definition sys_setregid :: "32 word \<Rightarrow> 32 word \<Rightarrow> Credentials_ \<Rightarrow> (errno + unit) \<times> Credentials_" where
  "sys_setregid rgid egid self = set_regid (id_arg rgid) (id_arg egid) self"

definition sys_setresgid ::
  "32 word \<Rightarrow> 32 word \<Rightarrow> 32 word \<Rightarrow> Credentials_ \<Rightarrow> (errno + unit) \<times> Credentials_" where
  "sys_setresgid rgid egid sgid self = set_resgid (id_arg rgid) (id_arg egid) (id_arg sgid) self"

definition sys_setfsgid :: "32 word \<Rightarrow> Credentials_ \<Rightarrow> Gid \<times> Credentials_" where
  "sys_setfsgid gid self =
     (let (result, self) = set_fsgid (id_arg gid) self in (case result of Inl old \<Rightarrow> old | Inr old \<Rightarrow> old, self))"

text \<open>
  \<open>capable\<close> is the answer of the security modules for \<open>CAP_SETGID\<close>; \<open>read_gids\<close> reads the list from
  user memory, of the length given.
\<close>

definition sys_setgroups :: "errno + unit \<Rightarrow> nat \<Rightarrow> (nat \<Rightarrow> errno + Gid list) \<Rightarrow> Credentials_
    \<Rightarrow> (errno + unit) \<times> Credentials_" where
  "sys_setgroups capable n_gids read_gids self =
     (case capable of
        Inl err \<Rightarrow> (Inl err, self)
      | Inr _ \<Rightarrow>
          if n_gids > 65536 then (Inl EINVAL, self)
          else case read_gids n_gids of
            Inl err \<Rightarrow> (Inl err, self)
          | Inr gids \<Rightarrow> (Inr (), self\<lparr>cr_supplementary_gids := set gids\<rparr>))"

section \<open>Capabilities from user memory\<close>

record CUserCapData =
  cd_effective :: "32 word"
  cd_permitted :: "32 word"
  cd_inheritable :: "32 word"

abbreviation LINUX_CAPABILITY_VERSION_3 :: "32 word" where
  "LINUX_CAPABILITY_VERSION_3 \<equiv> 0x20080522"

text \<open>
  \<open>sys_capset\<close> after the header and the two halves of the data were read; \<open>setpcap\<close> is the answer of
  the security modules for \<open>CAP_SETPCAP\<close>.
\<close>

definition sys_capset :: "32 word \<Rightarrow> 32 word \<Rightarrow> 32 word \<Rightarrow> CUserCapData \<Rightarrow> CUserCapData \<Rightarrow> errno + unit
    \<Rightarrow> Credentials_ \<Rightarrow> (errno + unit) \<times> Credentials_" where
  "sys_capset version header_pid tid caps_lo caps_hi setpcap self =
     (if version \<noteq> LINUX_CAPABILITY_VERSION_3 then (Inl EINVAL, self)
      else if header_pid \<noteq> 0 \<and> header_pid \<noteq> tid then (Inl EPERM, self)
      else
        let permitted = CapSet_from_lo_hi (cd_permitted caps_lo) (cd_permitted caps_hi);
            effective = CapSet_from_lo_hi (cd_effective caps_lo) (cd_effective caps_hi);
            inheritable = CapSet_from_lo_hi (cd_inheritable caps_lo) (cd_inheritable caps_hi)
        in
          if \<not> cap_contains (cr_permitted self) permitted then (Inl EPERM, self)
          else if \<not> cap_contains permitted effective then (Inl EPERM, self)
          else case (if \<not> cap_contains (cr_inheritable self OR cr_permitted self) inheritable
                     then setpcap else Inr ()) of
            Inl err \<Rightarrow> (Inl err, self)
          | Inr _ \<Rightarrow>
              if \<not> cap_contains (cr_inheritable self OR cr_bounding self) inheritable then (Inl EPERM, self)
              else (Inr (), set_inheritable_capset inheritable
                      (set_effective_capset effective (set_permitted_capset permitted self))))"

definition sys_capget :: "Credentials_ \<Rightarrow> CUserCapData \<times> CUserCapData" where
  "sys_capget credentials =
     (\<lparr>cd_effective = fst (CapSet_to_lo_hi (cr_effective credentials)),
       cd_permitted = fst (CapSet_to_lo_hi (cr_permitted credentials)),
       cd_inheritable = fst (CapSet_to_lo_hi (cr_inheritable credentials))\<rparr>,
      \<lparr>cd_effective = snd (CapSet_to_lo_hi (cr_effective credentials)),
       cd_permitted = snd (CapSet_to_lo_hi (cr_permitted credentials)),
       cd_inheritable = snd (CapSet_to_lo_hi (cr_inheritable credentials))\<rparr>)"

section \<open>The credential commands of \<open>prctl\<close>\<close>

datatype CapAmbientCmd = IsSet CapSet | Raise CapSet | Lower CapSet | ClearAll

datatype PrctlCmd = PR_GET_KEEPCAPS | PR_SET_KEEPCAPS "32 word"
  | PR_CAPBSET_READ CapSet | PR_CAPBSET_DROP CapSet
  | PR_GET_SECUREBITS | PR_SET_SECUREBITS SecureBits
  | PR_SET_NO_NEW_PRIVS | PR_GET_NO_NEW_PRIVS
  | PR_CAP_AMBIENT CapAmbientCmd

definition parse_capability :: "64 word \<Rightarrow> errno + CapSet" where
  "parse_capability capability =
     (case CapSet_from_capability_number capability of None \<Rightarrow> Inl EINVAL | Some c \<Rightarrow> Inr c)"

definition CapAmbientCmd_from_args ::
  "64 word \<Rightarrow> 64 word \<Rightarrow> 64 word \<Rightarrow> 64 word \<Rightarrow> errno + CapAmbientCmd" where
  "CapAmbientCmd_from_args operation capability arg4 arg5 =
     (if arg4 \<noteq> 0 \<or> arg5 \<noteq> 0 then Inl EINVAL
      else if operation = 1 then bind_ok (parse_capability capability) (\<lambda>c. Inr (IsSet c))
      else if operation = 2 then bind_ok (parse_capability capability) (\<lambda>c. Inr (Raise c))
      else if operation = 3 then bind_ok (parse_capability capability) (\<lambda>c. Inr (Lower c))
      else if operation = 4 then (if capability \<noteq> 0 then Inl EINVAL else Inr ClearAll)
      else Inl EINVAL)"

text \<open>
  The decoding of the credential commands. \<open>None\<close> is a command of another subsystem.
\<close>

definition PrctlCmd_from_args ::
  "int \<Rightarrow> 64 word \<Rightarrow> 64 word \<Rightarrow> 64 word \<Rightarrow> 64 word \<Rightarrow> (errno + PrctlCmd) option" where
  "PrctlCmd_from_args option arg2 arg3 arg4 arg5 =
     (if option = 7 then Some (Inr PR_GET_KEEPCAPS)
      else if option = 8 then Some (Inr (PR_SET_KEEPCAPS (ucast arg2)))
      else if option = 23 then Some (bind_ok (parse_capability arg2) (\<lambda>c. Inr (PR_CAPBSET_READ c)))
      else if option = 24 then Some (bind_ok (parse_capability arg2) (\<lambda>c. Inr (PR_CAPBSET_DROP c)))
      else if option = 27 then Some (Inr PR_GET_SECUREBITS)
      else if option = 28 then
        Some (if unat arg2 \<ge> 2 ^ 16 then Inl EPERM
              else bind_ok (SecureBits_try_from (ucast arg2)) (\<lambda>b. Inr (PR_SET_SECUREBITS b)))
      else if option = 38 then
        Some (if arg2 \<noteq> 1 \<or> arg3 \<noteq> 0 \<or> arg4 \<noteq> 0 \<or> arg5 \<noteq> 0 then Inl EINVAL else Inr PR_SET_NO_NEW_PRIVS)
      else if option = 39 then
        Some (if arg2 \<noteq> 0 \<or> arg3 \<noteq> 0 \<or> arg4 \<noteq> 0 \<or> arg5 \<noteq> 0 then Inl EINVAL else Inr PR_GET_NO_NEW_PRIVS)
      else if option = 47 then
        Some (bind_ok (CapAmbientCmd_from_args arg2 arg3 arg4 arg5) (\<lambda>cmd. Inr (PR_CAP_AMBIENT cmd)))
      else None)"

definition unit_result :: "(errno + unit) \<times> Credentials_ \<Rightarrow> (errno + int) \<times> Credentials_" where
  "unit_result r = (case r of (Inl err, self) \<Rightarrow> (Inl err, self) | (Inr _, self) \<Rightarrow> (Inr 0, self))"

fun sys_prctl :: "PrctlCmd \<Rightarrow> Credentials_ \<Rightarrow> (errno + int) \<times> Credentials_" where
  "sys_prctl PR_GET_KEEPCAPS self =
     (Inr (if SecureBits_keep_capabilities (cr_securebits self) then 1 else 0), self)"
| "sys_prctl (PR_SET_KEEPCAPS keep_cap) self =
     (if keep_cap > 1 then (Inl EINVAL, self) else unit_result (set_keep_capabilities (keep_cap \<noteq> 0) self))"
| "sys_prctl (PR_CAPBSET_READ capability) self =
     (Inr (if cap_contains (cr_bounding self) capability then 1 else 0), self)"
| "sys_prctl (PR_CAPBSET_DROP capability) self = unit_result (drop_bounding_capability capability self)"
| "sys_prctl PR_GET_SECUREBITS self = (Inr (uint (cr_securebits self)), self)"
| "sys_prctl (PR_SET_SECUREBITS securebits) self = unit_result (set_securebits securebits self)"
| "sys_prctl PR_SET_NO_NEW_PRIVS self = (Inr 0, set_no_new_privs self)"
| "sys_prctl PR_GET_NO_NEW_PRIVS self = (Inr (if cr_no_new_privs self then 1 else 0), self)"
| "sys_prctl (PR_CAP_AMBIENT (IsSet capability)) self =
     (Inr (if cap_contains (cr_ambient self) capability then 1 else 0), self)"
| "sys_prctl (PR_CAP_AMBIENT (Raise capability)) self = unit_result (raise_ambient_capability capability self)"
| "sys_prctl (PR_CAP_AMBIENT (Lower capability)) self = (Inr 0, lower_ambient_capability capability self)"
| "sys_prctl (PR_CAP_AMBIENT ClearAll) self = (Inr 0, clear_ambient_capset self)"

text \<open>
  The credential part of \<open>execve\<close>. \<open>Inl\<close> is an error that leaves the credentials as they were; a failure
  of \<open>apply_exec_cred\<close> happens after the point of no return, so the kernel kills the process.
\<close>

datatype exec_result = Exec_refused errno | Exec_done | Exec_killed errno

definition execve_credentials ::
  "ElfFile \<Rightarrow> errno + Uid \<Rightarrow> Credentials_ \<Rightarrow> exec_result \<times> Credentials_" where
  "execve_credentials elf user_ns_owner_uid self =
     (case execve_prepare_exec_cred elf user_ns_owner_uid self of
        Inl err \<Rightarrow> (Exec_refused err, self)
      | Inr exec_cred \<Rightarrow>
          (case apply_exec_cred exec_cred self of
             (Inl err, self) \<Rightarrow> (Exec_killed err, self)
           | (Inr _, self) \<Rightarrow> (Exec_done, self)))"

section \<open>Calls as steps\<close>

datatype cred_call =
    Call_setuid "32 word" | Call_setreuid "32 word" "32 word"
  | Call_setresuid "32 word" "32 word" "32 word" | Call_setfsuid "32 word"
  | Call_setgid "32 word" | Call_setregid "32 word" "32 word"
  | Call_setresgid "32 word" "32 word" "32 word" | Call_setfsgid "32 word"
  | Call_setgroups "errno + unit" nat "nat \<Rightarrow> errno + Gid list"
  | Call_capset "32 word" "32 word" "32 word" CUserCapData CUserCapData "errno + unit"
  | Call_prctl PrctlCmd
  | Call_execve ElfFile "errno + Uid"

fun cred_step :: "cred_call \<Rightarrow> Credentials_ \<Rightarrow> Credentials_" where
  "cred_step (Call_setuid u) c = snd (sys_setuid u c)"
| "cred_step (Call_setreuid r e) c = snd (sys_setreuid r e c)"
| "cred_step (Call_setresuid r e s) c = snd (sys_setresuid r e s c)"
| "cred_step (Call_setfsuid u) c = snd (sys_setfsuid u c)"
| "cred_step (Call_setgid g) c = snd (sys_setgid g c)"
| "cred_step (Call_setregid r e) c = snd (sys_setregid r e c)"
| "cred_step (Call_setresgid r e s) c = snd (sys_setresgid r e s c)"
| "cred_step (Call_setfsgid g) c = snd (sys_setfsgid g c)"
| "cred_step (Call_setgroups cap n f) c = snd (sys_setgroups cap n f c)"
| "cred_step (Call_capset v p t lo hi cap) c = snd (sys_capset v p t lo hi cap c)"
| "cred_step (Call_prctl cmd) c = snd (sys_prctl cmd c)"
| "cred_step (Call_execve elf ns) c = snd (execve_credentials elf ns c)"

fun is_execve :: "cred_call \<Rightarrow> bool" where
  "is_execve (Call_execve elf ns) \<longleftrightarrow> True"
| "is_execve call \<longleftrightarrow> False"

section \<open>What a change of user IDs does\<close>

definition caps_ok :: "Credentials_ \<Rightarrow> bool" where
  "caps_ok c \<longleftrightarrow> cap_contains (cr_permitted c) (cr_effective c)
     \<and> cap_contains (cr_permitted c) (cr_ambient c) \<and> cap_contains (cr_inheritable c) (cr_ambient c)"

definition uids :: "Credentials_ \<Rightarrow> Uid set" where
  "uids c = {cr_ruid c, cr_euid c, cr_suid c, cr_fsuid c}"

text \<open>
  \<open>within old new\<close>: nothing was gained. The permitted set has not grown, locked secure bits are as
  they were, \<open>no_new_privs\<close> has not been cleared, and the bounding set has not grown.
\<close>

definition within :: "Credentials_ \<Rightarrow> Credentials_ \<Rightarrow> bool" where
  "within old new \<longleftrightarrow> cap_contains (cr_permitted old) (cr_permitted new)
     \<and> cap_contains (cr_bounding old) (cr_bounding new)
     \<and> locks_kept (cr_securebits old) (cr_securebits new)
     \<and> (cr_no_new_privs old \<longrightarrow> cr_no_new_privs new)"

lemma within_refl [simp]: "within c c"
  by (simp add: within_def)

lemma within_trans: "within a b \<Longrightarrow> within b c \<Longrightarrow> within a c"
  unfolding within_def using cap_contains_trans locks_kept_trans by blast

lemma set_fsuid_unchecked_fields [simp]:
  "cr_fsuid (set_fsuid_unchecked u c) = u"
  "cr_ruid (set_fsuid_unchecked u c) = cr_ruid c" "cr_euid (set_fsuid_unchecked u c) = cr_euid c"
  "cr_suid (set_fsuid_unchecked u c) = cr_suid c"
  "cr_permitted (set_fsuid_unchecked u c) = cr_permitted c"
  "cr_inheritable (set_fsuid_unchecked u c) = cr_inheritable c"
  "cr_bounding (set_fsuid_unchecked u c) = cr_bounding c"
  "cr_ambient (set_fsuid_unchecked u c) = cr_ambient c"
  "cr_securebits (set_fsuid_unchecked u c) = cr_securebits c"
  "cr_no_new_privs (set_fsuid_unchecked u c) = cr_no_new_privs c"
  by (simp_all add: set_fsuid_unchecked_def Let_def set_effective_capset_def)

lemma set_fsuid_unchecked_effective: "cap_contains (cr_effective c) (cr_effective (set_fsuid_unchecked u c))"
  by (simp add: set_fsuid_unchecked_def Let_def set_effective_capset_def capset_bits)

lemma store_uids_fields [simp]:
  "cr_ruid (store_uids r e s c) = (case r of Some u \<Rightarrow> u | None \<Rightarrow> cr_ruid c)"
  "cr_euid (store_uids r e s c) = (case e of Some u \<Rightarrow> u | None \<Rightarrow> cr_euid c)"
  "cr_suid (store_uids r e s c) = (case s of Some u \<Rightarrow> u | None \<Rightarrow> cr_suid c)"
  "cr_fsuid (store_uids r e s c) = cr_fsuid c"
  "cr_permitted (store_uids r e s c) = cr_permitted c" "cr_effective (store_uids r e s c) = cr_effective c"
  "cr_inheritable (store_uids r e s c) = cr_inheritable c" "cr_bounding (store_uids r e s c) = cr_bounding c"
  "cr_ambient (store_uids r e s c) = cr_ambient c" "cr_securebits (store_uids r e s c) = cr_securebits c"
  "cr_no_new_privs (store_uids r e s c) = cr_no_new_privs c"
  by (simp_all add: store_uids_def)

lemma setuid_fixup_fields [simp]:
  "cr_ruid (setuid_fixup o' c) = cr_ruid c" "cr_euid (setuid_fixup o' c) = cr_euid c"
  "cr_suid (setuid_fixup o' c) = cr_suid c" "cr_fsuid (setuid_fixup o' c) = cr_fsuid c"
  "cr_inheritable (setuid_fixup o' c) = cr_inheritable c" "cr_bounding (setuid_fixup o' c) = cr_bounding c"
  "cr_securebits (setuid_fixup o' c) = cr_securebits c" "cr_no_new_privs (setuid_fixup o' c) = cr_no_new_privs c"
  by (simp_all add: setuid_fixup_def Let_def set_effective_capset_def set_permitted_capset_def
      clear_ambient_capset_def)

lemma setuid_fixup_permitted:
  "cr_permitted (setuid_fixup o' c) = cr_permitted c \<or> cr_permitted (setuid_fixup o' c) = 0"
  by (auto simp: setuid_fixup_def Let_def set_effective_capset_def set_permitted_capset_def
      clear_ambient_capset_def)

lemma setuid_fixup_caps_ok: "caps_ok c \<Longrightarrow> caps_ok (setuid_fixup o' c)"
  by (auto simp: caps_ok_def setuid_fixup_def Let_def set_effective_capset_def set_permitted_capset_def
      clear_ambient_capset_def)

lemma set_resuid_unchecked_fields [simp]:
  "cr_ruid (set_resuid_unchecked r e s c) = (case r of Some u \<Rightarrow> u | None \<Rightarrow> cr_ruid c)"
  "cr_euid (set_resuid_unchecked r e s c) = (case e of Some u \<Rightarrow> u | None \<Rightarrow> cr_euid c)"
  "cr_suid (set_resuid_unchecked r e s c) = (case s of Some u \<Rightarrow> u | None \<Rightarrow> cr_suid c)"
  "cr_fsuid (set_resuid_unchecked r e s c) = (case e of Some u \<Rightarrow> u | None \<Rightarrow> cr_euid c)"
  "cr_inheritable (set_resuid_unchecked r e s c) = cr_inheritable c"
  "cr_bounding (set_resuid_unchecked r e s c) = cr_bounding c"
  "cr_securebits (set_resuid_unchecked r e s c) = cr_securebits c"
  "cr_no_new_privs (set_resuid_unchecked r e s c) = cr_no_new_privs c"
  by (simp_all add: set_resuid_unchecked_def Let_def)

lemma caps_ok_fsuid: "caps_ok c \<Longrightarrow> caps_ok (set_fsuid_unchecked u c)"
  using set_fsuid_unchecked_effective [of c u] cap_contains_trans by (auto simp: caps_ok_def)

lemma caps_ok_resuid: "caps_ok c \<Longrightarrow> caps_ok (set_resuid_unchecked r e s c)"
proof -
  assume "caps_ok c"
  then have "caps_ok (store_uids r e s c)" by (simp add: caps_ok_def)
  then show ?thesis by (simp add: set_resuid_unchecked_def Let_def caps_ok_fsuid setuid_fixup_caps_ok)
qed

lemma within_resuid: "within c (set_resuid_unchecked r e s c)"
proof -
  have "cap_contains (cr_permitted c) (cr_permitted (set_resuid_unchecked r e s c))"
    using setuid_fixup_permitted [of c "set_fsuid_unchecked (cr_euid (store_uids r e s c)) (store_uids r e s c)"]
    by (auto simp: set_resuid_unchecked_def Let_def)
  then show ?thesis by (simp add: within_def)
qed


section \<open>What every other call does\<close>

definition gids :: "Credentials_ \<Rightarrow> Gid set" where
  "gids c = {cr_rgid c, cr_egid c, cr_sgid c, cr_fsgid c}"

text \<open>\<open>same_caps\<close>: nothing but IDs and groups differs.\<close>

definition same_caps :: "Credentials_ \<Rightarrow> Credentials_ \<Rightarrow> bool" where
  "same_caps c d \<longleftrightarrow> cr_permitted d = cr_permitted c \<and> cr_effective d = cr_effective c
     \<and> cr_inheritable d = cr_inheritable c \<and> cr_bounding d = cr_bounding c
     \<and> cr_ambient d = cr_ambient c \<and> cr_securebits d = cr_securebits c
     \<and> cr_no_new_privs d = cr_no_new_privs c \<and> uids d = uids c"

lemma same_caps_refl [simp]: "same_caps c c"
  by (simp add: same_caps_def)

lemma same_caps_ok: "same_caps c d \<Longrightarrow> caps_ok c \<Longrightarrow> caps_ok d"
  by (simp add: same_caps_def caps_ok_def)

lemma same_caps_within: "same_caps c d \<Longrightarrow> within c d"
  by (simp add: same_caps_def within_def)

lemma same_caps_resgid [simp]: "same_caps c (set_resgid_unchecked r e s c)"
  by (simp add: same_caps_def set_resgid_unchecked_def set_fsgid_unchecked_def uids_def Let_def
      split: option.splits)

lemma group_calls_same_caps:
  "same_caps c (snd (sys_setgid g c))" "same_caps c (snd (sys_setregid g g' c))"
  "same_caps c (snd (sys_setresgid g g' g'' c))" "same_caps c (snd (sys_setfsgid g c))"
  "same_caps c (snd (sys_setgroups cap n f c))"
  by (auto simp: sys_setgid_def set_gid_def set_resgid_def sys_setregid_def set_regid_def
      sys_setresgid_def sys_setfsgid_def set_fsgid_def set_fsgid_unchecked_def sys_setgroups_def
      same_caps_def [of _ "_\<lparr>cr_fsgid := _\<rparr>"] same_caps_def [of _ "_\<lparr>cr_supplementary_gids := _\<rparr>"]
      uids_def Let_def split: sum.splits option.splits)

lemma snd_setfs [simp]:
  "snd (sys_setfsuid u c) = snd (set_fsuid (id_arg u) c)"
  "snd (sys_setfsgid u c) = snd (set_fsgid (id_arg u) c)"
  by (simp_all add: sys_setfsuid_def sys_setfsgid_def split_beta)

text \<open>The user-ID calls change the credentials through \<open>set_resuid_unchecked\<close> or \<open>set_fsuid_unchecked\<close>.\<close>

lemma uid_calls_cases:
  assumes "call = Call_setuid u \<or> call = Call_setreuid u u' \<or> call = Call_setresuid u u' u''
    \<or> call = Call_setfsuid u"
  shows "cred_step call c = c \<or> (\<exists>r e s. cred_step call c = set_resuid_unchecked r e s c)
    \<or> (\<exists>f. cred_step call c = set_fsuid_unchecked f c)"
  using assms
proof (elim disjE)
  assume "call = Call_setuid u"
  then show ?thesis
    by (auto simp: sys_setuid_def set_uid_def set_resuid_def split: sum.splits)
next
  assume "call = Call_setreuid u u'"
  then show ?thesis by (auto simp: sys_setreuid_def set_reuid_def Let_def split: sum.splits)
next
  assume "call = Call_setresuid u u' u''"
  then show ?thesis by (auto simp: sys_setresuid_def set_resuid_def split: sum.splits)
next
  assume "call = Call_setfsuid u"
  then show ?thesis by (cases "id_arg u") (auto simp: set_fsuid_def Let_def)
qed

lemma within_fsuid: "within c (set_fsuid_unchecked u c)"
  by (simp add: within_def)

lemma store_securebits_step:
  "caps_ok c \<Longrightarrow> caps_ok (snd (store_securebits b c))" "within c (snd (store_securebits b c))"
  "uids (snd (store_securebits b c)) = uids c"
  "locks_kept (cr_securebits c) (cr_securebits (snd (store_securebits b c)))"
  "cr_permitted (snd (store_securebits b c)) = cr_permitted c"
  "cr_no_new_privs (snd (store_securebits b c)) = cr_no_new_privs c"
proof -
  have shape: "snd (store_securebits b c) = c \<or> (\<exists>b'. snd (store_securebits b c) = c\<lparr>cr_securebits := b'\<rparr>
      \<and> locks_kept (cr_securebits c) b')"
    using try_store_locks by (auto simp: store_securebits_def split: sum.splits)
  then show "caps_ok c \<Longrightarrow> caps_ok (snd (store_securebits b c))" by (auto simp: caps_ok_def)
  show "within c (snd (store_securebits b c))" using shape by (auto simp: within_def)
  show "uids (snd (store_securebits b c)) = uids c" using shape by (auto simp: uids_def)
  show "locks_kept (cr_securebits c) (cr_securebits (snd (store_securebits b c)))" using shape by auto
  show "cr_permitted (snd (store_securebits b c)) = cr_permitted c" using shape by auto
  show "cr_no_new_privs (snd (store_securebits b c)) = cr_no_new_privs c" using shape by auto
qed

lemma snd_unit_result [simp]: "snd (unit_result r) = snd r"
  by (auto simp: unit_result_def split: prod.splits sum.splits)

text \<open>\<open>benign c d\<close>: the IDs are the same, nothing was gained and the sets stay consistent.\<close>

definition benign :: "Credentials_ \<Rightarrow> Credentials_ \<Rightarrow> bool" where
  "benign c d \<longleftrightarrow> (caps_ok c \<longrightarrow> caps_ok d) \<and> within c d \<and> uids d = uids c \<and> gids d = gids c"

lemma benign_refl [simp]: "benign c c"
  by (simp add: benign_def)

lemma benign_securebits: "benign c (snd (store_securebits b c))"
proof -
  have "gids (snd (store_securebits b c)) = gids c"
    by (simp add: gids_def store_securebits_def split: sum.splits)
  then show ?thesis using store_securebits_step by (simp add: benign_def)
qed

lemma benign_no_new_privs: "benign c (set_no_new_privs c)"
  by (simp add: benign_def set_no_new_privs_def caps_ok_def within_def uids_def gids_def)

lemma benign_bounding: "benign c (snd (drop_bounding_capability cap c))"
  by (simp add: benign_def drop_bounding_capability_def caps_ok_def within_def uids_def gids_def)
    (simp add: capset_bits)

lemma benign_ambient:
  assumes "\<And>n. bit a n \<Longrightarrow> bit (cr_ambient c) n \<or> bit (cr_permitted c) n \<and> bit (cr_inheritable c) n"
  shows "benign c (c\<lparr>cr_ambient := a\<rparr>)"
  using assms by (auto simp: benign_def caps_ok_def within_def uids_def gids_def cap_contains_iff)

lemma benign_raise: "benign c (snd (raise_ambient_capability cap c))"
proof (cases "cap_contains (cr_permitted c) cap \<and> cap_contains (cr_inheritable c) cap")
  case True
  then have "benign c (c\<lparr>cr_ambient := cr_ambient c OR cap\<rparr>)"
    by (intro benign_ambient) (auto simp: capset_bits)
  then show ?thesis by (simp add: raise_ambient_capability_def)
next
  case False
  then show ?thesis by (auto simp: raise_ambient_capability_def)
qed

lemma benign_lower: "benign c (lower_ambient_capability cap c)"
  unfolding lower_ambient_capability_def by (rule benign_ambient) (simp add: capset_bits)

lemma benign_clear: "benign c (clear_ambient_capset c)"
  unfolding clear_ambient_capset_def by (rule benign_ambient) simp

lemma prctl_step: "benign c (snd (sys_prctl cmd c))"
proof (cases cmd)
  case (PR_CAP_AMBIENT a)
  then show ?thesis by (cases a) (simp_all add: benign_raise benign_lower benign_clear)
qed (simp_all add: benign_securebits benign_bounding benign_no_new_privs set_keep_capabilities_def
    set_securebits_def Let_def)

lemma capset_step: "benign c (snd (sys_capset v p t lo hi cap c))"
proof -
  have "benign c (set_inheritable_capset i (set_effective_capset e (set_permitted_capset q c)))"
    if "cap_contains (cr_permitted c) q" "cap_contains q e" for i e q
    using that
    by (auto simp: benign_def set_inheritable_capset_def set_effective_capset_def set_permitted_capset_def
        caps_ok_def within_def uids_def gids_def cap_contains_iff bit_and_iff Let_def)
  then show ?thesis by (simp add: sys_capset_def Let_def split: sum.splits)
qed

end
