(* ===== verification/Cred_Invariants.thy ===== *)
theory Cred_Invariants
  imports Cred_Syscalls
begin

text \<open>
  What holds of the credentials of a thread over every sequence of credential system calls and
  program executions.
\<close>

section \<open>Program execution\<close>

lemma snd_store_securebits_frame [simp]:
  "cr_ruid (snd (store_securebits b c)) = cr_ruid c" "cr_euid (snd (store_securebits b c)) = cr_euid c"
  "cr_suid (snd (store_securebits b c)) = cr_suid c" "cr_fsuid (snd (store_securebits b c)) = cr_fsuid c"
  "cr_rgid (snd (store_securebits b c)) = cr_rgid c" "cr_egid (snd (store_securebits b c)) = cr_egid c"
  "cr_sgid (snd (store_securebits b c)) = cr_sgid c" "cr_fsgid (snd (store_securebits b c)) = cr_fsgid c"
  "cr_permitted (snd (store_securebits b c)) = cr_permitted c"
  "cr_effective (snd (store_securebits b c)) = cr_effective c"
  "cr_inheritable (snd (store_securebits b c)) = cr_inheritable c"
  "cr_bounding (snd (store_securebits b c)) = cr_bounding c"
  "cr_ambient (snd (store_securebits b c)) = cr_ambient c"
  "cr_no_new_privs (snd (store_securebits b c)) = cr_no_new_privs c"
  by (simp_all add: store_securebits_def split: sum.splits)

lemma uid_parts_gids [simp]:
  "cr_rgid (set_fsuid_unchecked u c) = cr_rgid c" "cr_egid (set_fsuid_unchecked u c) = cr_egid c" "cr_sgid (set_fsuid_unchecked u c) = cr_sgid c" "cr_fsgid (set_fsuid_unchecked u c) = cr_fsgid c"
  "cr_rgid (store_uids r e s c) = cr_rgid c" "cr_egid (store_uids r e s c) = cr_egid c" "cr_sgid (store_uids r e s c) = cr_sgid c" "cr_fsgid (store_uids r e s c) = cr_fsgid c"
  "cr_rgid (setuid_fixup old c) = cr_rgid c" "cr_egid (setuid_fixup old c) = cr_egid c" "cr_sgid (setuid_fixup old c) = cr_sgid c" "cr_fsgid (setuid_fixup old c) = cr_fsgid c"
  by (simp_all add: set_fsuid_unchecked_def store_uids_def setuid_fixup_def set_effective_capset_def
      set_permitted_capset_def clear_ambient_capset_def Let_def)

lemma set_resuid_unchecked_gids [simp]:
  "cr_rgid (set_resuid_unchecked r e s c) = cr_rgid c" "cr_egid (set_resuid_unchecked r e s c) = cr_egid c"
  "cr_sgid (set_resuid_unchecked r e s c) = cr_sgid c" "cr_fsgid (set_resuid_unchecked r e s c) = cr_fsgid c"
  by (simp_all add: set_resuid_unchecked_def Let_def)

lemma set_resgid_unchecked_fields [simp]:
  "cr_rgid (set_resgid_unchecked r e s c) = (case r of Some g \<Rightarrow> g | None \<Rightarrow> cr_rgid c)"
  "cr_egid (set_resgid_unchecked r e s c) = (case e of Some g \<Rightarrow> g | None \<Rightarrow> cr_egid c)"
  "cr_sgid (set_resgid_unchecked r e s c) = (case s of Some g \<Rightarrow> g | None \<Rightarrow> cr_sgid c)"
  "cr_fsgid (set_resgid_unchecked r e s c) = (case e of Some g \<Rightarrow> g | None \<Rightarrow> cr_egid c)"
  "cr_ruid (set_resgid_unchecked r e s c) = cr_ruid c" "cr_euid (set_resgid_unchecked r e s c) = cr_euid c"
  "cr_suid (set_resgid_unchecked r e s c) = cr_suid c" "cr_fsuid (set_resgid_unchecked r e s c) = cr_fsuid c"
  "cr_inheritable (set_resgid_unchecked r e s c) = cr_inheritable c"
  "cr_bounding (set_resgid_unchecked r e s c) = cr_bounding c"
  "cr_securebits (set_resgid_unchecked r e s c) = cr_securebits c"
  "cr_no_new_privs (set_resgid_unchecked r e s c) = cr_no_new_privs c"
  by (simp_all add: set_resgid_unchecked_def set_fsgid_unchecked_def Let_def split: option.splits)

lemma apply_exec_fields:
  "cr_permitted (snd (apply_exec_cred ec c)) = ec_permitted ec"
  "cr_effective (snd (apply_exec_cred ec c)) = ec_effective ec"
  "cr_ambient (snd (apply_exec_cred ec c)) = ec_ambient ec"
  "cr_inheritable (snd (apply_exec_cred ec c)) = cr_inheritable c"
  "cr_bounding (snd (apply_exec_cred ec c)) = cr_bounding c"
  "cr_no_new_privs (snd (apply_exec_cred ec c)) = cr_no_new_privs c"
  "cr_ruid (snd (apply_exec_cred ec c)) = cr_ruid c" "cr_rgid (snd (apply_exec_cred ec c)) = cr_rgid c"
  "cr_euid (snd (apply_exec_cred ec c)) = (case ec_setuid ec of Some u \<Rightarrow> u | None \<Rightarrow> cr_euid c)"
  "cr_egid (snd (apply_exec_cred ec c)) = (case ec_setgid ec of Some g \<Rightarrow> g | None \<Rightarrow> cr_egid c)"
  "cr_suid (snd (apply_exec_cred ec c)) = cr_euid (snd (apply_exec_cred ec c))"
  "cr_fsuid (snd (apply_exec_cred ec c)) = cr_euid (snd (apply_exec_cred ec c))"
  "cr_sgid (snd (apply_exec_cred ec c)) = cr_egid (snd (apply_exec_cred ec c))"
  "cr_fsgid (snd (apply_exec_cred ec c)) = cr_egid (snd (apply_exec_cred ec c))"
  by (cases "ec_setuid ec"; cases "ec_setgid ec";
      simp add: apply_exec_cred_def set_keep_capabilities_def set_permitted_capset_def
        set_effective_capset_def set_suid_def set_sgid_def set_euid_def set_egid_def Let_def)+

lemma apply_exec_shape:
  "\<exists>d. apply_exec_cred ec c = set_keep_capabilities False d \<and> cr_securebits d = cr_securebits c"
  unfolding apply_exec_cred_def Let_def
  by (rule exI, rule conjI, rule refl)
    (simp add: set_permitted_capset_def set_effective_capset_def set_suid_def set_sgid_def set_euid_def
      set_egid_def Let_def split: option.splits)

lemma apply_exec_locks: "locks_kept (cr_securebits c) (cr_securebits (snd (apply_exec_cred ec c)))"
proof -
  obtain d where "apply_exec_cred ec c = set_keep_capabilities False d" "cr_securebits d = cr_securebits c"
    using apply_exec_shape by blast
  then show ?thesis
    using store_securebits_step(4) [of d] by (simp add: set_keep_capabilities_def Let_def)
qed

lemma exec_capsets:
  assumes "calculate_capsets_for_exec fc nnp u g c = Inr (p, e, a)" "caps_ok c"
  shows "cap_contains p e" "cap_contains p a" "cap_contains (cr_inheritable c) a"
    "nnp \<Longrightarrow> cap_contains (cr_permitted c) p"
proof -
  obtain fp fi fe where sets: "exec_file_sets fc u c = (fp, fi, fe)" by (cases "exec_file_sets fc u c")
  have a: "a = 0 \<or> a = cr_ambient c"
    and p: "p = (if nnp then ((cr_inheritable c AND fi) OR (fp AND cr_bounding c) OR a) AND cr_permitted c
        else (cr_inheritable c AND fi) OR (fp AND cr_bounding c) OR a)"
    and e: "e = (fe AND p) OR (cap_not fe AND a)"
    using assms(1)
    by (auto simp: calculate_capsets_for_exec_def sets Let_def exec_ambient_def split: if_splits)
  have amb: "\<And>n. bit a n \<Longrightarrow> bit (cr_permitted c) n \<and> bit (cr_inheritable c) n"
    using a assms(2) by (auto simp: caps_ok_def cap_contains_iff)
  show pa: "cap_contains p a" using amb p by (auto simp: capset_bits)
  show "cap_contains p e" using pa e by (auto simp: capset_bits)
  show "cap_contains (cr_inheritable c) a" using amb by (auto simp: capset_bits)
  show "cap_contains (cr_permitted c) p" if nnp using that p by (auto simp: capset_bits)
qed


lemma exec_caps_ok: "caps_ok c \<Longrightarrow> caps_ok (snd (execve_credentials elf ns c))"
  and exec_within: "caps_ok c \<Longrightarrow> cr_no_new_privs c \<Longrightarrow> within c (snd (execve_credentials elf ns c))"
  and exec_locks: "locks_kept (cr_securebits c) (cr_securebits (snd (execve_credentials elf ns c)))"
  and exec_bounding: "cr_bounding (snd (execve_credentials elf ns c)) = cr_bounding c"
  and exec_uids: "cr_no_new_privs c \<Longrightarrow> uids (snd (execve_credentials elf ns c)) \<subseteq> uids c"
  and exec_gids: "cr_no_new_privs c \<Longrightarrow> gids (snd (execve_credentials elf ns c)) \<subseteq> gids c"
proof -
  have "(caps_ok c \<longrightarrow> caps_ok (snd (execve_credentials elf ns c)))
    \<and> (caps_ok c \<longrightarrow> cr_no_new_privs c \<longrightarrow> within c (snd (execve_credentials elf ns c)))
    \<and> locks_kept (cr_securebits c) (cr_securebits (snd (execve_credentials elf ns c)))
    \<and> cr_bounding (snd (execve_credentials elf ns c)) = cr_bounding c
    \<and> (cr_no_new_privs c \<longrightarrow> uids (snd (execve_credentials elf ns c)) \<subseteq> uids c)
    \<and> (cr_no_new_privs c \<longrightarrow> gids (snd (execve_credentials elf ns c)) \<subseteq> gids c)"
  proof (cases "execve_prepare_exec_cred elf ns c")
    case (Inl err)
    then show ?thesis by (simp add: execve_credentials_def)
  next
    case (Inr ec)
    then have snd: "snd (execve_credentials elf ns c) = snd (apply_exec_cred ec c)"
      by (simp add: execve_credentials_def split: prod.splits sum.splits)
    obtain fc su sg where prep: "prepare_exec_cred fc su sg c = Inr ec"
      using Inr by (auto simp: execve_prepare_exec_cred_def bind_ok_Inr_iff Let_def split: if_splits)
    then obtain u g where calc: "calculate_capsets_for_exec fc (cr_no_new_privs c) u g c
          = Inr (ec_permitted ec, ec_effective ec, ec_ambient ec)"
      and none: "cr_no_new_privs c \<longrightarrow> ec_setuid ec = None \<and> ec_setgid ec = None"
      by (auto simp: prepare_exec_cred_def bind_ok_Inr_iff Let_def)
    show ?thesis
      unfolding snd using exec_capsets [OF calc] apply_exec_locks none
      by (auto simp: caps_ok_def within_def uids_def gids_def apply_exec_fields)
  qed
  then show "caps_ok c \<Longrightarrow> caps_ok (snd (execve_credentials elf ns c))"
    and "caps_ok c \<Longrightarrow> cr_no_new_privs c \<Longrightarrow> within c (snd (execve_credentials elf ns c))"
    and "locks_kept (cr_securebits c) (cr_securebits (snd (execve_credentials elf ns c)))"
    and "cr_bounding (snd (execve_credentials elf ns c)) = cr_bounding c"
    and "cr_no_new_privs c \<Longrightarrow> uids (snd (execve_credentials elf ns c)) \<subseteq> uids c"
    and "cr_no_new_privs c \<Longrightarrow> gids (snd (execve_credentials elf ns c)) \<subseteq> gids c"
    by blast+
qed


section \<open>One step\<close>

lemma step_cases:
  assumes "\<not> is_execve call"
  obtains (benign) "benign c (cred_step call c)"
    | (groups) "same_caps c (cred_step call c)"
    | (resuid) r e s where "cred_step call c = set_resuid_unchecked r e s c"
    | (fsuid) f where "cred_step call c = set_fsuid_unchecked f c"
proof (cases "\<exists>u u' u''. call = Call_setuid u \<or> call = Call_setreuid u u' \<or> call = Call_setresuid u u' u''
    \<or> call = Call_setfsuid u")
  case True
  then obtain u u' u'' where "call = Call_setuid u \<or> call = Call_setreuid u u'
    \<or> call = Call_setresuid u u' u'' \<or> call = Call_setfsuid u" by blast
  from uid_calls_cases [OF this, of c] show thesis
  proof (elim disjE exE)
    assume "cred_step call c = c"
    then show thesis using benign by simp
  qed (fact resuid fsuid)+
next
  case False
  have "benign c (cred_step call c) \<or> same_caps c (cred_step call c)"
    using False assms group_calls_same_caps capset_step prctl_step
    by (cases call) (simp_all del: snd_setfs)
  then show thesis using benign groups by blast
qed

lemma step_caps_ok: "caps_ok c \<Longrightarrow> caps_ok (cred_step call c)"
proof (cases "is_execve call")
  case True
  then show "caps_ok c \<Longrightarrow> ?thesis" using exec_caps_ok by (cases call) auto
next
  case False
  then show "caps_ok c \<Longrightarrow> ?thesis"
    by (cases rule: step_cases [of call c])
      (simp_all add: benign_def same_caps_ok caps_ok_resuid caps_ok_fsuid)
qed

lemma step_within: "\<not> is_execve call \<Longrightarrow> within c (cred_step call c)"
  by (cases rule: step_cases [of call c])
    (simp_all add: benign_def same_caps_within within_resuid within_fsuid)

lemma step_locks: "locks_kept (cr_securebits c) (cr_securebits (cred_step call c))"
proof (cases "is_execve call")
  case True
  then show ?thesis using exec_locks by (cases call) auto
next
  case False
  then show ?thesis using step_within [of call c] by (simp add: within_def)
qed

text \<open>Without \<open>CAP_SETUID\<close> an ID can only become one that the thread already has.\<close>

lemma check_uid_perm_confines:
  assumes "check_uid_perm r e s b c = Inr v" "\<not> cap_contains (cr_effective c) CAP_SETUID"
  shows "set_option r \<union> set_option e \<union> set_option s \<subseteq> uids c"
  using assms by (auto simp: check_uid_perm_def uids_def Let_def split: if_splits option.splits)

lemma resuid_confines:
  "set_option r \<union> set_option e \<union> set_option s \<subseteq> uids c \<Longrightarrow> uids (set_resuid_unchecked r e s c) \<subseteq> uids c"
  by (auto simp: uids_def split: option.splits)

lemma check_gid_perm_confines:
  assumes "check_gid_perm r e s b c = Inr v" "\<not> cap_contains (cr_effective c) CAP_SETGID"
  shows "set_option r \<union> set_option e \<union> set_option s \<subseteq> gids c"
  using assms by (auto simp: check_gid_perm_def gids_def Let_def split: if_splits option.splits)

lemma resgid_confines:
  "set_option r \<union> set_option e \<union> set_option s \<subseteq> gids c \<Longrightarrow> gids (set_resgid_unchecked r e s c) \<subseteq> gids c"
  by (auto simp: gids_def split: option.splits)


lemma step_uids:
  assumes "\<not> is_execve call" "\<not> cap_contains (cr_effective c) CAP_SETUID"
  shows "uids (cred_step call c) \<subseteq> uids c"
proof (cases call)
  case (Call_setuid u)
  then show ?thesis
    using assms check_uid_perm_confines [of None "Some u" None True c] resuid_confines [of None "Some u" None c]
    by (auto simp: sys_setuid_def set_uid_def set_resuid_def split: sum.splits)
next
  case (Call_setreuid r e)
  let ?s = "if id_arg r \<noteq> None \<or> (case id_arg e of None \<Rightarrow> False | Some e \<Rightarrow> e \<noteq> cr_ruid c)
    then Some (case id_arg e of Some e \<Rightarrow> e | None \<Rightarrow> cr_euid c) else None"
  have "uids (set_resuid_unchecked (id_arg r) (id_arg e) ?s c) \<subseteq> uids c"
    if "check_uid_perm (id_arg r) (id_arg e) None False c = Inr v" for v
    using check_uid_perm_confines [OF that assms(2)]
    by (intro resuid_confines) (auto simp: uids_def split: option.splits)
  then show ?thesis using Call_setreuid by (simp add: sys_setreuid_def set_reuid_def Let_def split: sum.splits)
next
  case (Call_setresuid r e s)
  then show ?thesis
    using assms check_uid_perm_confines [of "id_arg r" "id_arg e" "id_arg s" True c]
      resuid_confines [of "id_arg r" "id_arg e" "id_arg s" c]
    by (simp add: sys_setresuid_def set_resuid_def split: sum.splits)
next
  case (Call_setfsuid u)
  then show ?thesis using assms(2)
    by (cases "id_arg u") (auto simp: set_fsuid_def Let_def uids_def)
next
  case (Call_capset v p t lo hi cap)
  then show ?thesis using capset_step by (simp add: benign_def)
next
  case (Call_prctl cmd)
  then show ?thesis using prctl_step by (simp add: benign_def)
next
  case (Call_execve elf ns)
  then show ?thesis using assms(1) by simp
qed (use group_calls_same_caps in \<open>simp_all add: same_caps_def\<close>)

lemma uid_ops_gids [simp]:
  "gids (set_resuid_unchecked r e s c) = gids c" "gids (set_fsuid_unchecked u c) = gids c"
  by (simp_all add: gids_def)

lemma step_gids:
  assumes "\<not> is_execve call" "\<not> cap_contains (cr_effective c) CAP_SETGID"
  shows "gids (cred_step call c) \<subseteq> gids c"
proof (cases call)
  case (Call_setgid g)
  then show ?thesis
    using assms check_gid_perm_confines [of None "Some g" None True c] resgid_confines [of None "Some g" None c]
    by (auto simp: sys_setgid_def set_gid_def set_resgid_def split: sum.splits)
next
  case (Call_setregid r e)
  let ?s = "if id_arg r \<noteq> None \<or> (case id_arg e of None \<Rightarrow> False | Some e \<Rightarrow> e \<noteq> cr_rgid c)
    then Some (case id_arg e of Some e \<Rightarrow> e | None \<Rightarrow> cr_egid c) else None"
  have "gids (set_resgid_unchecked (id_arg r) (id_arg e) ?s c) \<subseteq> gids c"
    if "check_gid_perm (id_arg r) (id_arg e) None False c = Inr v" for v
    using check_gid_perm_confines [OF that assms(2)]
    by (intro resgid_confines) (auto simp: gids_def split: option.splits)
  then show ?thesis using Call_setregid by (simp add: sys_setregid_def set_regid_def Let_def split: sum.splits)
next
  case (Call_setresgid r e s)
  then show ?thesis
    using assms check_gid_perm_confines [of "id_arg r" "id_arg e" "id_arg s" True c]
      resgid_confines [of "id_arg r" "id_arg e" "id_arg s" c]
    by (simp add: sys_setresgid_def set_resgid_def split: sum.splits)
next
  case (Call_setfsgid g)
  then show ?thesis using assms(2)
    by (cases "id_arg g") (auto simp: set_fsgid_def set_fsgid_unchecked_def Let_def gids_def)
next
  case (Call_capset v p t lo hi cap)
  then show ?thesis using capset_step by (simp add: benign_def)
next
  case (Call_prctl cmd)
  then show ?thesis using prctl_step by (simp add: benign_def)
next
  case (Call_execve elf ns)
  then show ?thesis using assms(1) by simp
next
  case (Call_setgroups cap n f)
  then show ?thesis by (simp add: sys_setgroups_def gids_def split: sum.splits)
next
  case (Call_setuid u)
  then show ?thesis using uid_calls_cases [of call u u u c] by auto
next
  case (Call_setreuid u u')
  then show ?thesis using uid_calls_cases [of call u u' u c] by auto
next
  case (Call_setresuid u u' u'')
  then show ?thesis using uid_calls_cases [of call u u' u'' c] by auto
next
  case (Call_setfsuid u)
  then show ?thesis using uid_calls_cases [of call u u u c] by auto
qed

section \<open>Sequences of calls\<close>

abbreviation run_calls :: "cred_call list \<Rightarrow> Credentials_ \<Rightarrow> Credentials_" where
  "run_calls calls c \<equiv> fold cred_step calls c"

lemma run_caps_ok: "caps_ok c \<Longrightarrow> caps_ok (run_calls calls c)"
  by (induction calls arbitrary: c) (simp_all add: step_caps_ok)

lemma lacks_effective: "caps_ok c \<Longrightarrow> \<not> cap_contains (cr_permitted c) x \<Longrightarrow> \<not> cap_contains (cr_effective c) x"
  unfolding caps_ok_def using cap_contains_trans by blast

lemma guarded_step:
  assumes "caps_ok c" "is_execve call \<longrightarrow> cr_no_new_privs c"
  shows "within c (cred_step call c)
    \<and> (\<not> cap_contains (cr_permitted c) CAP_SETUID \<longrightarrow> uids (cred_step call c) \<subseteq> uids c)
    \<and> (\<not> cap_contains (cr_permitted c) CAP_SETGID \<longrightarrow> gids (cred_step call c) \<subseteq> gids c)"
proof (cases "is_execve call")
  case True
  then obtain elf ns where "call = Call_execve elf ns" by (cases call) auto
  then show ?thesis using True assms exec_within exec_uids exec_gids by simp
next
  case False
  then show ?thesis using step_within step_uids step_gids lacks_effective [OF assms(1)] by simp
qed

lemma run_confined:
  assumes "caps_ok c" "cr_no_new_privs c \<or> (\<forall>call \<in> set calls. \<not> is_execve call)"
  shows "within c (run_calls calls c)
    \<and> (\<not> cap_contains (cr_permitted c) CAP_SETUID \<longrightarrow> uids (run_calls calls c) \<subseteq> uids c)
    \<and> (\<not> cap_contains (cr_permitted c) CAP_SETGID \<longrightarrow> gids (run_calls calls c) \<subseteq> gids c)"
  using assms
proof (induction calls arbitrary: c)
  case (Cons call calls)
  let ?d = "cred_step call c"
  have step: "within c ?d" "\<not> cap_contains (cr_permitted c) CAP_SETUID \<longrightarrow> uids ?d \<subseteq> uids c"
    "\<not> cap_contains (cr_permitted c) CAP_SETGID \<longrightarrow> gids ?d \<subseteq> gids c"
    using guarded_step [OF Cons.prems(1), of call] Cons.prems(2) by auto
  then have "cr_no_new_privs ?d \<or> (\<forall>call \<in> set calls. \<not> is_execve call)"
    using Cons.prems(2) by (auto simp: within_def)
  from Cons.IH [OF step_caps_ok [OF Cons.prems(1)] this] step
  have IH: "within ?d (run_calls calls ?d)"
    "\<not> cap_contains (cr_permitted ?d) CAP_SETUID \<longrightarrow> uids (run_calls calls ?d) \<subseteq> uids ?d"
    "\<not> cap_contains (cr_permitted ?d) CAP_SETGID \<longrightarrow> gids (run_calls calls ?d) \<subseteq> gids ?d" by blast+
  moreover have "\<not> cap_contains (cr_permitted ?d) x" if "\<not> cap_contains (cr_permitted c) x" for x
    using that step(1) cap_contains_trans unfolding within_def by blast
  ultimately show ?case using step within_trans by simp blast
qed simp


section \<open>Properties\<close>

text \<open>
  C13. After any sequence of credential system calls and program executions, starting from new
  credentials, the effective set is within the permitted set and the ambient set is within both
  the permitted and the inheritable set.
\<close>

theorem capability_sets_consistent:
  "caps_ok (run_calls calls (Credentials_new uid gid capset))"
  by (rule run_caps_ok) (simp add: caps_ok_def Credentials_new_def)

text \<open>
  C3. No privilege is gained without \<open>execve\<close>, and none at all once \<open>no_new_privs\<close> is set: over any
  such sequence the permitted and the bounding set do not grow, \<open>no_new_privs\<close> stays set, and a
  thread without \<open>CAP_SETUID\<close> (\<open>CAP_SETGID\<close>) in its permitted set only ever has the user (group) IDs
  it started with.
\<close>

theorem no_privilege_gained:
  assumes "caps_ok c" "cr_no_new_privs c \<or> (\<forall>call \<in> set calls. \<not> is_execve call)"
  shows "within c (run_calls calls c)
    \<and> (\<not> cap_contains (cr_permitted c) CAP_SETUID \<longrightarrow> uids (run_calls calls c) \<subseteq> uids c)
    \<and> (\<not> cap_contains (cr_permitted c) CAP_SETGID \<longrightarrow> gids (run_calls calls c) \<subseteq> gids c)"
  by (rule run_confined [OF assms])

text \<open>
  C14. Locked secure bits are locked for good: over any sequence of calls and executions a lock
  bit that is set stays set and the bit it protects keeps its value.
\<close>

theorem secure_bits_stay_locked:
  "locks_kept (cr_securebits c) (cr_securebits (run_calls calls c))"
proof (induction calls arbitrary: c)
  case (Cons call calls)
  have "locks_kept (cr_securebits (cred_step call c)) (cr_securebits (run_calls calls (cred_step call c)))"
    by (rule Cons.IH)
  from locks_kept_trans [OF step_locks this] show ?case by simp
qed simp

lemma drop_keep_caps:
  assumes "\<not> (bit (cr_securebits c) 4 \<and> bit (cr_securebits c) 5)"
  shows "set_keep_capabilities False c = (Inr (), c\<lparr>cr_securebits := cr_securebits c AND NOT KEEP_CAPS\<rparr>)"
proof -
  let ?b = "cr_securebits c"
  have k: "bit KEEP_CAPS i \<longleftrightarrow> i = 4" for i by (subst bit_push_bit_iff) (auto simp: bit_1_iff)
  have "SecureBits_locked_bits ?b AND ?b = SecureBits_locked_bits ?b AND (?b AND NOT KEEP_CAPS)"
    by (rule bit_word_eqI, unfold bit_and_iff bit_not_iff k) (use assms bit_locked_bits [of ?b 4] in auto)
  moreover have "LOCK_MASK AND ?b AND NOT (?b AND NOT KEEP_CAPS) = 0"
    by (rule bit_word_eqI, unfold bit_and_iff bit_not_iff k bit_LOCK_MASK) auto
  ultimately show ?thesis by (simp add: set_keep_capabilities_def store_securebits_def SecureBits_try_store_def Let_def)
qed

text \<open>
  C37. An ordinary program run by an ordinary user: neither the real nor the effective user is root, the effective
  group is the file-system group, the ambient set has defined capabilities only and \<open>KEEP_CAPS\<close> is not both set and
  locked; the file is on a mount with \<open>NOSUID\<close>, or has no capabilities and neither mode bit. Then the execution
  succeeds, the new permitted, effective and ambient sets are the old ambient set, the real and effective user IDs are
  kept, the saved and file-system ones become the effective one, and \<open>KEEP_CAPS\<close> is cleared.
\<close>

theorem plain_exec_keeps_ambient_only:
  assumes "\<not> Uid_is_root (cr_ruid c)" "\<not> Uid_is_root (cr_euid c)" "cr_egid c = cr_fsgid c"
    and "caps_ok c" "cap_contains CapSet_all (cr_ambient c)" "\<not> (bit (cr_securebits c) 4 \<and> bit (cr_securebits c) 5)"
    and "elf_nosuid elf \<or> elf_capabilities elf = Inr None \<and> elf_mode_bits elf = Inr (False, False) \<and> ns = Inr owner"
  shows "\<exists>d. execve_credentials elf ns c = (Exec_done, d) \<and>
    cr_permitted d = cr_ambient c \<and> cr_effective d = cr_ambient c \<and> cr_ambient d = cr_ambient c \<and>
    cr_ruid d = cr_ruid c \<and> cr_euid d = cr_euid c \<and> cr_suid d = cr_euid c \<and> cr_fsuid d = cr_euid c \<and>
    cr_securebits d = cr_securebits c AND NOT KEEP_CAPS"
proof -
  have amb: "cr_ambient c AND cr_permitted c = cr_ambient c" "cap_not 0 AND cr_ambient c = cr_ambient c"
    using assms(4,5) by (simp_all add: caps_ok_def cap_contains_def cap_not_def and.commute)
  have sets: "exec_file_sets None (cr_euid c) c = (0, 0, 0)"
    using assms(1,2) by (simp add: exec_file_sets_def Let_def)
  have ambient: "exec_ambient None (cr_euid c) (cr_egid c) c = cr_ambient c"
    using assms(3) by (simp add: exec_ambient_def)
  have "execve_prepare_exec_cred elf ns c = prepare_exec_cred None None None c"
    using assms(7) by (auto simp: execve_prepare_exec_cred_def)
  moreover have "prepare_exec_cred None None None c = Inr \<lparr>ec_setuid = None, ec_setgid = None, ec_permitted = cr_ambient c,
      ec_effective = cr_ambient c, ec_ambient = cr_ambient c\<rparr>"
    using amb by (simp add: prepare_exec_cred_def calculate_capsets_for_exec_def sets ambient Let_def)
  ultimately obtain ec where ec: "execve_prepare_exec_cred elf ns c = Inr ec"
    "ec_setuid ec = None" "ec_setgid ec = None" "ec_permitted ec = cr_ambient c" "ec_effective ec = cr_ambient c" "ec_ambient ec = cr_ambient c"
    by (metis ExecCred.select_convs)
  obtain e where e: "apply_exec_cred ec c = set_keep_capabilities False e" "cr_securebits e = cr_securebits c"
    using apply_exec_shape by blast
  then obtain d where d: "apply_exec_cred ec c = (Inr (), d)" "cr_securebits d = cr_securebits c AND NOT KEEP_CAPS"
    using drop_keep_caps [of e] assms(6) by simp
  then have "execve_credentials elf ns c = (Exec_done, d)" using ec(1) by (simp add: execve_credentials_def)
  moreover have "snd (apply_exec_cred ec c) = d" using d(1) by simp
  ultimately show ?thesis using ec d(2) apply_exec_fields [of ec c] by simp
qed

text \<open>
  C36. \<open>capget\<close> followed by \<open>capset\<close> is the identity: writing back the two 32-bit halves that were
  read succeeds and changes no field, whatever the security modules answer.
\<close>

theorem capget_capset_identity:
  assumes "caps_ok c" "cap_contains CapSet_all (cr_permitted c)" "cap_contains CapSet_all (cr_inheritable c)"
  shows "sys_capset LINUX_CAPABILITY_VERSION_3 0 tid (fst (sys_capget c)) (snd (sys_capget c)) setpcap c
    = (Inr (), c)"
proof -
  have eff: "cap_contains CapSet_all (cr_effective c)"
    using assms(1,2) cap_contains_trans unfolding caps_ok_def by blast
  have amb: "cr_ambient c AND cr_permitted c = cr_ambient c" "cr_ambient c AND cr_inheritable c = cr_ambient c"
    using assms(1) by (simp_all add: caps_ok_def cap_contains_def and.commute)
  have sub: "cap_contains (cr_inheritable c OR x) (cr_inheritable c)" for x by (simp add: capset_bits)
  show ?thesis
    using assms(1) amb from_to_lo_hi [OF assms(2)] from_to_lo_hi [OF assms(3)] from_to_lo_hi [OF eff] sub
    by (simp add: sys_capset_def sys_capget_def set_inheritable_capset_def set_effective_capset_def
        set_permitted_capset_def caps_ok_def Let_def)
qed

text \<open>
  C38. With \<open>KEEP_CAPS\<close> set and locked, every execution that was prepared successfully ends in an
  error after the credentials have been changed: the process is killed.
\<close>

theorem locked_keep_caps_kills_exec:
  assumes "bit (cr_securebits c) 4" "bit (cr_securebits c) 5"
    and "execve_prepare_exec_cred elf ns c = Inr ec"
  shows "fst (execve_credentials elf ns c) = Exec_killed EPERM"
proof -
  obtain d where d: "apply_exec_cred ec c = set_keep_capabilities False d" "cr_securebits d = cr_securebits c"
    using apply_exec_shape by blast
  have "bit (SecureBits_locked_bits (cr_securebits c)) 4" using assms(2) by (simp add: bit_locked_bits)
  then have "bit (SecureBits_locked_bits (cr_securebits c) AND cr_securebits c) 4"
    "\<not> bit (SecureBits_locked_bits (cr_securebits c) AND (cr_securebits c AND NOT KEEP_CAPS)) 4"
    using assms(1) by (simp_all add: bit_simps)
  then have "SecureBits_locked_bits (cr_securebits c) AND cr_securebits c
      \<noteq> SecureBits_locked_bits (cr_securebits c) AND (cr_securebits c AND NOT KEEP_CAPS)" by metis
  then have "SecureBits_try_store (cr_securebits c) (cr_securebits c AND NOT KEEP_CAPS) = Inl EPERM"
    unfolding SecureBits_try_store_def Let_def by (rule if_P)
  then have "fst (set_keep_capabilities False d) = Inl EPERM"
    unfolding set_keep_capabilities_def store_securebits_def Let_def d(2) by simp
  then show ?thesis using assms(3) d(1)
    by (cases "set_keep_capabilities False d") (simp add: execve_credentials_def)
qed

text \<open>
  C39. \<open>NO_SETUID_FIXUP\<close> does not protect the file-system capabilities. With the bit set, a successful \<open>setuid\<close>,
  \<open>setreuid\<close> or \<open>setresuid\<close> leaves the permitted, inheritable and ambient sets as they are, but it removes the
  file-system capabilities from the effective set whenever the file-system user was root and the new effective user is
  not, because the file-system user follows the effective one before the bit is tested. In every other case the
  effective set is kept.
\<close>

theorem no_setuid_fixup_still_drops:
  assumes "SecureBits_no_setuid_fixup (cr_securebits c)"
    "(Inr (), d) \<in> {sys_setuid u c, sys_setreuid r e c, sys_setresuid r e s c}"
  shows "cr_effective d =
      (if Uid_is_root (cr_fsuid c) \<and> \<not> Uid_is_root (cr_euid d)
       then cap_minus (cr_effective c) (CAP_CHOWN OR CAP_DAC_OVERRIDE OR CAP_FOWNER OR CAP_DAC_READ_SEARCH OR CAP_FSETID
         OR CAP_LINUX_IMMUTABLE OR CAP_MAC_OVERRIDE OR CAP_MKNOD)
       else cr_effective c) \<and>
    cr_permitted d = cr_permitted c \<and> cr_inheritable d = cr_inheritable c \<and> cr_ambient d = cr_ambient c"
proof -
  obtain r' e' s' where d: "d = set_resuid_unchecked r' e' s' c"
    using assms(2) by (auto simp: sys_setuid_def sys_setreuid_def sys_setresuid_def set_uid_def set_reuid_def set_resuid_def Let_def
        split: if_splits sum.splits)
  then show ?thesis
    using assms(1) by (simp add: set_resuid_unchecked_def set_fsuid_unchecked_def store_uids_def set_effective_capset_def Let_def)
qed

section \<open>The properties at concrete credentials\<close>

abbreviation user_1000 :: Credentials_ where
  "user_1000 \<equiv> Credentials_new 1000 1000 0"

lemma user_1000_caps_ok: "caps_ok user_1000"
  by (simp add: caps_ok_def Credentials_new_def)

lemma no_privilege_gained_witness:
  "uids (run_calls [Call_setuid 0, Call_setresuid 5 1000 0] user_1000) \<subseteq> {1000}"
proof -
  have "\<not> cap_contains (cr_permitted user_1000) CAP_SETUID"
    by (simp add: Credentials_new_def CapSet_bit_def)
  then show ?thesis
    using no_privilege_gained [OF user_1000_caps_ok, of "[Call_setuid 0, Call_setresuid 5 1000 0]"]
    by (simp add: uids_def Credentials_new_def)
qed

lemma plain_exec_keeps_ambient_only_witness:
  "\<exists>d. execve_credentials \<lparr>elf_nosuid = False, elf_capabilities = Inr None, elf_mode_bits = Inr (False, False),
      elf_owner = Inr 0, elf_group = Inr 0\<rparr> (Inr 0)
      (user_1000\<lparr>cr_permitted := 6, cr_effective := 4, cr_inheritable := 2, cr_ambient := 2\<rparr>) = (Exec_done, d) \<and>
    cr_permitted d = 2 \<and> cr_effective d = 2"
proof -
  let ?c = "user_1000\<lparr>cr_permitted := 6, cr_effective := 4, cr_inheritable := 2, cr_ambient := 2\<rparr>"
  have "cap_contains CapSet_all 2" by (simp add: cap_contains_def CapSet_all_def most_significant_bit_def mask_eq_exp_minus_1)
  moreover have "caps_ok ?c" by (simp add: caps_ok_def cap_contains_def)
  ultimately show ?thesis
    using plain_exec_keeps_ambient_only [of ?c "\<lparr>elf_nosuid = False, elf_capabilities = Inr None, elf_mode_bits = Inr (False, False),
      elf_owner = Inr 0, elf_group = Inr 0\<rparr>" "Inr 0" 0]
    by (auto simp: Uid_is_root_def Credentials_new_def)
qed

lemma capget_capset_identity_witness:
  "sys_capset LINUX_CAPABILITY_VERSION_3 0 7 (fst (sys_capget (Credentials_new 0 0 CapSet_all)))
     (snd (sys_capget (Credentials_new 0 0 CapSet_all))) (Inl EPERM) (Credentials_new 0 0 CapSet_all)
   = (Inr (), Credentials_new 0 0 CapSet_all)"
  by (rule capget_capset_identity) (simp_all add: caps_ok_def Credentials_new_def)

lemma locked_keep_caps_kills_exec_witness:
  "fst (execve_credentials \<lparr>elf_nosuid = True, elf_capabilities = Inr None, elf_mode_bits = Inr (False, False),
      elf_owner = Inr 0, elf_group = Inr 0\<rparr> (Inr 0) (user_1000\<lparr>cr_securebits := 0x30\<rparr>)) = Exec_killed EPERM"
proof -
  let ?elf = "\<lparr>elf_nosuid = True, elf_capabilities = Inr None, elf_mode_bits = Inr (False, False),
      elf_owner = Inr 0, elf_group = Inr 0\<rparr>" and ?c = "user_1000\<lparr>cr_securebits := 0x30\<rparr>"
  have "\<exists>ec. execve_prepare_exec_cred ?elf (Inr 0) ?c = Inr ec"
    by (auto simp: execve_prepare_exec_cred_def prepare_exec_cred_def calculate_capsets_for_exec_def Let_def
        split: prod.splits)
  then obtain ec where "execve_prepare_exec_cred ?elf (Inr 0) ?c = Inr ec" ..
  then show ?thesis by (intro locked_keep_caps_kills_exec) (simp_all add: bit_numeral_simps)
qed

lemma no_setuid_fixup_still_drops_witness:
  "\<exists>d. sys_setresuid (- 1) 1000 (- 1) ((Credentials_new 0 0 CapSet_all)\<lparr>cr_securebits := NO_SETUID_FIXUP\<rparr>) = (Inr (), d) \<and>
     \<not> cap_contains (cr_effective d) CAP_CHOWN \<and> cr_permitted d = CapSet_all"
proof -
  let ?c = "(Credentials_new 0 0 CapSet_all)\<lparr>cr_securebits := NO_SETUID_FIXUP\<rparr>"
  let ?d = "snd (sys_setresuid (- 1) 1000 (- 1) ?c)"
  have c: "SecureBits_no_setuid_fixup (cr_securebits ?c)" "Uid_is_root (cr_fsuid ?c)" "cr_permitted ?c = CapSet_all"
    by (simp_all add: SecureBits_no_setuid_fixup_def secure_contains_def Uid_is_root_def Credentials_new_def)
  have "cap_contains (cr_effective ?c) CAP_SETUID" by (simp add: Credentials_new_def capset_bits)
  then have run: "sys_setresuid (- 1) 1000 (- 1) ?c = (Inr (), ?d)"
    by (simp add: sys_setresuid_def set_resuid_def check_uid_perm_def)
  have euid: "cr_euid ?d = 1000"
    using run by (simp add: sys_setresuid_def set_resuid_def check_uid_perm_def set_resuid_unchecked_def set_fsuid_unchecked_def
        store_uids_def set_effective_capset_def id_arg_def Let_def split: if_splits)
  have "\<not> cap_contains (cr_effective ?d) CAP_CHOWN \<and> cr_permitted ?d = CapSet_all"
    using no_setuid_fixup_still_drops [OF c(1), of ?d 0 "- 1" 1000 "- 1"] run c(2,3) euid
    by (auto simp: capset_bits Uid_is_root_def)
  then show ?thesis using run by blast
qed

end
