(* ===== verification/Buddy_Chunk.thy ===== *)
theory Buddy_Chunk
  imports Kernel_Prelude
begin

text \<open>
  Buddy chunks of the frame allocator, \<open>osdk/deps/frame-allocator/src/chunk.rs\<close>: orders, the
  decomposition of a range into chunks, and the split and merge of free chunks.

  Addresses are physical byte addresses. The metadata slot of a frame is in use when the frame
  is the head of a free chunk or belongs to somebody else; \<open>used\<close> is the set of those frames, and
  taking a head frame from it (\<open>UniqueFrame::from_unused\<close>) panics when the slot is in use.
  Subtractions on \<open>u32\<close> panic when they underflow.
\<close>

unbundle bit_operations_syntax

abbreviation PAGE_SIZE :: nat where
  "PAGE_SIZE \<equiv> 4096"

section \<open>Orders\<close>

definition size_of_order :: "nat \<Rightarrow> nat" where
  "size_of_order order = 2 ^ order * PAGE_SIZE"

text \<open>\<open>usize::trailing_zeros\<close>, \<open>usize::leading_zeros\<close> and \<open>usize::next_power_of_two\<close>.\<close>

fun trailing_zeros_nz :: "nat \<Rightarrow> nat" where
  "trailing_zeros_nz n = (if n = 0 \<or> odd n then 0 else Suc (trailing_zeros_nz (n div 2)))"

declare trailing_zeros_nz.simps [simp del]

definition trailing_zeros :: "nat \<Rightarrow> nat" where
  "trailing_zeros n = (if n = 0 then 64 else trailing_zeros_nz n)"

fun bit_width :: "nat \<Rightarrow> nat" where
  "bit_width n = (if n = 0 then 0 else Suc (bit_width (n div 2)))"

declare bit_width.simps [simp del]

definition leading_zeros :: "nat \<Rightarrow> nat" where
  "leading_zeros n = 64 - bit_width n"

definition next_power_of_two :: "nat \<Rightarrow> nat" where
  "next_power_of_two n = 2 ^ bit_width (n - 1)"

text \<open>A subtraction of unsigned values that traps on underflow.\<close>

definition checked_sub :: "nat \<Rightarrow> nat \<Rightarrow> nat outcome" where
  "checked_sub a b = (if b \<le> a then Return (a - b) else Panic)"

definition greater_order_of :: "nat \<Rightarrow> nat" where
  "greater_order_of sz = trailing_zeros (next_power_of_two (sz div PAGE_SIZE))"

definition lesser_order_of :: "nat \<Rightarrow> nat outcome" where
  "lesser_order_of sz = and_then (checked_sub 64 (leading_zeros (sz div PAGE_SIZE))) (\<lambda>n. checked_sub n 1)"

definition max_order_from :: "nat \<Rightarrow> nat outcome" where
  "max_order_from addr = checked_sub (trailing_zeros addr) (trailing_zeros PAGE_SIZE)"

section \<open>Splitting ranges\<close>

text \<open>
  The iterator of \<open>split_to_chunks\<close>, run to its end. Moving past a chunk adds to the address and subtracts from
  the size; both trap on overflow.
\<close>

function split_chunks :: "nat \<Rightarrow> nat \<Rightarrow> (nat \<times> nat) list outcome" where
  "split_chunks addr sz =
     (if sz = 0 then Return []
      else
        and_then (max_order_from addr) (\<lambda>max_order.
        and_then (lesser_order_of sz) (\<lambda>lesser_order.
        let order = min max_order lesser_order; chunk_size = size_of_order order in
        if addr + chunk_size < usize_limit \<and> chunk_size \<le> sz
        then and_then (split_chunks (addr + chunk_size) (sz - chunk_size)) (\<lambda>rest. Return ((addr, order) # rest))
        else Panic)))"
  by pat_completeness auto
termination
  by (relation "measure snd") (auto simp: size_of_order_def)

declare split_chunks.simps [simp del]

definition split_to_chunks :: "nat \<Rightarrow> nat \<Rightarrow> (nat \<times> nat) list outcome" where
  "split_to_chunks addr sz =
     and_then (assert_that (addr mod PAGE_SIZE = 0)) (\<lambda>_.
     and_then (assert_that (sz mod PAGE_SIZE = 0)) (\<lambda>_.
     split_chunks addr sz))"

definition split_to_order :: "nat \<Rightarrow> nat \<Rightarrow> nat \<Rightarrow> nat list outcome" where
  "split_to_order addr order split_order =
     and_then (assert_that (addr mod size_of_order order = 0)) (\<lambda>_.
     and_then (checked_sub order split_order) (\<lambda>k.
     Return (map (\<lambda>i. addr + size_of_order split_order * i) [0..<2 ^ k])))"

section \<open>Free chunks\<close>

record FreeChunk =
  fc_addr :: nat
  fc_order :: nat

text \<open>With debug assertions \<open>from_unused\<close> also checks every other frame of the chunk.\<close>

definition FreeChunk_from_unused ::
  "bool \<Rightarrow> nat set \<Rightarrow> nat \<Rightarrow> nat \<Rightarrow> (FreeChunk \<times> nat set) outcome" where
  "FreeChunk_from_unused debug used addr order =
     and_then (assert_that (addr mod size_of_order order = 0)) (\<lambda>_.
     and_then (assert_that (addr \<notin> used)) (\<lambda>_.
     and_then (assert_that (if debug then list_all (\<lambda>i. addr + i * PAGE_SIZE \<notin> used) [1..<2 ^ order] else True)) (\<lambda>_.
     Return (\<lparr>fc_addr = addr, fc_order = order\<rparr>, insert addr used))))"

definition FreeChunk_buddy :: "FreeChunk \<Rightarrow> nat" where
  "FreeChunk_buddy self = fc_addr self XOR size_of_order (fc_order self)"

definition FreeChunk_split_free ::
  "nat set \<Rightarrow> FreeChunk \<Rightarrow> (FreeChunk \<times> FreeChunk \<times> nat set) outcome" where
  "FreeChunk_split_free used self =
     and_then (checked_sub (fc_order self) 1) (\<lambda>new_order.
     let right_child_addr = fc_addr self XOR size_of_order new_order in
     and_then (assert_that (right_child_addr \<notin> used)) (\<lambda>_.
     Return (self\<lparr>fc_order := new_order\<rparr>,
       \<lparr>fc_addr = right_child_addr, fc_order = new_order\<rparr>, insert right_child_addr used)))"

definition FreeChunk_merge_free ::
  "nat set \<Rightarrow> FreeChunk \<Rightarrow> FreeChunk \<Rightarrow> (FreeChunk \<times> nat set) outcome" where
  "FreeChunk_merge_free used self buddy =
     (let (self, buddy) = (if fc_addr self > fc_addr buddy then (buddy, self) else (self, buddy));
          used = used - {fc_addr buddy}
      in and_then (assert_that (fc_order self = fc_order buddy)) (\<lambda>_.
         and_then (assert_that (fc_addr self XOR size_of_order (fc_order self) = fc_addr buddy)) (\<lambda>_.
         Return (self\<lparr>fc_order := fc_order self + 1\<rparr>, used))))"

section \<open>Arithmetic of orders\<close>

lemma size_of_order_pos [simp]: "size_of_order k > 0"
  by (simp add: size_of_order_def)

lemma size_of_order_Suc: "size_of_order (Suc k) = 2 * size_of_order k"
  by (simp add: size_of_order_def)

lemma size_of_order_0 [simp]: "size_of_order 0 = PAGE_SIZE"
  by (simp add: size_of_order_def)

lemma size_of_order_power: "size_of_order k = 2 ^ (k + 12)"
  by (simp add: size_of_order_def power_add)

lemma size_of_order_dvd: "j \<le> k \<Longrightarrow> size_of_order j dvd size_of_order k"
  by (simp add: size_of_order_power le_imp_power_dvd)

lemma size_of_order_le_iff [simp]: "size_of_order j \<le> size_of_order k \<longleftrightarrow> j \<le> k"
  by (simp add: size_of_order_power)

lemma size_of_order_less_iff [simp]: "size_of_order j < size_of_order k \<longleftrightarrow> j < k"
  by (simp add: size_of_order_power)

lemma trailing_zeros_nz_dvd: "n \<noteq> 0 \<Longrightarrow> 2 ^ k dvd n \<longleftrightarrow> k \<le> trailing_zeros_nz n"
proof (induction n arbitrary: k rule: trailing_zeros_nz.induct)
  case (1 n)
  show ?case
  proof (cases "odd n")
    case True
    then have "trailing_zeros_nz n = 0" by (simp add: trailing_zeros_nz.simps)
    then show ?thesis using True by (cases k) auto
  next
    case False
    then obtain m where m: "n = 2 * m" by (auto elim: evenE)
    then have tz: "trailing_zeros_nz n = Suc (trailing_zeros_nz m)" "m \<noteq> 0"
      using 1(2) False by (subst trailing_zeros_nz.simps, auto)
    have "2 ^ j dvd m \<longleftrightarrow> j \<le> trailing_zeros_nz m" for j
      using 1 False m tz(2) by simp
    then show ?thesis using tz m by (cases k) auto
  qed
qed

lemma bit_width_0 [simp]: "bit_width 0 = 0"
  by (simp add: bit_width.simps)

lemma bit_width_bounds: "n > 0 \<Longrightarrow> 2 ^ (bit_width n - 1) \<le> n \<and> n < 2 ^ bit_width n \<and> bit_width n > 0"
proof (induction n rule: bit_width.induct)
  case (1 n)
  show ?case
  proof (cases "n div 2 = 0")
    case True
    then have "n = 1" using 1(2) by auto
    then show ?thesis by (simp add: bit_width.simps)
  next
    case False
    then have IH: "2 ^ (bit_width (n div 2) - 1) \<le> n div 2" "n div 2 < 2 ^ bit_width (n div 2)"
      "bit_width (n div 2) > 0" using 1 by auto
    have w: "bit_width n = Suc (bit_width (n div 2))" using 1(2) by (subst bit_width.simps) simp
    from IH(1,3) have "2 ^ bit_width (n div 2) \<le> 2 * (n div 2)"
      by (cases "bit_width (n div 2)") auto
    then show ?thesis using IH(2) w by (simp; linarith)
  qed
qed

lemma bit_width_le: "n < 2 ^ k \<Longrightarrow> bit_width n \<le> k"
proof (cases "n = 0")
  case False
  assume "n < 2 ^ k"
  moreover have "2 ^ (bit_width n - 1) \<le> n" "bit_width n > 0" using bit_width_bounds False by auto
  ultimately have "(2::nat) ^ (bit_width n - 1) < 2 ^ k" by linarith
  then show ?thesis using \<open>bit_width n > 0\<close> by simp
qed (simp add: bit_width.simps)

lemma trailing_zeros_PAGE_SIZE [simp]: "trailing_zeros PAGE_SIZE = 12"
  by (simp add: trailing_zeros_def trailing_zeros_nz.simps)

lemma max_order_from_aligned:
  assumes "PAGE_SIZE dvd addr"
  obtains k where "max_order_from addr = Return k" "size_of_order k dvd addr"
    "addr \<noteq> 0 \<Longrightarrow> \<not> size_of_order (Suc k) dvd addr"
proof (cases "addr = 0")
  case True
  then have "trailing_zeros addr = 64" by (simp add: trailing_zeros_def)
  then show ?thesis using that [of 52] True by (simp add: max_order_from_def checked_sub_def)
next
  case False
  let ?t = "trailing_zeros_nz addr"
  have t: "12 \<le> ?t" using trailing_zeros_nz_dvd [OF False, of 12] assms by simp
  then have "size_of_order (?t - 12) = 2 ^ ?t" "size_of_order (Suc (?t - 12)) = 2 ^ Suc ?t"
    by (simp_all add: size_of_order_power)
  then have "size_of_order (?t - 12) dvd addr" "\<not> size_of_order (Suc (?t - 12)) dvd addr"
    using trailing_zeros_nz_dvd [OF False, of ?t] trailing_zeros_nz_dvd [OF False, of "Suc ?t"] by simp_all
  moreover have "trailing_zeros addr = ?t" using False by (simp add: trailing_zeros_def)
  ultimately show ?thesis
    using that [of "?t - 12"] t by (simp add: max_order_from_def checked_sub_def)
qed

lemma lesser_order_of_bounds:
  assumes "PAGE_SIZE \<le> sz" "sz < usize_limit"
  obtains k where "lesser_order_of sz = Return k" "size_of_order k \<le> sz" "sz < size_of_order (Suc k)"
proof -
  let ?n = "sz div PAGE_SIZE" and ?w = "bit_width (sz div PAGE_SIZE)"
  have pos: "?n > 0" using assms(1) by (simp add: div_greater_zero_iff)
  have bounds: "2 ^ (?w - 1) \<le> ?n" "?n < 2 ^ ?w" "?w > 0" using bit_width_bounds [OF pos] by auto
  have "?n < 2 ^ 64" using assms(2) by (meson div_le_dividend le_less_trans)
  then have w: "?w \<le> 64" by (rule bit_width_le)
  then have "lesser_order_of sz = Return (?w - 1)"
    using bounds(3) by (simp add: lesser_order_of_def leading_zeros_def checked_sub_def)
  moreover have "size_of_order (?w - 1) \<le> sz"
    using mult_le_mono1 [OF bounds(1), of PAGE_SIZE] div_times_less_eq_dividend [of sz PAGE_SIZE]
    unfolding size_of_order_def by linarith
  moreover have "sz < size_of_order ?w"
    using bounds(2) by (simp add: size_of_order_def div_less_iff_less_mult)
  ultimately show ?thesis using that bounds(3) by simp
qed

text \<open>A size below one page has no lesser order: the subtraction underflows.\<close>

lemma lesser_order_of_small: "sz < PAGE_SIZE \<Longrightarrow> lesser_order_of sz = Panic"
  by (simp add: lesser_order_of_def leading_zeros_def checked_sub_def)

lemma next_power_of_two_bounds: "n > 0 \<Longrightarrow> n \<le> next_power_of_two n"
proof -
  assume "n > 0"
  then show ?thesis
    using bit_width_bounds [of "n - 1"] by (cases "n - 1 = 0") (auto simp: next_power_of_two_def)
qed

lemma trailing_zeros_power: "trailing_zeros (2 ^ k) = k"
proof -
  have nz: "(2::nat) ^ k \<noteq> 0" by simp
  have "k \<le> trailing_zeros_nz (2 ^ k)" using trailing_zeros_nz_dvd [OF nz, of k] by simp
  moreover have "\<not> Suc k \<le> trailing_zeros_nz (2 ^ k)"
    using trailing_zeros_nz_dvd [OF nz, of "Suc k"] by (simp add: power_dvd_imp_le)
  ultimately show ?thesis by (simp add: trailing_zeros_def)
qed

lemma greater_order_of_covers:
  assumes "PAGE_SIZE dvd sz" "sz > 0"
  shows "sz \<le> size_of_order (greater_order_of sz)"
proof -
  obtain n where n: "sz = n * PAGE_SIZE" using assms(1) by (auto elim: dvdE)
  then have "n \<le> next_power_of_two n" using assms(2) next_power_of_two_bounds by simp
  then show ?thesis
    using n by (simp add: size_of_order_def greater_order_of_def next_power_of_two_def trailing_zeros_power)
qed

lemma xor_one_nat: "(q::nat) XOR 1 = (if even q then q + 1 else q - 1)"
proof (cases "even q")
  case True
  then obtain m where "q = 2 * m" by (auto elim: evenE)
  then show ?thesis by (subst xor_nat_unfold) auto
next
  case False
  then obtain m where "q = 2 * m + 1" by (auto elim: oddE)
  then show ?thesis by (subst xor_nat_unfold) auto
qed

lemma xor_power:
  assumes "(a::nat) = 2 ^ n * q"
  shows "a XOR 2 ^ n = (if even q then a + 2 ^ n else a - 2 ^ n)"
proof -
  have "a XOR 2 ^ n = push_bit n q XOR push_bit n 1" using assms by (simp add: push_bit_eq_mult mult.commute)
  also have "\<dots> = push_bit n (q XOR 1)" by (simp only: push_bit_xor)
  also have "\<dots> = (q XOR 1) * 2 ^ n" by (simp only: push_bit_eq_mult)
  finally show ?thesis unfolding xor_one_nat using assms by (auto simp: algebra_simps)
qed
lemma buddy_addr:
  assumes "size_of_order k dvd a"
  shows "a XOR size_of_order k =
    (if even (a div size_of_order k) then a + size_of_order k else a - size_of_order k)"
proof -
  obtain q where q: "a = 2 ^ (k + 12) * q" using assms by (auto simp: size_of_order_power elim: dvdE)
  then have "a div size_of_order k = q" by (simp add: size_of_order_power)
  then show ?thesis using xor_power [OF q] by (simp add: size_of_order_power)
qed

section \<open>A range is the disjoint union of its chunks\<close>

fun tiles :: "nat \<Rightarrow> nat \<Rightarrow> (nat \<times> nat) list \<Rightarrow> bool" where
  "tiles addr sz [] \<longleftrightarrow> sz = 0"
| "tiles addr sz ((a, k) # cs) \<longleftrightarrow> a = addr \<and> size_of_order k dvd addr \<and> size_of_order k \<le> sz
     \<and> tiles (addr + size_of_order k) (sz - size_of_order k) cs"

lemma split_chunks_tiles:
  assumes "PAGE_SIZE dvd addr" "PAGE_SIZE dvd sz" "0 < sz \<Longrightarrow> addr + sz < usize_limit"
  shows "\<exists>cs. split_chunks addr sz = Return cs \<and> tiles addr sz cs"
  using assms
proof (induction sz arbitrary: addr rule: less_induct)
  case (less sz)
  show ?case
  proof (cases "sz = 0")
    case True
    then show ?thesis by (simp add: split_chunks.simps)
  next
    case False
    then have "PAGE_SIZE \<le> sz" using less.prems(2) by (auto intro: dvd_imp_le)
    then obtain l where l: "lesser_order_of sz = Return l" "size_of_order l \<le> sz"
      using lesser_order_of_bounds [of sz] less.prems(3) False by auto
    obtain m where m: "max_order_from addr = Return m" "size_of_order m dvd addr"
      using max_order_from_aligned less.prems(1) by blast
    let ?k = "min m l" let ?s = "size_of_order ?k"
    have "?s \<le> size_of_order l" by simp
    from order_trans [OF this l(2)] have k: "?s \<le> sz" "?s dvd addr"
      using dvd_trans [OF size_of_order_dvd [of ?k m] m(2)] by simp_all
    have page: "PAGE_SIZE dvd ?s" using size_of_order_dvd [of 0 ?k] by simp
    have "sz - ?s < sz" using False by simp
    moreover have "PAGE_SIZE dvd addr + ?s" "PAGE_SIZE dvd sz - ?s"
      using less.prems(1,2) page by (auto intro: dvd_diff_nat)
    moreover have lim: "addr + ?s + (sz - ?s) < usize_limit" using less.prems(3) False k(1) by simp
    ultimately obtain cs where cs: "split_chunks (addr + ?s) (sz - ?s) = Return cs"
      "tiles (addr + ?s) (sz - ?s) cs" using less.IH by blast
    have "addr + ?s < usize_limit" using lim by linarith
    then have "split_chunks addr sz = Return ((addr, ?k) # cs)"
      using False l(1) m(1) k(1) cs(1) by (subst split_chunks.simps) (simp add: Let_def)
    moreover have "tiles addr sz ((addr, ?k) # cs)" using k cs(2) by simp
    ultimately show ?thesis by blast
  qed
qed

lemma split_chunks_overflows:
  assumes "PAGE_SIZE dvd addr" "PAGE_SIZE dvd sz" "0 < sz" "sz < usize_limit" "usize_limit \<le> addr + sz"
  shows "split_chunks addr sz = Panic"
  using assms
proof (induction sz arbitrary: addr rule: less_induct)
  case (less sz)
  have "PAGE_SIZE \<le> sz" using less.prems(2,3) by (auto intro: dvd_imp_le)
  then obtain l where l: "lesser_order_of sz = Return l" using lesser_order_of_bounds less.prems(4) by blast
  obtain m where m: "max_order_from addr = Return m" using max_order_from_aligned less.prems(1) by blast
  let ?s = "size_of_order (min m l)"
  have page: "PAGE_SIZE dvd ?s" using size_of_order_dvd [of 0 "min m l"] by simp
  show ?case
  proof (cases "addr + ?s < usize_limit \<and> ?s \<le> sz")
    case False
    then show ?thesis using less.prems(3) l m by (subst split_chunks.simps) (auto simp: Let_def)
  next
    case True
    have "split_chunks (addr + ?s) (sz - ?s) = Panic"
      by (rule less.IH) (use True less.prems page in \<open>auto intro: dvd_diff_nat\<close>)
    then show ?thesis using less.prems(3) l m by (subst split_chunks.simps) (auto simp: Let_def)
  qed
qed

definition chunk_bytes :: "nat \<times> nat \<Rightarrow> nat set" where
  "chunk_bytes c = {fst c..<fst c + size_of_order (snd c)}"

lemma tiles_union: "tiles addr sz cs \<Longrightarrow> (\<Union>c \<in> set cs. chunk_bytes c) = {addr..<addr + sz}"
proof (induction addr sz cs rule: tiles.induct)
  case (2 addr sz a k cs)
  then have k: "a = addr" "size_of_order k \<le> sz" "tiles (addr + size_of_order k) (sz - size_of_order k) cs"
    by simp_all
  from 2(1) [OF k(3)] have "(\<Union>c \<in> set cs. chunk_bytes c) = {addr + size_of_order k..<addr + sz}"
    using k(2) by simp
  moreover have "chunk_bytes (a, k) = {addr..<addr + size_of_order k}" using k(1) by (simp add: chunk_bytes_def)
  moreover have "{addr..<addr + size_of_order k} \<union> {addr + size_of_order k..<addr + sz} = {addr..<addr + sz}"
    using k(2) by (intro ivl_disj_un_two(3)) simp_all
  ultimately show ?case by simp
qed simp

lemma tiles_disjoint:
  "tiles addr sz cs \<Longrightarrow> sorted_wrt (\<lambda>c d. chunk_bytes c \<inter> chunk_bytes d = {}) cs"
proof (induction addr sz cs rule: tiles.induct)
  case (2 addr sz a k cs)
  then have tl: "tiles (addr + size_of_order k) (sz - size_of_order k) cs" by simp
  have "chunk_bytes d \<subseteq> {addr + size_of_order k..<addr + sz}" if "d \<in> set cs" for d
    using tiles_union [OF tl] that 2(2) by auto
  then have "\<forall>d \<in> set cs. chunk_bytes (a, k) \<inter> chunk_bytes d = {}"
    using 2(2) by (fastforce simp: chunk_bytes_def)
  then show ?case using 2 by simp
qed simp

lemma tiles_aligned: "tiles addr sz cs \<Longrightarrow> (a, k) \<in> set cs \<Longrightarrow> size_of_order k dvd a"
  by (induction addr sz cs rule: tiles.induct) auto

end
