(* ===== verification/Buddy_Set.thy ===== *)
theory Buddy_Set
  imports Buddy_Chunk
begin

text \<open>
  The free lists of the buddy allocator, \<open>osdk/deps/frame-allocator/src/set.rs\<close>. A set holds one list
  of free chunks per order, so the constant \<open>MAX_ORDER\<close> is the number of lists. Insertion coalesces
  the chunk with its free buddies, allocation splits the smallest chunk that is large enough.
\<close>

record BuddySet =
  bs_total_size :: nat
  bs_lists :: "FreeChunk list list"

definition BuddySet_new_empty :: "nat \<Rightarrow> BuddySet" where
  "BuddySet_new_empty max_order = \<lparr>bs_total_size = 0, bs_lists = replicate max_order []\<rparr>"

text \<open>
  The coalescing loop of \<open>insert_chunk\<close>, at list \<open>i\<close>. \<open>cursor_mut_at\<close> finds the chunk of the list
  whose head is the buddy's frame.
\<close>

function coalesce :: "bool \<Rightarrow> FreeChunk list list \<Rightarrow> nat \<Rightarrow> FreeChunk \<Rightarrow> nat set
    \<Rightarrow> (FreeChunk list list \<times> FreeChunk \<times> nat set) outcome" where
  "coalesce debug ls i chunk used =
     (if i \<ge> length ls then Return (ls, chunk, used)
      else if i + 1 \<ge> length ls then Return (ls, chunk, used)
      else
        let buddy_addr = FreeChunk_buddy chunk in
        case position (\<lambda>c. fc_addr c = buddy_addr) (ls ! i) of
          None \<Rightarrow> Return (ls, chunk, used)
        | Some j \<Rightarrow>
            let taken = ls ! i ! j in
            and_then (remove_at j (ls ! i)) (\<lambda>list'.
            and_then (assert_that (debug \<longrightarrow> buddy_addr = fc_addr taken)) (\<lambda>_.
            and_then (FreeChunk_merge_free used chunk taken) (\<lambda>(chunk, used).
            coalesce debug (ls[i := list']) (i + 1) chunk used))))"
  by pat_completeness auto
termination
  by (relation "measure (\<lambda>(debug, ls, i, chunk, used). length ls - i)") auto

declare coalesce.simps [simp del]

definition push_front_at :: "nat \<Rightarrow> FreeChunk \<Rightarrow> FreeChunk list list \<Rightarrow> FreeChunk list list outcome" where
  "push_front_at i chunk ls =
     (if i < length ls then Return (ls[i := chunk # ls ! i]) else Panic)"

definition BuddySet_insert_chunk :: "bool \<Rightarrow> nat \<Rightarrow> nat \<Rightarrow> BuddySet \<Rightarrow> nat set
    \<Rightarrow> (BuddySet \<times> nat set) outcome" where
  "BuddySet_insert_chunk debug addr order self used =
     and_then (assert_that (debug \<longrightarrow> order < length (bs_lists self))) (\<lambda>_.
     let inserted_size = size_of_order order in
     and_then (FreeChunk_from_unused debug used addr order) (\<lambda>(chunk, used).
     and_then (coalesce debug (bs_lists self) (fc_order chunk) chunk used) (\<lambda>(ls, chunk, used).
     and_then (push_front_at (fc_order chunk) chunk ls) (\<lambda>ls.
     and_then (unwrap (checked_add_usize (bs_total_size self) inserted_size)) (\<lambda>total.
     Return (self\<lparr>bs_lists := ls, bs_total_size := total\<rparr>, used))))))"

text \<open>The splitting loop of \<open>alloc_chunk\<close>, from order \<open>order + n\<close> down to \<open>order\<close>.\<close>

fun split_down :: "bool \<Rightarrow> FreeChunk list list \<Rightarrow> FreeChunk \<Rightarrow> nat \<Rightarrow> nat \<Rightarrow> nat set
    \<Rightarrow> (FreeChunk list list \<times> FreeChunk \<times> nat set) outcome" where
  "split_down debug ls chunk order 0 used = Return (ls, chunk, used)"
| "split_down debug ls chunk order (Suc n) used =
     and_then (FreeChunk_split_free used chunk) (\<lambda>(left_sub, right_sub, used).
     and_then (assert_that (debug \<longrightarrow> fc_order right_sub = order + n)) (\<lambda>_.
     and_then (push_front_at (order + n) right_sub ls) (\<lambda>ls.
     split_down debug ls left_sub order n used)))"

definition BuddySet_alloc_chunk :: "bool \<Rightarrow> nat \<Rightarrow> BuddySet \<Rightarrow> nat set
    \<Rightarrow> (nat option \<times> BuddySet \<times> nat set) outcome" where
  "BuddySet_alloc_chunk debug order self used =
     (case position (\<lambda>list. list \<noteq> []) (drop order (bs_lists self)) of
        None \<Rightarrow> Return (None, self, used)
      | Some n \<Rightarrow>
          let non_empty = order + n;
              head = hd (bs_lists self ! non_empty);
              ls = (bs_lists self)[non_empty := tl (bs_lists self ! non_empty)]
          in and_then (assert_that (debug \<longrightarrow> fc_order head = non_empty)) (\<lambda>_.
             and_then (split_down debug ls head order n used) (\<lambda>(ls, chunk, used).
             let allocated_size = size_of_order order in
             and_then (checked_sub (bs_total_size self) allocated_size) (\<lambda>total.
             let paddr = fc_addr chunk in
             Return (Some paddr, self\<lparr>bs_lists := ls, bs_total_size := total\<rparr>, used - {paddr})))))"

section \<open>Chunks as sets of bytes\<close>

definition block :: "nat \<Rightarrow> nat \<Rightarrow> nat set" where
  "block a k = {a..<a + size_of_order k}"

abbreviation bytes_of :: "FreeChunk \<Rightarrow> nat set" where
  "bytes_of c \<equiv> block (fc_addr c) (fc_order c)"

definition aligned :: "nat \<Rightarrow> nat \<Rightarrow> bool" where
  "aligned a k \<longleftrightarrow> size_of_order k dvd a"

lemma block_card [simp]: "card (block a k) = size_of_order k" "finite (block a k)"
  by (simp_all add: block_def)

lemma block_start [simp]: "a \<in> block a k"
  by (simp add: block_def)

lemma aligned_le: "aligned a k \<Longrightarrow> j \<le> k \<Longrightarrow> aligned a j"
  unfolding aligned_def using size_of_order_dvd dvd_trans by blast

text \<open>Aligned blocks are nested or disjoint.\<close>

lemma block_nested:
  assumes "aligned a j" "aligned b k" "j \<le> k" "block a j \<inter> block b k \<noteq> {}"
  shows "block a j \<subseteq> block b k"
proof -
  let ?s = "size_of_order j"
  have x: "b < a + ?s" "a < b + size_of_order k"
    using assms(4) by (auto simp: block_def)
  have "?s dvd b" "?s dvd size_of_order k" using assms(2,3) size_of_order_dvd dvd_trans by (auto simp: aligned_def)
  moreover have "?s dvd a" using assms(1) by (simp add: aligned_def)
  ultimately obtain p q r where *: "a = ?s * p" "b = ?s * q" "size_of_order k = ?s * r" by (auto elim!: dvdE)
  have "?s * q < ?s * Suc p" using x * by simp
  then have "q < Suc p" using nat_mult_less_cancel1 [OF size_of_order_pos] by blast
  moreover have "?s * p < ?s * (q + r)" using x * by (simp add: distrib_left)
  then have "p < q + r" using nat_mult_less_cancel1 [OF size_of_order_pos] by blast
  ultimately have "q \<le> p" "Suc p \<le> q + r" by simp_all
  then have "b \<le> a" "a + ?s \<le> b + size_of_order k"
    using mult_le_mono2 [of q p ?s] mult_le_mono2 [of "Suc p" "q + r" ?s] * by (simp_all add: distrib_left)
  then show ?thesis by (auto simp: block_def)
qed

lemma block_eq_iff: "block a k = block b k \<longleftrightarrow> a = b"
proof
  assume "block a k = block b k"
  then have "a \<in> block b k" "b \<in> block a k" using block_start by metis+
  then show "a = b" by (simp add: block_def)
qed simp

lemma block_subset_eq: "block a k \<subseteq> block b k \<Longrightarrow> a = b"
  using card_subset_eq [of "block b k" "block a k"] block_eq_iff by simp

text \<open>The two halves of a block.\<close>

definition buddy_of :: "nat \<Rightarrow> nat \<Rightarrow> nat" where
  "buddy_of a k = a XOR size_of_order k"

lemma block_halves:
  assumes "aligned a (Suc k)"
  shows "aligned a k" "aligned (a + size_of_order k) k" "buddy_of a k = a + size_of_order k"
    "block a (Suc k) = block a k \<union> block (a + size_of_order k) k"
    "block a k \<inter> block (a + size_of_order k) k = {}"
proof -
  show a: "aligned a k" using assms aligned_le by simp
  then show "aligned (a + size_of_order k) k" by (simp add: aligned_def)
  have "2 * size_of_order k dvd a" using assms by (simp add: aligned_def size_of_order_Suc)
  then have "even (a div size_of_order k)" by (auto elim!: dvdE)
  then show "buddy_of a k = a + size_of_order k"
    using buddy_addr [of k a] a by (simp add: buddy_of_def aligned_def)
  show "block a (Suc k) = block a k \<union> block (a + size_of_order k) k"
    "block a k \<inter> block (a + size_of_order k) k = {}" by (auto simp: block_def size_of_order_Suc)
qed

lemma buddy_of_cases:
  assumes "aligned a k"
  obtains (left) "aligned a (Suc k)" "buddy_of a k = a + size_of_order k"
    | (right) b where "a = b + size_of_order k" "aligned b (Suc k)" "buddy_of a k = b"
proof (cases "even (a div size_of_order k)")
  case True
  then have "2 * size_of_order k dvd a"
    using assms by (auto simp: aligned_def elim!: evenE dvdE)
  then show ?thesis using left True buddy_addr [of k a] assms
    by (simp add: aligned_def size_of_order_Suc buddy_of_def)
next
  case False
  then obtain q where q: "a div size_of_order k = 2 * q + 1" by (auto elim: oddE)
  then have a: "a = 2 * q * size_of_order k + size_of_order k"
    using assms dvd_div_mult_self [of "size_of_order k" a] by (simp add: aligned_def algebra_simps)
  then show ?thesis using right [of "2 * q * size_of_order k"] False buddy_addr [of k a] assms
    by (simp add: aligned_def size_of_order_Suc buddy_of_def)
qed

lemma buddy_buddy [simp]: "aligned a k \<Longrightarrow> buddy_of (buddy_of a k) k = a"
  by (simp add: buddy_of_def xor.assoc)

lemma buddy_aligned [simp]: "aligned a k \<Longrightarrow> aligned (buddy_of a k) k"
  by (erule buddy_of_cases) (simp_all add: block_halves)

lemma buddy_neq [simp]: "aligned a k \<Longrightarrow> buddy_of a k \<noteq> a" "aligned a k \<Longrightarrow> a \<noteq> buddy_of a k"
  by (erule buddy_of_cases, simp_all)+

lemma block_merge:
  assumes "aligned a k"
  shows "aligned (min a (buddy_of a k)) (Suc k)"
    "block (min a (buddy_of a k)) (Suc k) = block a k \<union> block (buddy_of a k) k"
    "block a k \<inter> block (buddy_of a k) k = {}"
proof -
  have "aligned (min a (buddy_of a k)) (Suc k) \<and>
      block (min a (buddy_of a k)) (Suc k) = block a k \<union> block (buddy_of a k) k \<and>
      block a k \<inter> block (buddy_of a k) k = {}"
    using assms
  proof (cases rule: buddy_of_cases)
    case left
    then show ?thesis using block_halves(4,5) [OF left(1)] by simp
  next
    case (right b)
    then show ?thesis using block_halves(4,5) [OF right(2)] by (simp add: Un_commute Int_commute)
  qed
  then show "aligned (min a (buddy_of a k)) (Suc k)"
    "block (min a (buddy_of a k)) (Suc k) = block a k \<union> block (buddy_of a k) k"
    "block a k \<inter> block (buddy_of a k) k = {}" by simp_all
qed

section \<open>Sets of chunks\<close>

text \<open>
  A set of disjoint aligned chunks below order \<open>n\<close>; it is coalesced when it holds no chunk together
  with its buddy, the largest order apart.
\<close>

definition chunk_set :: "nat \<Rightarrow> FreeChunk set \<Rightarrow> bool" where
  "chunk_set n S \<longleftrightarrow> (\<forall>c \<in> S. fc_order c < n \<and> aligned (fc_addr c) (fc_order c))
     \<and> (\<forall>c \<in> S. \<forall>d \<in> S. c \<noteq> d \<longrightarrow> bytes_of c \<inter> bytes_of d = {})"

definition coalesced :: "nat \<Rightarrow> FreeChunk set \<Rightarrow> bool" where
  "coalesced n S \<longleftrightarrow>
     (\<forall>c \<in> S. Suc (fc_order c) < n \<longrightarrow> \<lparr>fc_addr = buddy_of (fc_addr c) (fc_order c), fc_order = fc_order c\<rparr> \<notin> S)"

definition bytes_in :: "FreeChunk set \<Rightarrow> nat set" where
  "bytes_in S = (\<Union>c \<in> S. bytes_of c)"

text \<open>The frame metadata in use among the bytes of the chunks are the heads.\<close>

definition heads_only :: "nat set \<Rightarrow> FreeChunk set \<Rightarrow> bool" where
  "heads_only used S \<longleftrightarrow> (\<forall>c \<in> S. \<forall>b \<in> bytes_of c. b \<in> used \<longleftrightarrow> b = fc_addr c)"

lemma chunk_setD:
  "chunk_set n S \<Longrightarrow> c \<in> S \<Longrightarrow> fc_order c < n \<and> aligned (fc_addr c) (fc_order c)"
  by (simp add: chunk_set_def)

lemma chunk_set_subset: "chunk_set n S \<Longrightarrow> T \<subseteq> S \<Longrightarrow> chunk_set n T"
  unfolding chunk_set_def by (meson subsetD)

lemma coalesced_subset: "coalesced n S \<Longrightarrow> T \<subseteq> S \<Longrightarrow> coalesced n T"
  unfolding coalesced_def by (meson subsetD)

lemma heads_only_subset: "heads_only used S \<Longrightarrow> T \<subseteq> S \<Longrightarrow> heads_only used T"
  unfolding heads_only_def by (meson subsetD)

lemma bytes_in_insert [simp]: "bytes_in (insert c S) = bytes_of c \<union> bytes_in S"
  by (auto simp: bytes_in_def)

lemma bytes_in_empty [simp]: "bytes_in {} = {}"
  by (simp add: bytes_in_def)

lemma bytes_in_disjoint_iff: "bytes_of c \<inter> bytes_in S = {} \<longleftrightarrow> (\<forall>d \<in> S. bytes_of c \<inter> bytes_of d = {})"
  by (auto simp: bytes_in_def)

lemma chunk_set_insert:
  assumes "c \<notin> S"
  shows "chunk_set n (insert c S) \<longleftrightarrow> chunk_set n S \<and> fc_order c < n \<and>
    aligned (fc_addr c) (fc_order c) \<and> bytes_of c \<inter> bytes_in S = {}"
proof -
  have "c \<noteq> d" if "d \<in> S" for d using that assms by blast
  then show ?thesis unfolding chunk_set_def bytes_in_disjoint_iff ball_simps(7)
    by (simp add: Int_commute [of _ "bytes_of c"]) meson
qed

lemma heads_only_insert:
  "heads_only used (insert c S) \<longleftrightarrow>
     heads_only used S \<and> (\<forall>b \<in> bytes_of c. b \<in> used \<longleftrightarrow> b = fc_addr c)"
  by (auto simp: heads_only_def)

text \<open>A free aligned block of a coalesced set lies in one chunk: nothing is lost to fragmentation.\<close>

lemma coalesced_block:
  assumes "chunk_set n S" "coalesced n S" "k < n" "aligned a k" "block a k \<subseteq> bytes_in S"
  shows "\<exists>c \<in> S. k \<le> fc_order c \<and> block a k \<subseteq> bytes_of c"
  using assms(3-5)
proof (induction k arbitrary: a)
  case 0
  then obtain c where c: "c \<in> S" "a \<in> bytes_of c" using block_start by (fastforce simp: bytes_in_def)
  then have "block a 0 \<inter> bytes_of c \<noteq> {}" using block_start [of a 0] by blast
  then have "block a 0 \<subseteq> bytes_of c"
    using block_nested [of a 0 "fc_addr c" "fc_order c"] 0 chunk_setD [OF assms(1) c(1)] by simp
  then show ?case using c by blast
next
  case (Suc k)
  note h = block_halves [OF Suc.prems(2)]
  let ?b = "a + size_of_order k"
  obtain c where c: "c \<in> S" "k \<le> fc_order c" "block a k \<subseteq> bytes_of c"
    using Suc.IH [of a] Suc.prems h by auto
  obtain d where d: "d \<in> S" "k \<le> fc_order d" "block ?b k \<subseteq> bytes_of d"
    using Suc.IH [of ?b] Suc.prems h by auto
  have big: ?case if "e \<in> S" "k < fc_order e" "x \<in> block a (Suc k)" "x \<in> bytes_of e" for e x
    using that block_nested [of a "Suc k" "fc_addr e" "fc_order e"] chunk_setD [OF assms(1)] Suc.prems(2)
    by (metis Suc_leI disjoint_iff)
  show ?case
  proof (cases "fc_order c = k \<and> fc_order d = k")
    case True
    then have eq: "fc_addr c = a" "fc_addr d = ?b" using c d block_subset_eq by metis+
    then have "d = \<lparr>fc_addr = buddy_of (fc_addr c) (fc_order c), fc_order = fc_order c\<rparr>"
      using True h by simp
    then have "\<not> Suc (fc_order c) < n" using c(1) d(1) assms(2) unfolding coalesced_def by metis
    then show ?thesis using Suc.prems(1) True by simp
  next
    case False
    then consider "k < fc_order c" | "k < fc_order d" using c d by linarith
    then show ?thesis
    proof cases
      case 1
      then show ?thesis using big [of c a] c block_start by blast
    next
      case 2
      moreover have "?b \<in> block a (Suc k)" using h by simp
      ultimately show ?thesis using big [of d ?b] d block_start by blast
    qed
  qed
qed

section \<open>The free lists\<close>

definition well_placed :: "FreeChunk list list \<Rightarrow> bool" where
  "well_placed ls \<longleftrightarrow> (\<forall>i < length ls. distinct (ls ! i) \<and> (\<forall>c \<in> set (ls ! i). fc_order c = i))"

definition chunks :: "FreeChunk list list \<Rightarrow> FreeChunk set" where
  "chunks ls = set (concat ls)"

lemma chunks_iff:
  "well_placed ls \<Longrightarrow> c \<in> chunks ls \<longleftrightarrow> fc_order c < length ls \<and> c \<in> set (ls ! fc_order c)"
proof -
  assume wp: "well_placed ls"
  have "c \<in> chunks ls \<longleftrightarrow> (\<exists>i < length ls. c \<in> set (ls ! i))"
    unfolding chunks_def by (simp, metis in_set_conv_nth)
  then show ?thesis using wp unfolding well_placed_def by metis
qed

lemma well_placedD:
  "well_placed ls \<Longrightarrow> i < length ls \<Longrightarrow> distinct (ls ! i)"
  "well_placed ls \<Longrightarrow> i < length ls \<Longrightarrow> c \<in> set (ls ! i) \<Longrightarrow> fc_order c = i"
  by (simp_all add: well_placed_def)

lemma well_placed_update:
  assumes "well_placed ls" "i < length ls" "distinct xs" "\<forall>c \<in> set xs. fc_order c = i"
  shows "well_placed (ls[i := xs])"
    "d \<in> chunks (ls[i := xs]) \<longleftrightarrow> (if fc_order d = i then d \<in> set xs else d \<in> chunks ls)"
proof -
  show wp: "well_placed (ls[i := xs])"
    unfolding well_placed_def
  proof (intro allI impI)
    fix j assume j: "j < length (ls[i := xs])"
    show "distinct (ls[i := xs] ! j) \<and> (\<forall>c \<in> set (ls[i := xs] ! j). fc_order c = j)"
    proof (cases "j = i")
      case True
      then show ?thesis using assms by simp
    next
      case False
      then show ?thesis using assms(1) j by (simp add: well_placed_def)
    qed
  qed
  show "d \<in> chunks (ls[i := xs]) \<longleftrightarrow> (if fc_order d = i then d \<in> set xs else d \<in> chunks ls)"
    using assms(2) by (simp add: chunks_iff [OF wp] chunks_iff [OF assms(1)])
qed

lemma push_front_at_chunks:
  assumes "well_placed ls" "fc_order c < length ls" "c \<notin> chunks ls"
  obtains ls' where "push_front_at (fc_order c) c ls = Return ls'" "well_placed ls'"
    "chunks ls' = insert c (chunks ls)" "length ls' = length ls"
proof -
  let ?xs = "c # ls ! fc_order c"
  have d: "distinct ?xs" using assms well_placedD(1) [OF assms(1,2)] chunks_iff [OF assms(1)] by simp
  have ord: "\<forall>d \<in> set ?xs. fc_order d = fc_order c" using well_placedD(2) [OF assms(1,2)] by simp
  note u = well_placed_update [OF assms(1,2) d ord]
  have "chunks (ls[fc_order c := ?xs]) = insert c (chunks ls)"
    by (rule set_eqI) (use assms(2) in \<open>simp add: u(2) chunks_iff [OF assms(1)], metis\<close>)
  then show thesis using that [of "ls[fc_order c := ?xs]"] assms u(1) by (simp add: push_front_at_def)
qed

lemma remove_at_chunks:
  assumes "well_placed ls" "i < length ls" "j < length (ls ! i)"
  obtains xs where "remove_at j (ls ! i) = Return xs" "well_placed (ls[i := xs])"
    "chunks (ls[i := xs]) = chunks ls - {ls ! i ! j}"
    "ls ! i ! j \<in> chunks ls" "fc_order (ls ! i ! j) = i"
proof -
  let ?xs = "take j (ls ! i) @ drop (Suc j) (ls ! i)" and ?c = "ls ! i ! j"
  have split: "ls ! i = take j (ls ! i) @ ?c # drop (Suc j) (ls ! i)"
    using assms(3) by (rule id_take_nth_drop)
  then have "distinct (take j (ls ! i) @ ?c # drop (Suc j) (ls ! i))"
    using well_placedD(1) [OF assms(1,2)] by simp
  then have dx: "distinct ?xs" and c: "?c \<notin> set ?xs" by auto
  have "set (take j (ls ! i) @ ?c # drop (Suc j) (ls ! i)) = insert ?c (set ?xs)" by simp
  then have sx: "set (ls ! i) = insert ?c (set ?xs)" using split by simp
  have oc: "fc_order ?c = i" by (rule well_placedD(2) [OF assms(1,2)]) (simp only: sx insertI1)
  have ord: "\<forall>d \<in> set ?xs. fc_order d = i"
    by (rule ballI, rule well_placedD(2) [OF assms(1,2)]) (simp only: sx insertI2)
  note u = well_placed_update [OF assms(1,2) dx ord]
  have mem: "d \<in> set ?xs \<longleftrightarrow> d \<in> set (ls ! i) \<and> d \<noteq> ?c" for d using sx c by (metis insert_iff)
  have "chunks (ls[i := ?xs]) = chunks ls - {?c}"
  proof (rule set_eqI)
    fix d show "d \<in> chunks (ls[i := ?xs]) \<longleftrightarrow> d \<in> chunks ls - {?c}"
      unfolding u(2) Diff_iff chunks_iff [OF assms(1)] mem using oc assms(2) by (cases "fc_order d = i") auto
  qed
  moreover have "?c \<in> chunks ls" using oc assms chunks_iff [OF assms(1)] by simp
  ultimately show thesis using that [of ?xs] assms oc u(1) by (simp add: remove_at_def)
qed

section \<open>Insertion\<close>

lemma coalesced_insert:
  assumes "coalesced n S" "aligned (fc_addr c) (fc_order c)"
    "Suc (fc_order c) < n \<Longrightarrow> \<lparr>fc_addr = buddy_of (fc_addr c) (fc_order c), fc_order = fc_order c\<rparr> \<notin> S"
  shows "coalesced n (insert c S)"
  unfolding coalesced_def
proof (intro ballI impI)
  fix d assume d: "d \<in> insert c S" "Suc (fc_order d) < n"
  let ?b = "\<lambda>c. \<lparr>fc_addr = buddy_of (fc_addr c) (fc_order c), fc_order = fc_order c\<rparr>"
  show "?b d \<notin> insert c S"
  proof (cases "d = c")
    case True
    moreover have "?b c \<noteq> c" using buddy_neq(1) [OF assms(2)] by (metis FreeChunk.select_convs(1))
    ultimately show ?thesis using assms(3) d by simp
  next
    case False
    then have "d \<in> S" using d by simp
    moreover have "?b d \<noteq> c"
    proof
      assume eq: "?b d = c"
      then have "d = ?b c" by (auto simp: buddy_of_def xor.assoc)
      then show False using assms(3) d \<open>d \<in> S\<close> eq by auto
    qed
    ultimately show ?thesis using assms(1) d by (auto simp: coalesced_def)
  qed
qed

lemma merge_free_step:
  assumes "chunk_set n (insert c S)" "c \<notin> S" "t \<in> S" "fc_order t = fc_order c"
    "fc_addr t = FreeChunk_buddy c" "Suc (fc_order c) < n" "heads_only used (insert c S)"
  obtains c' used' where "FreeChunk_merge_free used c t = Return (c', used')"
    "fc_order c' = Suc (fc_order c)" "c' \<notin> S - {t}" "chunk_set n (insert c' (S - {t}))"
    "heads_only used' (insert c' (S - {t}))"
    "bytes_of c' \<union> bytes_in (S - {t}) = bytes_of c \<union> bytes_in S"
    "\<And>b. b \<notin> bytes_of c \<union> bytes_in S \<Longrightarrow> b \<in> used' \<longleftrightarrow> b \<in> used"
proof -
  let ?a = "fc_addr c" and ?k = "fc_order c"
  let ?b = "buddy_of ?a ?k"
  let ?c = "\<lparr>fc_addr = min ?a ?b, fc_order = Suc ?k\<rparr>" and ?used = "used - {max ?a ?b}"
  have cs: "chunk_set n S" "?k < n" "aligned ?a ?k" "bytes_of c \<inter> bytes_in S = {}"
    using assms(1) chunk_set_insert [OF assms(2)] by auto
  have t: "t = \<lparr>fc_addr = ?b, fc_order = ?k\<rparr>"
    using assms(4,5) by (simp add: FreeChunk_buddy_def buddy_of_def)
  note m = block_merge [OF cs(3)]
  have S: "insert t (S - {t}) = S" using assms(3) by blast
  have ct: "chunk_set n (S - {t})" "bytes_of t \<inter> bytes_in (S - {t}) = {}"
    using chunk_set_insert [of t "S - {t}" n] cs(1) unfolding S by simp_all
  have bS: "bytes_in S = bytes_of t \<union> bytes_in (S - {t})" using bytes_in_insert [of t "S - {t}"] unfolding S by simp
  have bc: "bytes_of ?c = bytes_of c \<union> bytes_of t" using m(2) t by simp
  have disj: "bytes_of ?c \<inter> bytes_in (S - {t}) = {}" using bc cs(4) bS ct(2) by auto
  have notin: "?c \<notin> S - {t}"
  proof
    assume "?c \<in> S - {t}"
    then have "bytes_of ?c \<subseteq> bytes_in (S - {t})" by (auto simp: bytes_in_def)
    then show False using disj block_start by blast
  qed
  have h: "heads_only used (S - {t})" "\<And>b. b \<in> bytes_of c \<Longrightarrow> b \<in> used \<longleftrightarrow> b = ?a"
    "\<And>b. b \<in> bytes_of t \<Longrightarrow> b \<in> used \<longleftrightarrow> b = ?b"
    using assms(3,7) t by (auto simp: heads_only_def)
  have mx: "max ?a ?b \<in> bytes_of c \<union> bytes_of t" using t by (auto simp: max_def)
  have "heads_only ?used (S - {t})"
    using h(1) mx disj bc unfolding heads_only_def bytes_in_def by blast
  moreover have "b \<in> ?used \<longleftrightarrow> b = min ?a ?b" if "b \<in> bytes_of ?c" for b
    using that bc h(2,3) [of b] h(3) [of ?b] t buddy_neq [OF cs(3)] by (auto simp: max_def min_def)
  ultimately have "heads_only ?used (insert ?c (S - {t}))" by (simp add: heads_only_insert)
  moreover have "chunk_set n (insert ?c (S - {t}))"
    using chunk_set_insert [OF notin] ct disj assms(6) m(1) by simp
  moreover have "FreeChunk_merge_free used c t = Return (?c, ?used)"
    using t buddy_buddy [OF cs(3)]
    by (auto simp: FreeChunk_merge_free_def buddy_of_def min_def max_def)
  moreover have "bytes_of ?c \<union> bytes_in (S - {t}) = bytes_of c \<union> bytes_in S" using bc bS by auto
  moreover have "b \<in> ?used \<longleftrightarrow> b \<in> used" if "b \<notin> bytes_of c \<union> bytes_in S" for b using that mx bS by auto
  ultimately show thesis using that [of ?c ?used] notin by simp
qed

lemma coalesce_correct:
  assumes "well_placed ls" "chunk_set (length ls) (insert c (chunks ls))" "c \<notin> chunks ls"
    "coalesced (length ls) (chunks ls)" "heads_only used (insert c (chunks ls))"
  shows "\<exists>ls' c' used'. coalesce debug ls (fc_order c) c used = Return (ls', c', used') \<and>
    well_placed ls' \<and> length ls' = length ls \<and> c' \<notin> chunks ls' \<and>
    chunk_set (length ls) (insert c' (chunks ls')) \<and> coalesced (length ls) (insert c' (chunks ls')) \<and>
    heads_only used' (insert c' (chunks ls')) \<and>
    bytes_of c' \<union> bytes_in (chunks ls') = bytes_of c \<union> bytes_in (chunks ls) \<and>
    (\<forall>b. b \<notin> bytes_of c \<union> bytes_in (chunks ls) \<longrightarrow> (b \<in> used' \<longleftrightarrow> b \<in> used))"
  using assms
proof (induction "length ls - fc_order c" arbitrary: ls c used rule: less_induct)
  case less
  let ?n = "length ls" and ?i = "fc_order c"
  let ?b = "\<lparr>fc_addr = buddy_of (fc_addr c) ?i, fc_order = ?i\<rparr>"
  have i: "?i < ?n" "aligned (fc_addr c) ?i" using chunk_setD [OF less.prems(2)] by simp_all
  have baddr: "FreeChunk_buddy c = buddy_of (fc_addr c) ?i" by (simp add: FreeChunk_buddy_def buddy_of_def)
  show ?case
  proof (cases "Suc ?i < ?n \<and> ?b \<in> chunks ls")
    case False
    then have stop: "coalesce debug ls ?i c used = Return (ls, c, used)"
    proof (cases "Suc ?i < ?n")
      case True
      then have nb: "?b \<notin> set (ls ! ?i)" using False i(1) chunks_iff [OF less.prems(1), of ?b] by simp
      have "fc_addr d \<noteq> FreeChunk_buddy c" if "d \<in> set (ls ! ?i)" for d
      proof
        assume "fc_addr d = FreeChunk_buddy c"
        then have "d = ?b" using well_placedD(2) [OF less.prems(1) i(1) that] baddr by simp
        then show False using nb that by blast
      qed
      then have "position (\<lambda>d. fc_addr d = FreeChunk_buddy c) (ls ! ?i) = None"
        by (simp add: position_None_iff)
      then show ?thesis using True by (simp add: coalesce.simps [of debug ls])
    qed (simp add: coalesce.simps [of debug ls])
    have "coalesced ?n (insert c (chunks ls))"
      using coalesced_insert [OF less.prems(4) i(2)] False by blast
    then show ?thesis using stop less.prems by simp
  next
    case True
    then have b: "?b \<in> set (ls ! ?i)" "Suc ?i < ?n" using chunks_iff [OF less.prems(1), of ?b] by simp_all
    have "position (\<lambda>d. fc_addr d = FreeChunk_buddy c) (ls ! ?i) \<noteq> None"
      using b(1) baddr unfolding position_None_iff by (metis FreeChunk.select_convs(1))
    then obtain j where pos: "position (\<lambda>d. fc_addr d = FreeChunk_buddy c) (ls ! ?i) = Some j" by blast
    then have j: "j < length (ls ! ?i)" "fc_addr (ls ! ?i ! j) = FreeChunk_buddy c"
      using position_SomeD [OF pos] by simp_all
    obtain xs where xs: "remove_at j (ls ! ?i) = Return xs" "well_placed (ls[?i := xs])"
      "chunks (ls[?i := xs]) = chunks ls - {ls ! ?i ! j}"
      "ls ! ?i ! j \<in> chunks ls" "fc_order (ls ! ?i ! j) = ?i"
      using remove_at_chunks [OF less.prems(1) i(1) j(1)] by blast
    obtain c' used' where m: "FreeChunk_merge_free used c (ls ! ?i ! j) = Return (c', used')"
      "fc_order c' = Suc ?i" "c' \<notin> chunks ls - {ls ! ?i ! j}"
      "chunk_set ?n (insert c' (chunks ls - {ls ! ?i ! j}))"
      "heads_only used' (insert c' (chunks ls - {ls ! ?i ! j}))"
      "bytes_of c' \<union> bytes_in (chunks ls - {ls ! ?i ! j}) = bytes_of c \<union> bytes_in (chunks ls)"
      "\<And>b. b \<notin> bytes_of c \<union> bytes_in (chunks ls) \<Longrightarrow> b \<in> used' \<longleftrightarrow> b \<in> used"
      using merge_free_step [OF less.prems(2,3) xs(4,5) j(2) b(2) less.prems(5)] by metis
    have step: "coalesce debug ls ?i c used = coalesce debug (ls[?i := xs]) (fc_order c') c' used'"
      using b(2) pos j xs(1) m(1,2) by (subst coalesce.simps) simp
    have dec: "length (ls[?i := xs]) - fc_order c' < ?n - ?i" using m(2) i(1) by simp
    have co: "coalesced ?n (chunks (ls[?i := xs]))"
      using less.prems(4) unfolding xs(3) by (rule coalesced_subset) blast
    show ?thesis
      using less.hyps [OF dec xs(2), of used'] m(3-7) co unfolding xs(3) step by simp
  qed
qed

definition paddr_limit :: nat where
  "paddr_limit = usize_limit - PAGE_SIZE"

definition free_bytes :: "BuddySet \<Rightarrow> nat set" where
  "free_bytes self = bytes_in (chunks (bs_lists self))"

text \<open>
  The invariant of a set: each list holds distinct aligned chunks of its order, all chunks are
  disjoint and coalesced, \<open>total_size\<close> counts the free bytes, and of the frames of a free chunk only
  the head's metadata is in use.
\<close>

definition pool_ok :: "nat set \<Rightarrow> BuddySet \<Rightarrow> bool" where
  "pool_ok used self \<longleftrightarrow>
     well_placed (bs_lists self) \<and>
     chunk_set (length (bs_lists self)) (chunks (bs_lists self)) \<and>
     coalesced (length (bs_lists self)) (chunks (bs_lists self)) \<and>
     heads_only used (chunks (bs_lists self)) \<and>
     bs_total_size self = card (free_bytes self) \<and>
     free_bytes self \<subseteq> {..<paddr_limit}"

lemma free_bytes_finite: "free_bytes self \<subseteq> {..<paddr_limit} \<Longrightarrow> finite (free_bytes self)"
  by (rule finite_subset [OF _ finite_lessThan])

lemma new_empty_ok [simp]:
  "pool_ok used (BuddySet_new_empty n)" "free_bytes (BuddySet_new_empty n) = {}"
  by (auto simp: pool_ok_def BuddySet_new_empty_def well_placed_def chunk_set_def coalesced_def
      heads_only_def free_bytes_def bytes_in_def chunks_def)

lemma new_empty_length [simp]: "length (bs_lists (BuddySet_new_empty n)) = n"
  by (simp add: BuddySet_new_empty_def)

lemma block_below: "a + size_of_order k \<le> paddr_limit \<Longrightarrow> block a k \<subseteq> {..<paddr_limit}"
  by (auto simp: block_def)

lemma insert_chunk_correct:
  assumes "pool_ok used self" "aligned addr order" "order < length (bs_lists self)"
    "block addr order \<inter> free_bytes self = {}" "block addr order \<inter> used = {}"
    "block addr order \<subseteq> {..<paddr_limit}"
  obtains self' used' where "BuddySet_insert_chunk debug addr order self used = Return (self', used')"
    "pool_ok used' self'" "free_bytes self' = free_bytes self \<union> block addr order"
    "length (bs_lists self') = length (bs_lists self)"
    "\<And>b. b \<notin> free_bytes self' \<Longrightarrow> b \<in> used' \<longleftrightarrow> b \<in> used"
proof -
  let ?n = "length (bs_lists self)" and ?c = "\<lparr>fc_addr = addr, fc_order = order\<rparr>"
  let ?S = "chunks (bs_lists self)" and ?used = "insert addr used"
  have ok: "well_placed (bs_lists self)" "chunk_set ?n ?S" "coalesced ?n ?S" "heads_only used ?S"
    "bs_total_size self = card (free_bytes self)" "free_bytes self \<subseteq> {..<paddr_limit}"
    using assms(1) by (simp_all add: pool_ok_def)
  have notin: "?c \<notin> ?S"
  proof
    assume "?c \<in> ?S"
    then have "addr \<in> free_bytes self" by (force simp: free_bytes_def bytes_in_def)
    then show False using assms(4) block_start by blast
  qed
  have cs: "chunk_set ?n (insert ?c ?S)"
    using chunk_set_insert [OF notin] ok(2) assms(2-4) by (simp add: free_bytes_def)
  have "heads_only ?used ?S"
    using ok(4) assms(4) block_start [of addr order] unfolding heads_only_def free_bytes_def bytes_in_def
    by (metis (no_types, lifting) UN_I disjoint_iff insert_iff)
  moreover have "b \<in> ?used \<longleftrightarrow> b = addr" if "b \<in> block addr order" for b using that assms(5) by auto
  ultimately have ho: "heads_only ?used (insert ?c ?S)" by (simp add: heads_only_insert)
  obtain ls c used' where co: "coalesce debug (bs_lists self) order ?c ?used = Return (ls, c, used')"
    "well_placed ls" "length ls = ?n" "c \<notin> chunks ls" "chunk_set ?n (insert c (chunks ls))"
    "coalesced ?n (insert c (chunks ls))" "heads_only used' (insert c (chunks ls))"
    "bytes_of c \<union> bytes_in (chunks ls) = block addr order \<union> free_bytes self"
    "\<forall>b. b \<notin> block addr order \<union> free_bytes self \<longrightarrow> (b \<in> used' \<longleftrightarrow> b \<in> ?used)"
    using coalesce_correct [OF ok(1) cs notin ok(3) ho, of debug] by (auto simp: free_bytes_def)
  have "fc_order c < length ls" using chunk_setD [OF co(5)] co(3) by simp
  then obtain ls' where push: "push_front_at (fc_order c) c ls = Return ls'" "well_placed ls'"
    "chunks ls' = insert c (chunks ls)" "length ls' = ?n"
    using push_front_at_chunks [OF co(2) _ co(4)] co(3) by metis
  have free: "bytes_in (chunks ls') = free_bytes self \<union> block addr order" using push(3) co(8) by auto
  have fin: "finite (free_bytes self)" using free_bytes_finite ok(6) .
  then have card: "card (free_bytes self \<union> block addr order) = card (free_bytes self) + size_of_order order"
    using assms(4) by (subst card_Un_disjoint) (auto simp: Int_commute)
  have lim: "free_bytes self \<union> block addr order \<subseteq> {..<paddr_limit}" using ok(6) assms(6) by blast
  then have "card (free_bytes self) + size_of_order order \<le> paddr_limit"
    using card_mono [OF _ lim] card by simp
  then have total: "checked_add_usize (bs_total_size self) (size_of_order order)
      = Some (card (free_bytes self) + size_of_order order)"
    using ok(5) by (simp add: checked_add_usize_def paddr_limit_def)
  let ?self = "self\<lparr>bs_lists := ls', bs_total_size := card (free_bytes self) + size_of_order order\<rparr>"
  have "addr \<notin> used" using assms(5) block_start by blast
  moreover have "addr + i * PAGE_SIZE \<notin> used" if "i < 2 ^ order" for i
  proof -
    have "i * PAGE_SIZE < 2 ^ order * PAGE_SIZE" using that by simp
    then have "addr + i * PAGE_SIZE \<in> block addr order" by (simp add: block_def size_of_order_def)
    then show ?thesis using assms(5) by blast
  qed
  ultimately have "FreeChunk_from_unused debug used addr order = Return (?c, ?used)"
    using assms(2) by (auto simp: FreeChunk_from_unused_def aligned_def list_all_iff)
  then have "BuddySet_insert_chunk debug addr order self used = Return (?self, used')"
    using assms(3) co(1) push(1) total by (simp add: BuddySet_insert_chunk_def Let_def)
  moreover have "pool_ok used' ?self"
    using push co free card lim by (simp add: pool_ok_def free_bytes_def)
  moreover have "b \<in> used' \<longleftrightarrow> b \<in> used" if "b \<notin> free_bytes self \<union> block addr order" for b
    using that co(9) block_start [of addr order] by auto
  ultimately show thesis using that [of ?self used'] free push(4) by (simp add: free_bytes_def)
qed

section \<open>Allocation\<close>

lemma split_free_step:
  assumes "chunk_set n (insert c S)" "c \<notin> S" "coalesced n S" "heads_only used (insert c S)"
    "fc_order c = Suc k" "\<forall>d \<in> S. fc_order d \<noteq> k"
  obtains l r used' where "FreeChunk_split_free used c = Return (l, r, used')"
    "fc_order l = k" "fc_order r = k" "fc_addr l = fc_addr c" "r \<notin> S" "l \<notin> insert r S"
    "chunk_set n (insert l (insert r S))" "coalesced n (insert r S)"
    "heads_only used' (insert l (insert r S))" "bytes_of l \<union> bytes_of r = bytes_of c"
    "\<And>b. b \<notin> bytes_of c \<Longrightarrow> b \<in> used' \<longleftrightarrow> b \<in> used"
proof -
  let ?a = "fc_addr c" and ?b = "fc_addr c + size_of_order k"
  let ?l = "\<lparr>fc_addr = ?a, fc_order = k\<rparr>" and ?r = "\<lparr>fc_addr = ?b, fc_order = k\<rparr>"
  have cs: "chunk_set n S" "Suc k < n" "aligned ?a (Suc k)" "bytes_of c \<inter> bytes_in S = {}"
    using assms(1,5) chunk_set_insert [OF assms(2)] by auto
  note h = block_halves [OF cs(3)]
  have bc: "bytes_of ?l \<union> bytes_of ?r = bytes_of c" using h(4) assms(5) by simp
  have r: "?r \<notin> S" using assms(6) by (metis FreeChunk.select_convs(2))
  have "?l \<notin> S" using assms(6) by (metis FreeChunk.select_convs(2))
  then have l: "?l \<notin> insert ?r S" using size_of_order_pos [of k] by simp
  have cr: "chunk_set n (insert ?r S)"
    using chunk_set_insert [OF r] cs(1,2,4) h(2) bc by auto
  have cl: "chunk_set n (insert ?l (insert ?r S))"
    using chunk_set_insert [OF l] cr cs(2,4) h(1,5) bc by auto
  have "\<lparr>fc_addr = buddy_of ?b k, fc_order = k\<rparr> \<notin> S" using assms(6) by (metis FreeChunk.select_convs(2))
  then have co: "coalesced n (insert ?r S)"
    using coalesced_insert [OF assms(3), of ?r] h(2) by simp
  have u: "b \<in> used \<longleftrightarrow> b = ?a" if "b \<in> bytes_of c" for b using assms(4) that by (simp add: heads_only_insert)
  have bin: "?b \<in> bytes_of c" "?b \<notin> bytes_in S" using bc cs(4) block_start [of ?b k] by auto
  have "b \<in> insert ?b used \<longleftrightarrow> b = ?a" if "b \<in> bytes_of ?l" for b
    using that u [of b] bc h(5) block_start [of ?b k] by auto
  moreover have "b \<in> insert ?b used \<longleftrightarrow> b = ?b" if "b \<in> bytes_of ?r" for b
  proof -
    have "?a \<notin> block ?b k" using h(5) block_start [of ?a k] by blast
    then have "b \<in> bytes_of c" "b \<noteq> ?a" using that bc by auto
    then show ?thesis using u [of b] by simp
  qed
  moreover have "heads_only (insert ?b used) S"
    using assms(4) bin(2) by (auto simp: heads_only_def bytes_in_def)
  ultimately have ho: "heads_only (insert ?b used) (insert ?l (insert ?r S))"
    by (simp add: heads_only_insert)
  have "?b \<notin> used" using u [OF bin(1)] size_of_order_pos [of k] by simp
  then have "FreeChunk_split_free used c = Return (?l, ?r, insert ?b used)"
    using assms(5) h(3) by (cases c) (simp add: FreeChunk_split_free_def checked_sub_def buddy_of_def Let_def)
  then show thesis using that [of ?l ?r "insert ?b used"] r l cl co ho bc bin(1) by auto
qed

lemma split_down_correct:
  assumes "well_placed ls" "chunk_set (length ls) (insert c (chunks ls))" "c \<notin> chunks ls"
    "coalesced (length ls) (chunks ls)" "heads_only used (insert c (chunks ls))"
    "fc_order c = order + n" "\<forall>d \<in> chunks ls. fc_order d < order \<or> order + n \<le> fc_order d"
  shows "\<exists>ls' c' used'. split_down debug ls c order n used = Return (ls', c', used') \<and>
    well_placed ls' \<and> length ls' = length ls \<and> c' \<notin> chunks ls' \<and>
    chunk_set (length ls) (insert c' (chunks ls')) \<and> coalesced (length ls) (chunks ls') \<and>
    heads_only used' (insert c' (chunks ls')) \<and> fc_addr c' = fc_addr c \<and> fc_order c' = order \<and>
    bytes_of c' \<union> bytes_in (chunks ls') = bytes_of c \<union> bytes_in (chunks ls) \<and>
    (\<forall>b. b \<notin> bytes_of c \<longrightarrow> (b \<in> used' \<longleftrightarrow> b \<in> used))"
  using assms
proof (induction n arbitrary: ls c used)
  case 0
  then show ?case by simp
next
  case (Suc n)
  let ?k = "order + n"
  have k: "fc_order c = Suc ?k" "\<forall>d \<in> chunks ls. fc_order d \<noteq> ?k" using Suc.prems(6,7) by auto
  obtain l r used' where s: "FreeChunk_split_free used c = Return (l, r, used')"
    "fc_order l = ?k" "fc_order r = ?k" "fc_addr l = fc_addr c" "r \<notin> chunks ls" "l \<notin> insert r (chunks ls)"
    "chunk_set (length ls) (insert l (insert r (chunks ls)))" "coalesced (length ls) (insert r (chunks ls))"
    "heads_only used' (insert l (insert r (chunks ls)))" "bytes_of l \<union> bytes_of r = bytes_of c"
    "\<And>b. b \<notin> bytes_of c \<Longrightarrow> b \<in> used' \<longleftrightarrow> b \<in> used"
    using split_free_step [OF Suc.prems(2-5) k] by metis
  have "fc_order r < length ls" using chunk_setD [OF s(7), of r] by simp
  then obtain ls' where push: "push_front_at ?k r ls = Return ls'" "well_placed ls'"
    "chunks ls' = insert r (chunks ls)" "length ls' = length ls"
    using push_front_at_chunks [OF Suc.prems(1) _ s(5)] s(3) by metis
  have step: "split_down debug ls c order (Suc n) used = split_down debug ls' l order n used'"
    using s(1,3) push(1) by simp
  have low: "\<forall>d \<in> chunks ls'. fc_order d < order \<or> ?k \<le> fc_order d"
    using Suc.prems(7) s(3) push(3) by auto
  obtain ls2 c2 used2 where IH: "split_down debug ls' l order n used' = Return (ls2, c2, used2)"
    "well_placed ls2" "length ls2 = length ls" "c2 \<notin> chunks ls2" "chunk_set (length ls) (insert c2 (chunks ls2))"
    "coalesced (length ls) (chunks ls2)" "heads_only used2 (insert c2 (chunks ls2))"
    "fc_addr c2 = fc_addr c" "fc_order c2 = order"
    "bytes_of c2 \<union> bytes_in (chunks ls2) = bytes_of l \<union> (bytes_of r \<union> bytes_in (chunks ls))"
    "\<forall>b. b \<notin> bytes_of l \<longrightarrow> (b \<in> used2 \<longleftrightarrow> b \<in> used')"
    using Suc.IH [OF push(2), of l used'] s push(3,4) low by auto
  have "b \<in> used2 \<longleftrightarrow> b \<in> used" if "b \<notin> bytes_of c" for b using that IH(11) s(10,11) by blast
  moreover have "bytes_of c2 \<union> bytes_in (chunks ls2) = bytes_of c \<union> bytes_in (chunks ls)"
    using IH(10) s(10) by (metis Un_assoc)
  ultimately show ?case unfolding step IH(1) using IH(2-9) by simp
qed

lemma alloc_chunk_None:
  assumes "pool_ok used self" "\<forall>c \<in> chunks (bs_lists self). fc_order c < order"
  shows "BuddySet_alloc_chunk debug order self used = Return (None, self, used)"
    "aligned a order \<Longrightarrow> order < length (bs_lists self) \<Longrightarrow> \<not> block a order \<subseteq> free_bytes self"
proof -
  have wp: "well_placed (bs_lists self)" using assms(1) by (simp add: pool_ok_def)
  have "bs_lists self ! i = []" if "order \<le> i" "i < length (bs_lists self)" for i
  proof (rule ccontr)
    assume "bs_lists self ! i \<noteq> []"
    then have h: "hd (bs_lists self ! i) \<in> set (bs_lists self ! i)" by simp
    then have "fc_order (hd (bs_lists self ! i)) = i" using well_placedD(2) [OF wp that(2)] by blast
    then have "hd (bs_lists self ! i) \<in> chunks (bs_lists self)" "order \<le> fc_order (hd (bs_lists self ! i))"
      using chunks_iff [OF wp] h that by simp_all
    then show False using assms(2) by auto
  qed
  then have "position (\<lambda>list. list \<noteq> []) (drop order (bs_lists self)) = None"
    by (simp add: position_drop_None_iff)
  then show "BuddySet_alloc_chunk debug order self used = Return (None, self, used)"
    by (simp add: BuddySet_alloc_chunk_def)
  show "\<not> block a order \<subseteq> free_bytes self" if "aligned a order" "order < length (bs_lists self)"
    using coalesced_block [of "length (bs_lists self)" "chunks (bs_lists self)" order a] assms that
    by (fastforce simp: pool_ok_def free_bytes_def)
qed

lemma alloc_chunk_Some:
  assumes "pool_ok used self" "c0 \<in> chunks (bs_lists self)" "order \<le> fc_order c0"
  obtains a self' used' where "BuddySet_alloc_chunk debug order self used = Return (Some a, self', used')"
    "aligned a order" "block a order \<subseteq> free_bytes self" "pool_ok used' self'"
    "free_bytes self' = free_bytes self - block a order" "block a order \<inter> used' = {}"
    "length (bs_lists self') = length (bs_lists self)"
    "\<And>b. b \<notin> free_bytes self \<Longrightarrow> b \<in> used' \<longleftrightarrow> b \<in> used"
proof -
  let ?ls = "bs_lists self"
  let ?n = "length ?ls" and ?S = "chunks ?ls"
  have ok: "well_placed ?ls" "chunk_set ?n ?S" "coalesced ?n ?S" "heads_only used ?S"
    "bs_total_size self = card (free_bytes self)" "free_bytes self \<subseteq> {..<paddr_limit}"
    using assms(1) by (simp_all add: pool_ok_def)
  have c0: "fc_order c0 < ?n" "?ls ! fc_order c0 \<noteq> []" using chunks_iff [OF ok(1)] assms(2) by auto
  then have "position (\<lambda>list. list \<noteq> []) (drop order ?ls) \<noteq> None"
    using assms(3) unfolding position_drop_None_iff by auto
  then obtain n where pos: "position (\<lambda>list. list \<noteq> []) (drop order ?ls) = Some n" by blast
  then have n: "order + n < ?n" "?ls ! (order + n) \<noteq> []" "\<And>j. j < n \<Longrightarrow> ?ls ! (order + j) = []"
    using position_SomeD [OF pos] by (auto simp: less_diff_conv)
  obtain c xs where c: "?ls ! (order + n) = c # xs" using n(2) by (meson neq_Nil_conv)
  obtain ys where ys: "remove_at 0 (?ls ! (order + n)) = Return ys" "well_placed (?ls[order + n := ys])"
    "chunks (?ls[order + n := ys]) = ?S - {c}" "c \<in> ?S" "fc_order c = order + n"
    using remove_at_chunks [OF ok(1) n(1), of 0] c by auto
  have [simp]: "ys = xs" using ys(1) c by (simp add: remove_at_def)
  let ?ls1 = "?ls[order + n := xs]"
  have ins: "insert c (?S - {c}) = ?S" using ys(4) by blast
  have low: "\<forall>d \<in> ?S - {c}. fc_order d < order \<or> order + n \<le> fc_order d"
  proof
    fix d assume "d \<in> ?S - {c}"
    then have "?ls ! fc_order d \<noteq> []" using chunks_iff [OF ok(1)] by auto
    then have "\<not> fc_order d - order < n \<or> fc_order d < order" using n(3) [of "fc_order d - order"]
      by (cases "order \<le> fc_order d") auto
    then show "fc_order d < order \<or> order + n \<le> fc_order d" by linarith
  qed
  have co1: "coalesced ?n (?S - {c})" using ok(3) by (rule coalesced_subset) blast
  obtain ls c' used' where d: "split_down debug ?ls1 c order n used = Return (ls, c', used')"
    "well_placed ls" "length ls = ?n" "c' \<notin> chunks ls" "chunk_set ?n (insert c' (chunks ls))"
    "coalesced ?n (chunks ls)" "heads_only used' (insert c' (chunks ls))" "fc_order c' = order"
    "bytes_of c' \<union> bytes_in (chunks ls) = bytes_of c \<union> bytes_in (?S - {c})"
    "\<forall>b. b \<notin> bytes_of c \<longrightarrow> (b \<in> used' \<longleftrightarrow> b \<in> used)"
    using split_down_correct [of ?ls1 c used order n debug] ys ok co1 low
    by (auto simp: insert_absorb [OF ys(4)])
  let ?a = "fc_addr c'"
  have cs: "chunk_set ?n (chunks ls)" "aligned ?a order" "bytes_of c' \<inter> bytes_in (chunks ls) = {}"
    using d(5,8) chunk_set_insert [OF d(4)] by auto
  have free: "bytes_of c' \<union> bytes_in (chunks ls) = free_bytes self"
    using d(9) bytes_in_insert [of c "?S - {c}"] unfolding ins free_bytes_def by simp
  have blk: "block ?a order \<subseteq> free_bytes self" and rest: "bytes_in (chunks ls) = free_bytes self - block ?a order"
    using free cs(3) d(8) by auto
  have card: "card (free_bytes self - block ?a order) = card (free_bytes self) - size_of_order order"
    using card_Diff_subset [OF _ blk] by simp
  have "size_of_order order \<le> card (free_bytes self)"
    using card_mono [OF free_bytes_finite [OF ok(6)] blk] by simp
  then have total: "checked_sub (bs_total_size self) (size_of_order order)
      = Return (card (free_bytes self - block ?a order))"
    using ok(5) card by (simp add: checked_sub_def)
  let ?self = "self\<lparr>bs_lists := ls, bs_total_size := card (free_bytes self - block ?a order)\<rparr>"
  have "BuddySet_alloc_chunk debug order self used = Return (Some ?a, ?self, used' - {?a})"
    using pos c ys(5) d(1) total by (simp add: BuddySet_alloc_chunk_def Let_def)
  moreover have "heads_only (used' - {?a}) (chunks ls)"
    using d(7) cs(3) block_start [of ?a order] d(8) unfolding heads_only_insert heads_only_def bytes_in_def
    by blast
  then have "pool_ok (used' - {?a}) ?self"
    using d(2,3,6) cs(1) rest ok(6) by (auto simp: pool_ok_def free_bytes_def)
  moreover have "block ?a order \<inter> (used' - {?a}) = {}" using d(7,8) by (auto simp: heads_only_insert)
  moreover have "b \<in> used' - {?a} \<longleftrightarrow> b \<in> used" if "b \<notin> free_bytes self" for b
  proof -
    have "b \<notin> bytes_of c" using that ys(4) by (auto simp: free_bytes_def bytes_in_def)
    moreover have "b \<noteq> ?a" using that blk block_start by blast
    ultimately show ?thesis using d(10) by simp
  qed
  ultimately show thesis
    using that [of ?a ?self "used' - {?a}"] cs(2) blk rest d(3) by (simp add: free_bytes_def)
qed

end
