(* ===== verification/Buddy_Pools.thy ===== *)
theory Buddy_Pools
  imports Buddy_Set
begin

text \<open>
  The pools of the frame allocator, \<open>osdk/deps/frame-allocator/src/pools/mod.rs\<close> and
  \<open>pools/balancing.rs\<close>: every CPU has a local buddy set, all share a global one, and after each
  operation chunks move between the two so that the local set stays near its expected size.

  An operation runs with interrupts disabled on one CPU and takes the lock of the global set when it
  first needs it, so the state an operation sees is its CPU's local set, the global set, the
  snapshot \<open>GLOBAL_POOL_SIZE\<close>, and whether it already holds the lock. \<open>pl_used\<close> is the set of frames
  whose metadata is in use, which all sets share.
\<close>

section \<open>The model\<close>

abbreviation MAX_BUDDY_ORDER :: nat where
  "MAX_BUDDY_ORDER \<equiv> 32"

abbreviation MAX_LOCAL_BUDDY_ORDER :: nat where
  "MAX_LOCAL_BUDDY_ORDER \<equiv> 18"

record Pools =
  pl_local :: BuddySet
  pl_global :: BuddySet
  pl_global_size :: nat
  pl_locked :: bool
  pl_used :: "nat set"

definition OnDemandGlobalLock_new :: "Pools \<Rightarrow> Pools" where
  "OnDemandGlobalLock_new p = p\<lparr>pl_locked := False\<rparr>"

definition OnDemandGlobalLock_get :: "Pools \<Rightarrow> Pools" where
  "OnDemandGlobalLock_get p = p\<lparr>pl_locked := True\<rparr>"

definition OnDemandGlobalLock_get_global_size :: "Pools \<Rightarrow> nat" where
  "OnDemandGlobalLock_get_global_size p =
     (if pl_locked p then bs_total_size (pl_global p) else pl_global_size p)"

definition OnDemandGlobalLock_drop :: "Pools \<Rightarrow> Pools" where
  "OnDemandGlobalLock_drop p =
     (if pl_locked p then p\<lparr>pl_global_size := bs_total_size (pl_global p), pl_locked := False\<rparr> else p)"

text \<open>The operations of the two sets on the common state.\<close>

definition local_insert_chunk :: "bool \<Rightarrow> nat \<Rightarrow> nat \<Rightarrow> Pools \<Rightarrow> Pools outcome" where
  "local_insert_chunk debug addr order p =
     and_then (BuddySet_insert_chunk debug addr order (pl_local p) (pl_used p)) (\<lambda>(s, used).
     Return (p\<lparr>pl_local := s, pl_used := used\<rparr>))"

definition global_insert_chunk :: "bool \<Rightarrow> nat \<Rightarrow> nat \<Rightarrow> Pools \<Rightarrow> Pools outcome" where
  "global_insert_chunk debug addr order p =
     (let p = OnDemandGlobalLock_get p in
      and_then (BuddySet_insert_chunk debug addr order (pl_global p) (pl_used p)) (\<lambda>(s, used).
      Return (p\<lparr>pl_global := s, pl_used := used\<rparr>)))"

definition local_alloc_chunk :: "bool \<Rightarrow> nat \<Rightarrow> Pools \<Rightarrow> (nat option \<times> Pools) outcome" where
  "local_alloc_chunk debug order p =
     and_then (BuddySet_alloc_chunk debug order (pl_local p) (pl_used p)) (\<lambda>(r, s, used).
     Return (r, p\<lparr>pl_local := s, pl_used := used\<rparr>))"

definition global_alloc_chunk :: "bool \<Rightarrow> nat \<Rightarrow> Pools \<Rightarrow> (nat option \<times> Pools) outcome" where
  "global_alloc_chunk debug order p =
     (let p = OnDemandGlobalLock_get p in
      and_then (BuddySet_alloc_chunk debug order (pl_global p) (pl_used p)) (\<lambda>(r, s, used).
      Return (r, p\<lparr>pl_global := s, pl_used := used\<rparr>)))"

subsection \<open>Balancing\<close>

definition cache_expected_size :: "nat \<Rightarrow> nat \<Rightarrow> nat" where
  "cache_expected_size num_cpus global_size = global_size div num_cpus div 2"

definition cache_minimal_size :: "nat \<Rightarrow> nat \<Rightarrow> nat" where
  "cache_minimal_size num_cpus global_size = cache_expected_size num_cpus global_size div 8"

definition cache_maximal_size :: "nat \<Rightarrow> nat \<Rightarrow> nat" where
  "cache_maximal_size num_cpus global_size = cache_expected_size num_cpus global_size * 2"

text \<open>\<open>MAX_ORDER2\<close> is the number of lists of \<open>b\<close>.\<close>

fun balance_to :: "bool \<Rightarrow> nat \<Rightarrow> BuddySet \<times> BuddySet \<times> nat set
    \<Rightarrow> (BuddySet \<times> BuddySet \<times> nat set) outcome" where
  "balance_to debug order (a, b, used) =
     and_then (BuddySet_alloc_chunk debug order a used) (\<lambda>(allocated_from_a, a, used).
     case allocated_from_a of
       Some addr \<Rightarrow>
         if order \<ge> length (bs_lists b) then
           and_then (checked_sub (length (bs_lists b)) 1) (\<lambda>inserted_order.
           and_then (split_to_order addr order inserted_order) (\<lambda>addrs.
           for_each (\<lambda>addr (a, b, used).
             and_then (BuddySet_insert_chunk debug addr inserted_order b used) (\<lambda>(b, used).
             Return (a, b, used))) addrs (a, b, used)))
         else
           and_then (BuddySet_insert_chunk debug addr order b used) (\<lambda>(b, used). Return (a, b, used))
     | None \<Rightarrow>
         if order > 1 then
           and_then (balance_to debug (order - 1) (a, b, used)) (balance_to debug (order - 1))
         else Return (a, b, used))"

declare balance_to.simps [simp del]

definition balance :: "bool \<Rightarrow> nat \<Rightarrow> Pools \<Rightarrow> Pools outcome" where
  "balance debug num_cpus p =
     (let global_size = OnDemandGlobalLock_get_global_size p;
          minimal_local_size = cache_minimal_size num_cpus global_size;
          expected_local_size = cache_expected_size num_cpus global_size;
          maximal_local_size = cache_maximal_size num_cpus global_size;
          local_size = bs_total_size (pl_local p)
      in
        if local_size \<ge> maximal_local_size then
          if local_size = 0 then Return p
          else
            and_then (checked_sub local_size expected_local_size) (\<lambda>expected_removal.
            and_then (lesser_order_of expected_removal) (\<lambda>lesser_order.
            let p = OnDemandGlobalLock_get p in
            and_then (balance_to debug lesser_order (pl_local p, pl_global p, pl_used p))
              (\<lambda>(l, g, used). Return (p\<lparr>pl_local := l, pl_global := g, pl_used := used\<rparr>))))
        else if local_size < minimal_local_size then
          if global_size = 0 then Return p
          else
            and_then (checked_sub expected_local_size local_size) (\<lambda>expected_allocation.
            and_then (lesser_order_of expected_allocation) (\<lambda>lesser_order.
            let p = OnDemandGlobalLock_get p in
            and_then (balance_to debug lesser_order (pl_global p, pl_local p, pl_used p))
              (\<lambda>(g, l, used). Return (p\<lparr>pl_local := l, pl_global := g, pl_used := used\<rparr>))))
        else Return p)"

subsection \<open>Allocation and deallocation\<close>

definition do_dealloc :: "bool \<Rightarrow> (nat \<times> nat) list \<Rightarrow> Pools \<Rightarrow> Pools outcome" where
  "do_dealloc debug segments p =
     for_each (\<lambda>(addr, sz) p.
       and_then (split_to_chunks addr sz) (\<lambda>chunks.
       for_each (\<lambda>(addr, order) p.
         if order \<ge> MAX_LOCAL_BUDDY_ORDER then global_insert_chunk debug addr order p
         else local_insert_chunk debug addr order p) chunks p)) segments p"

definition pools_dealloc :: "bool \<Rightarrow> nat \<Rightarrow> (nat \<times> nat) list \<Rightarrow> Pools \<Rightarrow> Pools outcome" where
  "pools_dealloc debug num_cpus segments p =
     (let p = OnDemandGlobalLock_new p in
      and_then (do_dealloc debug segments p) (\<lambda>p.
      and_then (balance debug num_cpus p) (\<lambda>p.
      Return (OnDemandGlobalLock_drop p))))"

text \<open>\<open>pools::alloc\<close> up to the call of \<open>balance\<close>, and all of it.\<close>

definition pools_take :: "bool \<Rightarrow> nat \<Rightarrow> nat \<Rightarrow> Pools \<Rightarrow> (nat option \<times> Pools) outcome" where
  "pools_take debug layout_size layout_align p =
     (let p = OnDemandGlobalLock_new p;
          size_order = greater_order_of layout_size;
          align_order = greater_order_of layout_align;
          order = max size_order align_order
      in
        and_then (if order < MAX_LOCAL_BUDDY_ORDER then local_alloc_chunk debug order p else Return (None, p))
          (\<lambda>(chunk_addr, p).
        and_then (if chunk_addr = None then global_alloc_chunk debug order p else Return (chunk_addr, p))
          (\<lambda>(chunk_addr, p).
        let allocated_size = size_of_order order in
        and_then
          (case chunk_addr of
             Some addr \<Rightarrow>
               if allocated_size > layout_size
               then do_dealloc debug [(addr + layout_size, allocated_size - layout_size)] p
               else Return p
           | None \<Rightarrow> Return p) (\<lambda>p.
        Return (chunk_addr, p)))))"

definition pools_alloc :: "bool \<Rightarrow> nat \<Rightarrow> nat \<Rightarrow> nat \<Rightarrow> Pools \<Rightarrow> (nat option \<times> Pools) outcome" where
  "pools_alloc debug num_cpus layout_size layout_align p =
     and_then (pools_take debug layout_size layout_align p) (\<lambda>(chunk_addr, p).
     and_then (balance debug num_cpus p) (\<lambda>p.
     Return (chunk_addr, OnDemandGlobalLock_drop p)))"

definition pools_add_free_memory :: "bool \<Rightarrow> nat \<Rightarrow> nat \<Rightarrow> Pools \<Rightarrow> Pools outcome" where
  "pools_add_free_memory debug addr sz p =
     (let p = OnDemandGlobalLock_new p in
      and_then (split_to_chunks addr sz) (\<lambda>chunks.
      and_then (for_each (\<lambda>(addr, order) p. global_insert_chunk debug addr order p) chunks p) (\<lambda>p.
      Return (OnDemandGlobalLock_drop p))))"

section \<open>Two sets side by side\<close>

type_synonym pool_pair = "BuddySet \<times> BuddySet \<times> nat set"

lemma pool_ok_frame:
  assumes "pool_ok used s" "\<And>b. b \<in> free_bytes s \<Longrightarrow> b \<in> used' \<longleftrightarrow> b \<in> used"
  shows "pool_ok used' s"
  using assms unfolding pool_ok_def heads_only_def free_bytes_def bytes_in_def by blast

fun pair_ok :: "pool_pair \<Rightarrow> bool" where
  "pair_ok (a, b, used) \<longleftrightarrow> pool_ok used a \<and> pool_ok used b \<and> free_bytes a \<inter> free_bytes b = {}"

fun pair_free :: "pool_pair \<Rightarrow> nat set" where
  "pair_free (a, b, used) = free_bytes a \<union> free_bytes b"

fun pair_used :: "pool_pair \<Rightarrow> nat set" where
  "pair_used (a, b, used) = used"

fun pair_orders :: "pool_pair \<Rightarrow> nat \<times> nat" where
  "pair_orders (a, b, used) = (length (bs_lists a), length (bs_lists b))"

fun swap_pair :: "pool_pair \<Rightarrow> pool_pair" where
  "swap_pair (a, b, used) = (b, a, used)"

text \<open>Bytes outside the free memory whose frames are unused can be handed in.\<close>

definition fresh :: "nat set \<Rightarrow> pool_pair \<Rightarrow> bool" where
  "fresh R s \<longleftrightarrow> R \<inter> pair_free s = {} \<and> R \<inter> pair_used s = {} \<and> R \<subseteq> {..<paddr_limit}"

definition added :: "nat set \<Rightarrow> pool_pair \<Rightarrow> pool_pair \<Rightarrow> bool" where
  "added R s t \<longleftrightarrow> pair_ok t \<and> pair_orders t = pair_orders s \<and> pair_free t = pair_free s \<union> R \<and>
     (\<forall>b. b \<notin> pair_free t \<longrightarrow> (b \<in> pair_used t \<longleftrightarrow> b \<in> pair_used s))"

definition taken :: "nat set \<Rightarrow> pool_pair \<Rightarrow> pool_pair \<Rightarrow> bool" where
  "taken R s t \<longleftrightarrow> pair_ok t \<and> pair_orders t = pair_orders s \<and> R \<subseteq> pair_free s \<and>
     pair_free t = pair_free s - R \<and> R \<inter> pair_used t = {} \<and>
     (\<forall>b. b \<notin> pair_free s \<longrightarrow> (b \<in> pair_used t \<longleftrightarrow> b \<in> pair_used s))"

lemma added_refl: "pair_ok s \<Longrightarrow> added {} s s"
  by (simp add: added_def)

lemma added_ok: "added R s t \<Longrightarrow> pair_ok t"
  by (simp add: added_def)

lemma added_trans: "added R s t \<Longrightarrow> added Q t v \<Longrightarrow> added (R \<union> Q) s v"
  unfolding added_def by auto

lemma fresh_added:
  assumes "fresh Q s" "added R s t" "Q \<inter> R = {}"
  shows "fresh Q t"
proof -
  have "Q \<inter> pair_free t = {}" using assms by (auto simp: fresh_def added_def)
  moreover from this have "Q \<inter> pair_used t = {}" using assms(1,2) unfolding fresh_def added_def by blast
  ultimately show ?thesis using assms(1) by (simp add: fresh_def)
qed

lemma fresh_subset: "fresh R s \<Longrightarrow> Q \<subseteq> R \<Longrightarrow> fresh Q s"
  unfolding fresh_def by blast

lemma pair_free_limit: "pair_ok s \<Longrightarrow> pair_free s \<subseteq> {..<paddr_limit}"
  by (cases s) (simp add: pool_ok_def)

lemma taken_fresh: "pair_ok s \<Longrightarrow> taken R s t \<Longrightarrow> fresh R t"
  using pair_free_limit [of s] unfolding taken_def fresh_def by auto

lemma taken_added:
  assumes "taken R s t" "added Q t v" "Q \<subseteq> R"
  shows "taken (R - Q) s v"
proof -
  have "(R - Q) \<inter> pair_free v = {}" using assms by (auto simp: taken_def added_def)
  then have "(R - Q) \<inter> pair_used v = {}" using assms unfolding taken_def added_def by blast
  moreover have free: "pair_free v = pair_free s - (R - Q)" using assms by (auto simp: taken_def added_def)
  moreover have "b \<in> pair_used v \<longleftrightarrow> b \<in> pair_used s" if "b \<notin> pair_free s" for b
  proof -
    have "b \<notin> pair_free v" using that free by blast
    then show ?thesis using assms(1,2) that by (simp add: taken_def added_def)
  qed
  moreover have "R - Q \<subseteq> pair_free s" "pair_ok v" "pair_orders v = pair_orders s"
    using assms by (auto simp: taken_def added_def)
  ultimately show ?thesis by (simp add: taken_def)
qed

lemma taken_empty: "taken {} s t \<longleftrightarrow> added {} s t"
  by (auto simp: taken_def added_def)

lemma swap_simps [simp]:
  "pair_ok (swap_pair s) \<longleftrightarrow> pair_ok s" "pair_free (swap_pair s) = pair_free s"
  "pair_used (swap_pair s) = pair_used s" "swap_pair (swap_pair s) = s"
  "pair_orders (swap_pair s) = prod.swap (pair_orders s)"
  by (cases s; auto)+

lemma added_swap: "added R (swap_pair s) (swap_pair t) \<longleftrightarrow> added R s t"
  by (auto simp: added_def prod_eq_iff)

lemma taken_swap: "taken R (swap_pair s) (swap_pair t) \<longleftrightarrow> taken R s t"
  by (auto simp: taken_def prod_eq_iff)

lemma fresh_swap [simp]: "fresh R (swap_pair s) \<longleftrightarrow> fresh R s"
  by (simp add: fresh_def)

text \<open>The set operations on the first component of a pair.\<close>

lemma insert_first:
  assumes "pair_ok (a, b, used)" "aligned addr k" "k < length (bs_lists a)" "fresh (block addr k) (a, b, used)"
  obtains a' used' where "BuddySet_insert_chunk debug addr k a used = Return (a', used')"
    "added (block addr k) (a, b, used) (a', b, used')"
proof -
  obtain a' used' where i: "BuddySet_insert_chunk debug addr k a used = Return (a', used')"
    "pool_ok used' a'" "free_bytes a' = free_bytes a \<union> block addr k"
    "length (bs_lists a') = length (bs_lists a)" "\<And>x. x \<notin> free_bytes a' \<Longrightarrow> x \<in> used' \<longleftrightarrow> x \<in> used"
    using insert_chunk_correct [of used a addr k debug] assms by (auto simp: fresh_def)
  have disj: "free_bytes a' \<inter> free_bytes b = {}" using assms i(3) by (auto simp: fresh_def)
  have "pool_ok used' b" by (rule pool_ok_frame [of used]) (use assms(1) i(5) disj in auto)
  then have "added (block addr k) (a, b, used) (a', b, used')"
    using i disj by (auto simp: added_def)
  with i(1) show thesis by (rule that)
qed

lemma alloc_first:
  assumes "pair_ok (a, b, used)"
  obtains (none) "BuddySet_alloc_chunk debug k a used = Return (None, a, used)"
      "k < length (bs_lists a) \<Longrightarrow> \<forall>addr. aligned addr k \<longrightarrow> \<not> block addr k \<subseteq> free_bytes a"
    | (some) addr a' used' where "BuddySet_alloc_chunk debug k a used = Return (Some addr, a', used')"
      "aligned addr k" "k < length (bs_lists a)" "taken (block addr k) (a, b, used) (a', b, used')"
proof (cases "\<forall>c \<in> chunks (bs_lists a). fc_order c < k")
  case True
  then show ?thesis using none alloc_chunk_None [of used a k] assms by simp
next
  case False
  then obtain c where c: "c \<in> chunks (bs_lists a)" "k \<le> fc_order c" by (meson not_less)
  have ok: "pool_ok used a" using assms by simp
  obtain addr a' used' where r: "BuddySet_alloc_chunk debug k a used = Return (Some addr, a', used')"
    "aligned addr k" "block addr k \<subseteq> free_bytes a" "pool_ok used' a'"
    "free_bytes a' = free_bytes a - block addr k" "block addr k \<inter> used' = {}"
    "length (bs_lists a') = length (bs_lists a)" "\<And>b. b \<notin> free_bytes a \<Longrightarrow> b \<in> used' \<longleftrightarrow> b \<in> used"
    using alloc_chunk_Some [OF ok c] by metis
  have "pool_ok used' b" by (rule pool_ok_frame [of used]) (use assms r(8) in auto)
  then have "taken (block addr k) (a, b, used) (a', b, used')"
    using assms r by (auto simp: taken_def)
  moreover have "k < length (bs_lists a)"
    using ok c chunk_setD [of "length (bs_lists a)" "chunks (bs_lists a)" c] by (simp add: pool_ok_def)
  ultimately show ?thesis using some r(1,2) by blast
qed

section \<open>Handing chunks in\<close>

text \<open>
  What the loops over chunks rely on: putting one aligned chunk of fresh memory into the sets, of an
  order they accept, returns and adds exactly that chunk.
\<close>

locale chunk_sink =
  fixes view :: "'s \<Rightarrow> pool_pair" and put :: "nat \<times> nat \<Rightarrow> 's \<Rightarrow> 's outcome"
    and accepts :: "nat \<times> nat \<Rightarrow> nat \<Rightarrow> bool"
  assumes put_added: "pair_ok (view s) \<Longrightarrow> accepts (pair_orders (view s)) k \<Longrightarrow> aligned a k \<Longrightarrow>
      fresh (block a k) (view s) \<Longrightarrow> \<exists>t. put (a, k) s = Return t \<and> added (block a k) (view s) (view t)"
begin

lemma put_tiles:
  assumes "tiles addr sz cs" "pair_ok (view s)" "\<forall>c \<in> set cs. accepts (pair_orders (view s)) (snd c)"
    "fresh {addr..<addr + sz} (view s)"
  shows "\<exists>t. for_each put cs s = Return t \<and> added {addr..<addr + sz} (view s) (view t)"
  using assms
proof (induction addr sz cs arbitrary: s rule: tiles.induct)
  case (1 addr sz)
  then show ?case using added_refl by simp
next
  case (2 addr sz a k cs)
  let ?R = "block addr k" and ?Q = "{addr + size_of_order k..<addr + sz}"
  have k: "a = addr" "aligned addr k" "size_of_order k \<le> sz"
    "tiles (addr + size_of_order k) (sz - size_of_order k) cs"
    using 2(2) by (simp_all add: aligned_def)
  have R: "{addr..<addr + sz} = ?R \<union> ?Q" "?Q \<inter> ?R = {}"
    using k(3) ivl_disj_un_two(3) [of addr "addr + size_of_order k" "addr + sz"] by (auto simp: block_def)
  have Q: "addr + size_of_order k + (sz - size_of_order k) = addr + sz" using k(3) by simp
  have fr: "fresh ?R (view s)" "fresh ?Q (view s)" using 2(5) unfolding R(1) by (auto intro: fresh_subset)
  have "accepts (pair_orders (view s)) k" using 2(4) by simp
  then obtain t where t: "put (addr, k) s = Return t" "added ?R (view s) (view t)"
    using put_added [OF 2(3) _ k(2) fr(1)] by blast
  have o: "pair_orders (view t) = pair_orders (view s)" "pair_ok (view t)" using t(2) by (simp_all add: added_def)
  have "fresh ?Q (view t)" using fresh_added [OF fr(2) t(2) R(2)] .
  then obtain v where v: "for_each put cs t = Return v" "added ?Q (view t) (view v)"
    using 2(1) [OF k(4), of t] 2(4) o Q by auto
  have "added (?R \<union> ?Q) (view s) (view v)" using added_trans [OF t(2) v(2)] .
  then show ?case using t(1) v(1) k(1) unfolding R(1) by auto
qed

end

lemma for_each_map: "for_each f (map g xs) s = for_each (\<lambda>x. f (g x)) xs s"
proof (induction xs arbitrary: s)
  case (Cons x xs)
  then have "for_each f (map g xs) = for_each (\<lambda>x. f (g x)) xs" by blast
  then show ?case by simp
qed simp

definition put_second :: "bool \<Rightarrow> nat \<times> nat \<Rightarrow> pool_pair \<Rightarrow> pool_pair outcome" where
  "put_second debug = (\<lambda>(addr, k) (a, b, used).
     and_then (BuddySet_insert_chunk debug addr k b used) (\<lambda>(b, used). Return (a, b, used)))"

definition put_local_or_global :: "bool \<Rightarrow> nat \<times> nat \<Rightarrow> Pools \<Rightarrow> Pools outcome" where
  "put_local_or_global debug = (\<lambda>(addr, order) p.
     if order \<ge> MAX_LOCAL_BUDDY_ORDER then global_insert_chunk debug addr order p
     else local_insert_chunk debug addr order p)"

definition put_global :: "bool \<Rightarrow> nat \<times> nat \<Rightarrow> Pools \<Rightarrow> Pools outcome" where
  "put_global debug = (\<lambda>(addr, order) p. global_insert_chunk debug addr order p)"

definition pools_pair :: "Pools \<Rightarrow> pool_pair" where
  "pools_pair p = (pl_local p, pl_global p, pl_used p)"

lemma put_second_added:
  assumes "pair_ok s" "k < snd (pair_orders s)" "aligned addr k" "fresh (block addr k) s"
  shows "\<exists>t. put_second debug (addr, k) s = Return t \<and> added (block addr k) s t"
proof -
  obtain a b used where s: "s = (a, b, used)" by (cases s)
  have pre: "pair_ok (b, a, used)" "k < length (bs_lists b)" "fresh (block addr k) (b, a, used)"
    using assms fresh_swap [of "block addr k" "(a, b, used)"] by (auto simp: s)
  obtain b' used' where r: "BuddySet_insert_chunk debug addr k b used = Return (b', used')"
    "added (block addr k) (b, a, used) (b', a, used')"
    using insert_first [OF pre(1) assms(3) pre(2,3)] by metis
  then show ?thesis
    using added_swap [of "block addr k" "(a, b, used)" "(a, b', used')"] by (simp add: put_second_def s)
qed

interpretation second: chunk_sink "\<lambda>s. s" "put_second debug" "\<lambda>orders k. k < snd orders" for debug
  by unfold_locales (rule put_second_added)

lemma global_insert_put_second:
  "global_insert_chunk debug addr k p = and_then (put_second debug (addr, k) (pools_pair p))
     (\<lambda>(l, g, used). Return (p\<lparr>pl_locked := True, pl_global := g, pl_used := used\<rparr>))"
  by (simp add: global_insert_chunk_def put_second_def pools_pair_def OnDemandGlobalLock_get_def Let_def
      case_prod_unfold)

lemma put_second_keeps_first: "put_second debug c s = Return t \<Longrightarrow> fst t = fst s"
  by (auto simp: put_second_def split_beta)

lemma global_insert_added:
  assumes "pair_ok (pools_pair p)" "k < snd (pair_orders (pools_pair p))" "aligned addr k"
    "fresh (block addr k) (pools_pair p)"
  shows "\<exists>q. global_insert_chunk debug addr k p = Return q \<and> added (block addr k) (pools_pair p) (pools_pair q)"
proof -
  obtain l g used where t: "put_second debug (addr, k) (pools_pair p) = Return (l, g, used)"
    "added (block addr k) (pools_pair p) (l, g, used)"
    using put_second_added [OF assms] by (metis prod_cases3)
  have "l = pl_local p" using put_second_keeps_first [OF t(1)] by (simp add: pools_pair_def)
  then show ?thesis using t unfolding global_insert_put_second by (simp add: pools_pair_def)
qed

lemma local_insert_added:
  assumes "pair_ok (pools_pair p)" "k < fst (pair_orders (pools_pair p))" "aligned addr k"
    "fresh (block addr k) (pools_pair p)"
  shows "\<exists>q. local_insert_chunk debug addr k p = Return q \<and> added (block addr k) (pools_pair p) (pools_pair q)"
proof -
  have len: "k < length (bs_lists (pl_local p))" using assms(2) by (simp add: pools_pair_def)
  obtain l used where "BuddySet_insert_chunk debug addr k (pl_local p) (pl_used p) = Return (l, used)"
    "added (block addr k) (pools_pair p) (l, pl_global p, used)"
    using insert_first [OF _ assms(3) len, of "pl_global p" "pl_used p" debug] assms(1,4)
    by (metis pools_pair_def)
  then show ?thesis by (simp add: local_insert_chunk_def pools_pair_def)
qed

interpretation global: chunk_sink pools_pair "put_global debug" "\<lambda>orders k. k < snd orders" for debug
  by unfold_locales (simp add: put_global_def global_insert_added)

interpretation dealloc: chunk_sink pools_pair "put_local_or_global debug"
  "\<lambda>orders k. orders = (MAX_LOCAL_BUDDY_ORDER, MAX_BUDDY_ORDER) \<and> k < MAX_BUDDY_ORDER" for debug
  by unfold_locales (simp add: put_local_or_global_def global_insert_added local_insert_added)

section \<open>Balancing moves memory\<close>

lemma split_to_order_tiles:
  assumes "aligned addr k" "j \<le> k"
  obtains addrs where "split_to_order addr k j = Return addrs"
    "tiles addr (size_of_order k) (map (\<lambda>a. (a, j)) addrs)"
proof -
  let ?s = "size_of_order j"
  have "aligned addr j" using aligned_le assms by blast
  then have "tiles addr (?s * n) (map (\<lambda>i. (addr + ?s * i, j)) [0..<n])" for n
  proof (induction n arbitrary: addr)
    case (Suc n)
    have al: "aligned (addr + ?s) j" using Suc.prems by (simp add: aligned_def)
    have "map (\<lambda>i. (addr + ?s * i, j)) [0..<Suc n] = (addr, j) # map (\<lambda>i. (addr + ?s + ?s * i, j)) [0..<n]"
      by (simp add: upt_conv_Cons map_Suc_upt [symmetric] comp_def del: upt_Suc)
    then show ?case using Suc.IH [OF al] Suc.prems by (simp add: aligned_def)
  qed simp
  moreover have "?s * 2 ^ (k - j) = size_of_order k"
    using assms(2) by (simp add: size_of_order_power power_add [symmetric])
  ultimately have "tiles addr (size_of_order k) (map (\<lambda>i. (addr + ?s * i, j)) [0..<2 ^ (k - j)])" by metis
  then show thesis
    using that [of "map (\<lambda>i. addr + ?s * i) [0..<2 ^ (k - j)]"] assms
    by (simp add: split_to_order_def checked_sub_def aligned_def comp_def)
qed

lemma balance_to_correct:
  assumes "pair_ok s" "0 < snd (pair_orders s)"
  shows "\<exists>t. balance_to debug order s = Return t \<and> added {} s t"
  using assms
proof (induction order arbitrary: s rule: less_induct)
  case (less order)
  obtain a b used where s: "s = (a, b, used)" by (cases s)
  have ok: "pair_ok (a, b, used)" and len: "0 < length (bs_lists b)" using less.prems by (simp_all add: s)
  from ok show ?case
  proof (cases rule: alloc_first [where debug = debug and k = order])
    case none
    show ?thesis
    proof (cases "order > 1")
      case False
      then show ?thesis using none(1) added_refl [OF ok] by (simp add: s balance_to.simps [of debug order])
    next
      case True
      then have dec: "order - 1 < order" by simp
      obtain t where t: "balance_to debug (order - 1) s = Return t" "added {} s t"
        using less.IH [OF dec less.prems] by blast
      then have "pair_ok t" "0 < snd (pair_orders t)" using less.prems by (simp_all add: added_def)
      then obtain v where v: "balance_to debug (order - 1) t = Return v" "added {} t v"
        using less.IH [OF dec] by blast
      then show ?thesis
        using True none(1) t added_trans [OF t(2) v(2)] by (simp add: s balance_to.simps [of debug order])
    qed
  next
    case (some addr a' used')
    let ?s = "(a', b, used')"
    have ok': "pair_ok ?s" and fr: "fresh (block addr order) ?s"
      using some(4) taken_fresh [OF ok some(4)] by (simp_all add: taken_def)
    show ?thesis
    proof (cases "order < length (bs_lists b)")
      case True
      then obtain t where t: "put_second debug (addr, order) ?s = Return t" "added (block addr order) ?s t"
        using put_second_added [OF ok' _ some(2) fr, of debug] by (metis pair_orders.simps snd_conv)
      have "added {} s t" using taken_added [OF some(4) t(2)] by (simp add: s taken_empty)
      then show ?thesis using True some(1) t(1) by (auto simp: s balance_to.simps [of debug order] put_second_def)
    next
      case False
      let ?j = "length (bs_lists b) - 1"
      have "?j \<le> order" using False by simp
      then obtain addrs where sp: "split_to_order addr order ?j = Return addrs"
        "tiles addr (size_of_order order) (map (\<lambda>a. (a, ?j)) addrs)"
        using split_to_order_tiles [OF some(2)] by metis
      have "\<exists>t. for_each (put_second debug) (map (\<lambda>a. (a, ?j)) addrs) ?s = Return t
          \<and> added {addr..<addr + size_of_order order} ?s t"
        by (rule second.put_tiles [OF sp(2) ok']) (use len fr in \<open>auto simp: block_def\<close>)
      then obtain t where t: "for_each (\<lambda>a. put_second debug (a, ?j)) addrs ?s = Return t"
          "added (block addr order) ?s t"
        unfolding for_each_map block_def by blast
      have "added {} s t" using taken_added [OF some(4) t(2)] by (simp add: s taken_empty)
      moreover have "checked_sub (length (bs_lists b)) 1 = Return ?j" using len by (simp add: checked_sub_def Suc_le_eq)
      ultimately show ?thesis using False some(1) sp(1) t(1)
        by (simp add: s balance_to.simps [of debug order] put_second_def)
    qed
  qed
qed

section \<open>The pools\<close>

definition pools_ok :: "Pools \<Rightarrow> bool" where
  "pools_ok p \<longleftrightarrow> pair_ok (pools_pair p) \<and>
     pair_orders (pools_pair p) = (MAX_LOCAL_BUDDY_ORDER, MAX_BUDDY_ORDER) \<and> pl_global_size p < usize_limit"

lemma pools_pair_simps [simp]:
  "pools_pair (p\<lparr>pl_locked := x\<rparr>) = pools_pair p" "pools_pair (p\<lparr>pl_global_size := n\<rparr>) = pools_pair p"
  "pools_pair (OnDemandGlobalLock_new p) = pools_pair p" "pools_pair (OnDemandGlobalLock_get p) = pools_pair p"
  "pools_pair (OnDemandGlobalLock_drop p) = pools_pair p"
  by (simp_all add: pools_pair_def OnDemandGlobalLock_new_def OnDemandGlobalLock_get_def
      OnDemandGlobalLock_drop_def)

lemma pool_total_size:
  assumes "pool_ok used s"
  shows "PAGE_SIZE dvd bs_total_size s" "bs_total_size s \<le> paddr_limit"
proof -
  let ?S = "chunks (bs_lists s)"
  have ok: "chunk_set (length (bs_lists s)) ?S" "bs_total_size s = card (free_bytes s)"
    "free_bytes s \<subseteq> {..<paddr_limit}" using assms by (simp_all add: pool_ok_def)
  have "finite ?S" by (simp add: chunks_def)
  then have "card (free_bytes s) = (\<Sum>c \<in> ?S. card (bytes_of c))"
    unfolding free_bytes_def bytes_in_def
    by (rule card_UN_disjoint) (use ok(1) in \<open>auto simp: chunk_set_def\<close>)
  moreover have "PAGE_SIZE dvd card (bytes_of c)" for c
    using size_of_order_dvd [of 0 "fc_order c"] by simp
  ultimately show "PAGE_SIZE dvd bs_total_size s" using ok(2) by (simp add: dvd_sum)
  show "bs_total_size s \<le> paddr_limit" using card_mono [OF _ ok(3)] ok(2) by simp
qed

text \<open>
  The sizes for which \<open>balance\<close> computes the order of less than a page: one local page with a positive
  expected size of at most half a page, or an empty local set with an expected size between 8
  bytes and a page.
\<close>

definition balance_underflows :: "nat \<Rightarrow> Pools \<Rightarrow> bool" where
  "balance_underflows num_cpus p \<longleftrightarrow>
     (let expected = cache_expected_size num_cpus (OnDemandGlobalLock_get_global_size p);
          local_size = bs_total_size (pl_local p)
      in local_size = PAGE_SIZE \<and> 0 < expected \<and> expected * 2 \<le> PAGE_SIZE
         \<or> local_size = 0 \<and> 8 \<le> expected \<and> expected < PAGE_SIZE)"

lemma page_multiple_cases: "PAGE_SIZE dvd l \<Longrightarrow> l = 0 \<or> l = PAGE_SIZE \<or> 2 * PAGE_SIZE \<le> l"
proof (elim dvdE)
  fix k assume "l = PAGE_SIZE * k"
  then show ?thesis by (cases "k = 0"; cases "k = 1") auto
qed

lemma pools_ok_sizes:
  assumes "pools_ok p"
  shows "PAGE_SIZE dvd bs_total_size (pl_local p)" "bs_total_size (pl_local p) < usize_limit"
    "OnDemandGlobalLock_get_global_size p < usize_limit"
  using assms pool_total_size [of "pl_used p" "pl_local p"] pool_total_size [of "pl_used p" "pl_global p"]
  by (auto simp: pools_ok_def pools_pair_def OnDemandGlobalLock_get_global_size_def paddr_limit_def)

text \<open>The two directions of a transfer, once the order is known.\<close>

lemma balance_to_global:
  assumes "pools_ok p"
  obtains q where
    "and_then (balance_to debug k (pl_local p, pl_global p, pl_used p))
       (\<lambda>(l, g, used). Return (p\<lparr>pl_locked := True, pl_local := l, pl_global := g, pl_used := used\<rparr>)) = Return q"
    "added {} (pools_pair p) (pools_pair q)" "pl_global_size q = pl_global_size p"
proof -
  have "pair_ok (pools_pair p)" "0 < snd (pair_orders (pools_pair p))" using assms by (simp_all add: pools_ok_def)
  then obtain l g used where "balance_to debug k (pools_pair p) = Return (l, g, used)" "added {} (pools_pair p) (l, g, used)"
    using balance_to_correct by (metis prod_cases3)
  then show thesis
    using that [of "p\<lparr>pl_locked := True, pl_local := l, pl_global := g, pl_used := used\<rparr>"]
    by (simp add: pools_pair_def)
qed

lemma balance_to_local:
  assumes "pools_ok p"
  obtains q where
    "and_then (balance_to debug k (pl_global p, pl_local p, pl_used p))
       (\<lambda>(g, l, used). Return (p\<lparr>pl_locked := True, pl_local := l, pl_global := g, pl_used := used\<rparr>)) = Return q"
    "added {} (pools_pair p) (pools_pair q)" "pl_global_size q = pl_global_size p"
proof -
  let ?s = "swap_pair (pools_pair p)"
  have "pair_ok ?s" "0 < snd (pair_orders ?s)" using assms by (simp_all add: pools_ok_def)
  then obtain g l used where r: "balance_to debug k ?s = Return (g, l, used)" "added {} ?s (g, l, used)"
    using balance_to_correct by (metis prod_cases3)
  moreover have "added {} (pools_pair p) (l, g, used)"
    using r(2) added_swap [of "{}" "pools_pair p" "(l, g, used)"] by simp
  ultimately show thesis
    using that [of "p\<lparr>pl_locked := True, pl_local := l, pl_global := g, pl_used := used\<rparr>"]
    by (simp add: pools_pair_def)
qed

lemma balance_outcome:
  assumes "pools_ok p"
  shows "if balance_underflows num_cpus p then balance debug num_cpus p = Panic
    else \<exists>q. balance debug num_cpus p = Return q \<and> added {} (pools_pair p) (pools_pair q) \<and>
      pl_global_size q = pl_global_size p"
proof -
  let ?g = "OnDemandGlobalLock_get_global_size p"
  let ?e = "cache_expected_size num_cpus ?g" and ?l = "bs_total_size (pl_local p)"
  note sizes = pools_ok_sizes [OF assms]
  have ok: "pair_ok (pools_pair p)" using assms by (simp add: pools_ok_def)
  have e: "?e < usize_limit"
    using sizes(3) unfolding cache_expected_size_def by (meson div_le_dividend le_less_trans)
  note defs = balance_def Let_def cache_maximal_size_def cache_minimal_size_def checked_sub_def
    OnDemandGlobalLock_get_def
  consider (shrink) "?e * 2 \<le> ?l" "?l \<noteq> 0" | (zero) "?e * 2 \<le> ?l" "?l = 0"
    | (grow) "\<not> ?e * 2 \<le> ?l" "?l < ?e div 8" | (keep) "\<not> ?e * 2 \<le> ?l" "\<not> ?l < ?e div 8" by blast
  then show ?thesis
  proof cases
    case shrink
    have iff: "balance_underflows num_cpus p \<longleftrightarrow> ?l - ?e < PAGE_SIZE"
      using shrink page_multiple_cases [OF sizes(1)] unfolding balance_underflows_def Let_def by linarith
    show ?thesis
    proof (cases "?l - ?e < PAGE_SIZE")
      case True
      then show ?thesis using iff shrink lesser_order_of_small [OF True] by (simp add: defs)
    next
      case False
      then obtain k where "lesser_order_of (?l - ?e) = Return k"
        using lesser_order_of_bounds [of "?l - ?e"] sizes(2) by (metis diff_le_self le_less_trans not_less)
      then show ?thesis
        using iff False shrink balance_to_global [OF assms, of debug k] by (simp add: defs) metis
    qed
  next
    case grow
    have iff: "balance_underflows num_cpus p \<longleftrightarrow> ?e - ?l < PAGE_SIZE"
      using grow page_multiple_cases [OF sizes(1)] unfolding balance_underflows_def Let_def by linarith
    have "?e = 0" if "?g = 0" using that by (simp add: cache_expected_size_def)
    then have g: "?g \<noteq> 0" using grow(1) by fastforce
    have le: "?l \<le> ?e" using grow(2) by linarith
    show ?thesis
    proof (cases "?e - ?l < PAGE_SIZE")
      case True
      then show ?thesis using iff grow g le lesser_order_of_small [OF True] by (simp add: defs)
    next
      case False
      then obtain k where "lesser_order_of (?e - ?l) = Return k"
        using lesser_order_of_bounds [of "?e - ?l"] e by (metis diff_le_self le_less_trans not_less)
      then show ?thesis
        using iff False grow g le balance_to_local [OF assms, of debug k] by (simp add: defs) metis
    qed
  next
    case zero
    then show ?thesis using added_refl [OF ok] by (simp add: defs balance_underflows_def)
  next
    case keep
    then have "\<not> balance_underflows num_cpus p" unfolding balance_underflows_def Let_def by linarith
    then show ?thesis using keep added_refl [OF ok] by (simp add: defs)
  qed
qed

subsection \<open>Deallocation\<close>

definition segment_bytes :: "nat \<times> nat \<Rightarrow> nat set" where
  "segment_bytes seg = {fst seg..<fst seg + snd seg}"

definition segments_bytes :: "(nat \<times> nat) list \<Rightarrow> nat set" where
  "segments_bytes segs = (\<Union>seg \<in> set segs. segment_bytes seg)"

text \<open>Page-aligned, disjoint segments, each smaller than a chunk of the order the global set lacks.\<close>

fun segments_ok :: "(nat \<times> nat) list \<Rightarrow> bool" where
  "segments_ok [] \<longleftrightarrow> True"
| "segments_ok (seg # segs) \<longleftrightarrow> PAGE_SIZE dvd fst seg \<and> PAGE_SIZE dvd snd seg \<and>
     snd seg < size_of_order MAX_BUDDY_ORDER \<and> segment_bytes seg \<inter> segments_bytes segs = {} \<and> segments_ok segs"

lemma segments_bytes_simps [simp]:
  "segments_bytes [] = {}" "segments_bytes (seg # segs) = segment_bytes seg \<union> segments_bytes segs"
  by (simp_all add: segments_bytes_def)

lemma tiles_order: "tiles addr sz cs \<Longrightarrow> c \<in> set cs \<Longrightarrow> size_of_order (snd c) \<le> sz"
  by (induction addr sz cs rule: tiles.induct) force+

lemma split_to_chunks_tiles:
  assumes "PAGE_SIZE dvd addr" "PAGE_SIZE dvd sz" "sz < size_of_order MAX_BUDDY_ORDER" "{addr..<addr + sz} \<subseteq> {..<paddr_limit}"
  obtains cs where "split_to_chunks addr sz = Return cs" "tiles addr sz cs"
    "\<forall>c \<in> set cs. snd c < MAX_BUDDY_ORDER"
proof -
  have "addr + sz < usize_limit" if "0 < sz"
  proof -
    have "addr + sz - 1 \<in> {addr..<addr + sz}" using that by auto
    then have "addr + sz - 1 < paddr_limit" using assms(4) by blast
    then show ?thesis by (simp add: paddr_limit_def)
  qed
  then obtain cs where cs: "split_chunks addr sz = Return cs" "tiles addr sz cs"
    using split_chunks_tiles [OF assms(1,2)] by blast
  have "snd c < MAX_BUDDY_ORDER" if "c \<in> set cs" for c
    using tiles_order [OF cs(2) that] assms(3) size_of_order_less_iff le_less_trans by blast
  then show thesis using that cs assms(1,2) by (auto simp: split_to_chunks_def)
qed

lemma do_dealloc_simps:
  "do_dealloc debug [] p = Return p"
  "do_dealloc debug (seg # segs) p =
     and_then (and_then (split_to_chunks (fst seg) (snd seg)) (\<lambda>cs. for_each (put_local_or_global debug) cs p))
       (do_dealloc debug segs)"
  unfolding do_dealloc_def put_local_or_global_def by (simp_all add: case_prod_unfold)

lemma pools_ok_lock [simp]:
  "pools_ok (OnDemandGlobalLock_new p) \<longleftrightarrow> pools_ok p"
  "pools_ok p \<Longrightarrow> pools_ok (OnDemandGlobalLock_drop p)"
  using pool_total_size(2) [of "pl_used p" "pl_global p"]
  by (auto simp: pools_ok_def OnDemandGlobalLock_new_def OnDemandGlobalLock_drop_def pools_pair_def paddr_limit_def)

lemma put_keeps_snapshot:
  "global_insert_chunk debug addr k p = Return q \<Longrightarrow> pl_global_size q = pl_global_size p"
  "local_insert_chunk debug addr k p = Return q \<Longrightarrow> pl_global_size q = pl_global_size p"
  by (auto simp: global_insert_chunk_def local_insert_chunk_def OnDemandGlobalLock_get_def Let_def)

lemma for_each_keeps:
  assumes "\<And>x s t. f x s = Return t \<Longrightarrow> g t = g s" "for_each f xs s = Return t"
  shows "g t = g s"
  using assms(2) by (induction xs arbitrary: s) (auto dest: assms(1))

lemma put_local_or_global_snapshot:
  "put_local_or_global debug c p = Return q \<Longrightarrow> pl_global_size q = pl_global_size p"
  by (auto simp: put_local_or_global_def case_prod_unfold put_keeps_snapshot split: if_splits)

lemma do_dealloc_correct:
  assumes "pools_ok p" "segments_ok segs" "fresh (segments_bytes segs) (pools_pair p)"
  shows "\<exists>q. do_dealloc debug segs p = Return q \<and> pools_ok q \<and>
    added (segments_bytes segs) (pools_pair p) (pools_pair q)"
  using assms
proof (induction segs arbitrary: p)
  case Nil
  then show ?case using added_refl by (simp add: do_dealloc_simps pools_ok_def)
next
  case (Cons seg segs)
  let ?R = "segment_bytes seg" and ?Q = "segments_bytes segs"
  have fr: "fresh ?R (pools_pair p)" "fresh ?Q (pools_pair p)" using Cons.prems(3) by (auto intro: fresh_subset)
  obtain cs where cs: "split_to_chunks (fst seg) (snd seg) = Return cs" "tiles (fst seg) (snd seg) cs"
    "\<forall>c \<in> set cs. snd c < MAX_BUDDY_ORDER"
    using split_to_chunks_tiles [of "fst seg" "snd seg"] Cons.prems(2) fr(1) by (auto simp: fresh_def segment_bytes_def)
  have ok: "pair_ok (pools_pair p)" "pair_orders (pools_pair p) = (MAX_LOCAL_BUDDY_ORDER, MAX_BUDDY_ORDER)"
    using Cons.prems(1) by (simp_all add: pools_ok_def)
  have "\<exists>q. for_each (put_local_or_global debug) cs p = Return q \<and>
      added {fst seg..<fst seg + snd seg} (pools_pair p) (pools_pair q)"
    by (rule dealloc.put_tiles [OF cs(2) ok(1)]) (use cs(3) ok(2) fr(1) in \<open>simp_all add: segment_bytes_def\<close>)
  then obtain q where q: "for_each (put_local_or_global debug) cs p = Return q" "added ?R (pools_pair p) (pools_pair q)"
    unfolding segment_bytes_def by blast
  have "pl_global_size q = pl_global_size p"
    using for_each_keeps [of "put_local_or_global debug" pl_global_size, OF _ q(1)] put_local_or_global_snapshot by blast
  then have okq: "pools_ok q" using q(2) Cons.prems(1) by (simp add: pools_ok_def added_def)
  have "?Q \<inter> ?R = {}" using Cons.prems(2) by auto
  then have "fresh ?Q (pools_pair q)" using fresh_added [OF fr(2) q(2)] by blast
  then obtain r where r: "do_dealloc debug segs q = Return r" "pools_ok r" "added ?Q (pools_pair q) (pools_pair r)"
    using Cons.IH [OF okq] Cons.prems(2) by auto
  then show ?case using added_trans [OF q(2) r(3)] cs(1) q(1) by (simp add: do_dealloc_simps)
qed

lemma pools_ok_added:
  "pools_ok p \<Longrightarrow> added R (pools_pair p) (pools_pair q) \<Longrightarrow> pl_global_size q = pl_global_size p \<Longrightarrow> pools_ok q"
  by (simp add: pools_ok_def added_def)

text \<open>The common end of the operations: balance and release the lock.\<close>

lemma balance_finish:
  assumes "pools_ok p"
  shows "if balance_underflows num_cpus p
    then and_then (balance debug num_cpus p) (\<lambda>p. Return (f (OnDemandGlobalLock_drop p))) = Panic
    else \<exists>q. and_then (balance debug num_cpus p) (\<lambda>p. Return (f (OnDemandGlobalLock_drop p))) = Return (f q) \<and>
      pools_ok q \<and> added {} (pools_pair p) (pools_pair q)"
proof (cases "balance_underflows num_cpus p")
  case False
  then obtain q where q: "balance debug num_cpus p = Return q" "added {} (pools_pair p) (pools_pair q)"
    "pl_global_size q = pl_global_size p" using balance_outcome [OF assms, of num_cpus debug] by auto
  then have "pools_ok (OnDemandGlobalLock_drop q)" using pools_ok_added [OF assms] by simp
  then show ?thesis using False q by auto
qed (use balance_outcome [OF assms, of num_cpus debug] in simp)

lemma pools_dealloc_outcome:
  assumes "pools_ok p" "segments_ok segs" "fresh (segments_bytes segs) (pools_pair p)"
  shows "\<exists>q. pools_ok q \<and> added (segments_bytes segs) (pools_pair p) (pools_pair q) \<and>
    (if balance_underflows num_cpus q then pools_dealloc debug num_cpus segs p = Panic
     else \<exists>r. pools_dealloc debug num_cpus segs p = Return r \<and> pools_ok r \<and> added {} (pools_pair q) (pools_pair r))"
proof -
  obtain q where q: "do_dealloc debug segs (OnDemandGlobalLock_new p) = Return q" "pools_ok q"
    "added (segments_bytes segs) (pools_pair p) (pools_pair q)"
    using do_dealloc_correct [of "OnDemandGlobalLock_new p" segs debug] assms by auto
  then show ?thesis
    using balance_finish [OF q(2), of num_cpus debug "\<lambda>p. p"] by (auto simp: pools_dealloc_def Let_def)
qed

lemma pools_add_free_memory_correct:
  assumes "pools_ok p" "PAGE_SIZE dvd addr" "PAGE_SIZE dvd sz" "sz < size_of_order MAX_BUDDY_ORDER"
    "fresh {addr..<addr + sz} (pools_pair p)"
  shows "\<exists>q. pools_add_free_memory debug addr sz p = Return q \<and> pools_ok q \<and>
    added {addr..<addr + sz} (pools_pair p) (pools_pair q)"
proof -
  let ?p = "OnDemandGlobalLock_new p"
  obtain cs where cs: "split_to_chunks addr sz = Return cs" "tiles addr sz cs"
    "\<forall>c \<in> set cs. snd c < MAX_BUDDY_ORDER" using split_to_chunks_tiles [OF assms(2-4)] assms(5) by (auto simp: fresh_def)
  have ok: "pair_ok (pools_pair ?p)" "pair_orders (pools_pair ?p) = (MAX_LOCAL_BUDDY_ORDER, MAX_BUDDY_ORDER)"
    using assms(1) by (simp_all add: pools_ok_def)
  have "\<exists>q. for_each (put_global debug) cs ?p = Return q \<and> added {addr..<addr + sz} (pools_pair ?p) (pools_pair q)"
    by (rule global.put_tiles [OF cs(2) ok(1)]) (use cs(3) ok(2) assms(5) in simp_all)
  then obtain q where q: "for_each (put_global debug) cs ?p = Return q" "added {addr..<addr + sz} (pools_pair p) (pools_pair q)"
    by auto
  have "pl_global_size s = pl_global_size t" if "put_global debug c t = Return s" for c s t
    using that by (auto simp: put_global_def case_prod_unfold put_keeps_snapshot)
  then have "pl_global_size q = pl_global_size p"
    using for_each_keeps [of "put_global debug" pl_global_size, OF _ q(1)] by (simp add: OnDemandGlobalLock_new_def)
  then have "pools_ok (OnDemandGlobalLock_drop q)" using pools_ok_added [OF assms(1) q(2)] by simp
  then show ?thesis using cs(1) q unfolding put_global_def by (simp add: pools_add_free_memory_def Let_def)
qed

subsection \<open>Allocation\<close>

lemma local_alloc_outcome:
  assumes "pools_ok p"
  obtains (none) "local_alloc_chunk debug k p = Return (None, p)"
      "k < MAX_LOCAL_BUDDY_ORDER \<Longrightarrow> \<forall>a. aligned a k \<longrightarrow> \<not> block a k \<subseteq> free_bytes (pl_local p)"
    | (some) a q where "local_alloc_chunk debug k p = Return (Some a, q)" "aligned a k" "k < MAX_LOCAL_BUDDY_ORDER"
      "taken (block a k) (pools_pair p) (pools_pair q)" "pl_global_size q = pl_global_size p"
proof -
  have ok: "pair_ok (pl_local p, pl_global p, pl_used p)" "length (bs_lists (pl_local p)) = MAX_LOCAL_BUDDY_ORDER"
    using assms by (auto simp: pools_ok_def pools_pair_def)
  from ok(1) show thesis
  proof (cases rule: alloc_first [where debug = debug and k = k])
    case none
    then show ?thesis using that(1) ok(2) by (simp add: local_alloc_chunk_def)
  next
    case (some a l used)
    then show ?thesis using ok(2) that(2) [of a "p\<lparr>pl_local := l, pl_used := used\<rparr>"]
      by (simp add: local_alloc_chunk_def pools_pair_def)
  qed
qed

lemma global_alloc_outcome:
  assumes "pools_ok p"
  obtains (none) "global_alloc_chunk debug k p = Return (None, OnDemandGlobalLock_get p)"
      "k < MAX_BUDDY_ORDER \<Longrightarrow> \<forall>a. aligned a k \<longrightarrow> \<not> block a k \<subseteq> free_bytes (pl_global p)"
    | (some) a q where "global_alloc_chunk debug k p = Return (Some a, q)" "aligned a k" "k < MAX_BUDDY_ORDER"
      "taken (block a k) (pools_pair p) (pools_pair q)" "pl_global_size q = pl_global_size p"
proof -
  have ok: "pair_ok (pl_global p, pl_local p, pl_used p)" "length (bs_lists (pl_global p)) = MAX_BUDDY_ORDER"
    using assms by (auto simp: pools_ok_def pools_pair_def)
  from ok(1) show thesis
  proof (cases rule: alloc_first [where debug = debug and k = k])
    case none
    then show ?thesis using that(1) ok(2) by (simp add: global_alloc_chunk_def OnDemandGlobalLock_get_def Let_def)
  next
    case (some a g used)
    have "taken (block a k) (pools_pair p) (pl_local p, g, used)"
      using some(4) taken_swap [of "block a k" "pools_pair p" "(pl_local p, g, used)"] by (simp add: pools_pair_def)
    then show ?thesis using that(2) [of a "p\<lparr>pl_locked := True, pl_global := g, pl_used := used\<rparr>"] some(1-3) ok(2)
      by (simp add: global_alloc_chunk_def OnDemandGlobalLock_get_def pools_pair_def Let_def)
  qed
qed

definition alloc_order :: "nat \<Rightarrow> nat \<Rightarrow> nat" where
  "alloc_order layout_size layout_align = max (greater_order_of layout_size) (greater_order_of layout_align)"

text \<open>The first half of \<open>pools_take\<close>: a chunk from the local set or else from the global one.\<close>

definition find_chunk :: "bool \<Rightarrow> nat \<Rightarrow> Pools \<Rightarrow> (nat option \<times> Pools) outcome" where
  "find_chunk debug order p =
     and_then (if order < MAX_LOCAL_BUDDY_ORDER then local_alloc_chunk debug order p else Return (None, p))
       (\<lambda>(chunk_addr, p). if chunk_addr = None then global_alloc_chunk debug order p else Return (chunk_addr, p))"

text \<open>No set can serve the order: the local set is asked below its own maximum only.\<close>

definition no_chunk :: "nat \<Rightarrow> Pools \<Rightarrow> bool" where
  "no_chunk order p \<longleftrightarrow> (\<forall>a. aligned a order \<longrightarrow>
     (order < MAX_LOCAL_BUDDY_ORDER \<longrightarrow> \<not> block a order \<subseteq> free_bytes (pl_local p)) \<and>
     (order < MAX_BUDDY_ORDER \<longrightarrow> \<not> block a order \<subseteq> free_bytes (pl_global p)))"

lemma pools_ok_taken:
  "pools_ok p \<Longrightarrow> taken R (pools_pair p) (pools_pair q) \<Longrightarrow> pl_global_size q = pl_global_size p \<Longrightarrow> pools_ok q"
  by (simp add: pools_ok_def taken_def)

lemma find_chunk_outcome:
  assumes "pools_ok p"
  obtains (none) q where "find_chunk debug k p = Return (None, q)" "pools_pair q = pools_pair p" "pools_ok q" "no_chunk k p"
    | (some) a q where "find_chunk debug k p = Return (Some a, q)" "aligned a k" "pools_ok q"
      "taken (block a k) (pools_pair p) (pools_pair q)" "k < MAX_BUDDY_ORDER"
proof -
  note missing = none and found = some
  have global: thesis
    if "find_chunk debug k p = global_alloc_chunk debug k p"
      "k < MAX_LOCAL_BUDDY_ORDER \<longrightarrow> (\<forall>a. aligned a k \<longrightarrow> \<not> block a k \<subseteq> free_bytes (pl_local p))"
    using assms
  proof (cases rule: global_alloc_outcome [where debug = debug and k = k])
    case none
    have "pools_ok (OnDemandGlobalLock_get p)"
      using assms by (simp add: pools_ok_def OnDemandGlobalLock_get_def)
    then show ?thesis using missing none that by (simp add: no_chunk_def)
  next
    case (some a q)
    then show ?thesis using found that pools_ok_taken [OF assms]
      by simp
  qed
  show thesis
  proof (cases "k < MAX_LOCAL_BUDDY_ORDER")
    case False
    then show ?thesis using global by (simp add: find_chunk_def)
  next
    case True
    from assms show ?thesis
    proof (cases rule: local_alloc_outcome [where debug = debug and k = k])
      case none
      then show ?thesis using global True by (simp add: find_chunk_def)
    next
      case (some a q)
      then show ?thesis
        using found True pools_ok_taken [OF assms]
        by (simp add: find_chunk_def)
    qed
  qed
qed

lemma greater_order_of_power: "greater_order_of (size_of_order k) = k"
proof -
  have "bit_width (2 ^ k - 1) = k"
  proof (rule antisym)
    show "bit_width (2 ^ k - 1) \<le> k" by (rule bit_width_le) simp
    show "k \<le> bit_width (2 ^ k - 1)"
    proof (cases k)
      case (Suc j)
      have "(0::nat) < 2 ^ j" by simp
      then have "2 ^ j \<le> 2 ^ k - (1::nat)" "2 ^ k - (1::nat) > 0" unfolding Suc power_Suc by linarith+
      then have "(2::nat) ^ j < 2 ^ bit_width (2 ^ k - 1)" using bit_width_bounds [of "2 ^ k - 1"] by linarith
      then show ?thesis using Suc power_less_imp_less_exp [of "2::nat" j] by auto
    qed simp
  qed
  then show ?thesis
    using trailing_zeros_power [of k] by (simp add: greater_order_of_def next_power_of_two_def size_of_order_def)
qed

lemma pools_alloc_outcome:
  assumes "pools_ok p" "PAGE_SIZE dvd sz" "0 < sz"
  shows "\<exists>r q. pools_take debug sz algn p = Return (r, q) \<and> pools_ok q \<and>
    (case r of None \<Rightarrow> pools_pair q = pools_pair p \<and> no_chunk (alloc_order sz algn) p
     | Some a \<Rightarrow> aligned a (alloc_order sz algn) \<and> taken {a..<a + sz} (pools_pair p) (pools_pair q)) \<and>
    (if balance_underflows num_cpus q then pools_alloc debug num_cpus sz algn p = Panic
     else \<exists>t. pools_alloc debug num_cpus sz algn p = Return (r, t) \<and> pools_ok t \<and> added {} (pools_pair q) (pools_pair t))"
proof -
  let ?k = "alloc_order sz algn" and ?p = "OnDemandGlobalLock_new p"
  let ?rest = "\<lambda>(r, p). and_then
    (case r of Some addr \<Rightarrow> if size_of_order ?k > sz then do_dealloc debug [(addr + sz, size_of_order ?k - sz)] p else Return p
     | None \<Rightarrow> Return p) (\<lambda>p. Return (r, p))"
  have take: "pools_take debug sz algn p = and_then (find_chunk debug ?k ?p) ?rest"
    unfolding pools_take_def find_chunk_def alloc_order_def Let_def by (simp add: case_prod_unfold)
  have "pools_ok ?p" using assms(1) by simp
  then show ?thesis
  proof (cases rule: find_chunk_outcome [where debug = debug and k = ?k])
    case (none q)
    have "no_chunk ?k p" using none(4) by (simp add: no_chunk_def OnDemandGlobalLock_new_def)
    then show ?thesis
      using none(1-3) balance_finish [OF none(3), of num_cpus debug "\<lambda>p. (None, p)"]
      by (intro exI [of _ None] exI [of _ q]) (auto simp: take pools_alloc_def)
  next
    case (some a q)
    have le: "sz \<le> size_of_order ?k"
      using greater_order_of_covers [OF assms(2,3)] size_of_order_le_iff [of "greater_order_of sz" ?k]
      unfolding alloc_order_def by (metis le_trans max.cobounded1)
    have "\<exists>r. (if size_of_order ?k > sz then do_dealloc debug [(a + sz, size_of_order ?k - sz)] q else Return q) = Return r
      \<and> pools_ok r \<and> taken {a..<a + sz} (pools_pair p) (pools_pair r)"
    proof (cases "size_of_order ?k > sz")
      case False
      then show ?thesis using some(3,4) le by (simp add: block_def)
    next
      case True
      let ?seg = "(a + sz, size_of_order ?k - sz)"
      have pg: "PAGE_SIZE dvd size_of_order ?k" using size_of_order_dvd [of 0 ?k] by simp
      then have al: "PAGE_SIZE dvd a" using some(2) dvd_trans unfolding aligned_def by blast
      have sub: "segments_bytes [?seg] \<subseteq> block a ?k" and rem: "block a ?k - segments_bytes [?seg] = {a..<a + sz}"
        using True by (auto simp: segment_bytes_def block_def)
      have "pair_ok (pools_pair p)" using assms(1) by (simp add: pools_ok_def)
      then have fr: "fresh (segments_bytes [?seg]) (pools_pair q)"
        using taken_fresh [of "pools_pair p"] some(4) fresh_subset [OF _ sub] by simp
      have "size_of_order ?k - sz < size_of_order MAX_BUDDY_ORDER"
        by (rule le_less_trans [OF diff_le_self]) (use some(5) in simp)
      then have "segments_ok [?seg]" using al pg assms(2) by (auto intro: dvd_diff_nat)
      then obtain r where r: "do_dealloc debug [?seg] q = Return r" "pools_ok r"
        "added (segments_bytes [?seg]) (pools_pair q) (pools_pair r)"
        using do_dealloc_correct [OF some(3) _ fr] by blast
      then show ?thesis using True taken_added [OF _ r(3) sub] some(4) rem by simp
    qed
    then obtain r where r: "(if size_of_order ?k > sz then do_dealloc debug [(a + sz, size_of_order ?k - sz)] q else Return q) = Return r"
      "pools_ok r" "taken {a..<a + sz} (pools_pair p) (pools_pair r)" by blast
    then show ?thesis
      using some(1,2) balance_finish [OF r(2), of num_cpus debug "\<lambda>p. (Some a, p)"]
      by (intro exI [of _ "Some a"] exI [of _ r]) (auto simp: take pools_alloc_def)
  qed
qed

end
