(* ===== verification/Frame_Cache.thy ===== *)
theory Frame_Cache
  imports Buddy_Pools "HOL-Library.Multiset"
begin

text \<open>
  The per-CPU cache of small segments in front of the pools,
  \<open>osdk/deps/frame-allocator/src/cache.rs\<close>. A cache array holds segments of \<open>NR_CONT_FRAMES\<close> frames in
  an array of \<open>COUNT\<close> slots used as a stack; \<open>COUNT\<close> is the length of the array and \<open>NR_CONT_FRAMES\<close> is
  the argument \<open>nr\<close>.
\<close>

record CacheArray =
  ca_inner :: "nat option list"
  ca_size :: nat

definition CacheArray_new :: "nat \<Rightarrow> CacheArray" where
  "CacheArray_new n = \<lparr>ca_inner = replicate n None, ca_size = 0\<rparr>"

definition CacheArray_segment_size :: "nat \<Rightarrow> nat" where
  "CacheArray_segment_size nr = nr * PAGE_SIZE"

definition CacheArray_push_front :: "nat \<Rightarrow> CacheArray \<Rightarrow> (unit option \<times> CacheArray) outcome" where
  "CacheArray_push_front frame self =
     (if ca_size self = length (ca_inner self) then Return (None, self)
      else if ca_size self < length (ca_inner self)
      then Return (Some (), self\<lparr>ca_inner := (ca_inner self)[ca_size self := Some frame],
             ca_size := ca_size self + 1\<rparr>)
      else Panic)"

definition CacheArray_pop_front :: "CacheArray \<Rightarrow> (nat option \<times> CacheArray) outcome" where
  "CacheArray_pop_front self =
     (if ca_size self = 0 then Return (None, self)
      else if ca_size self - 1 < length (ca_inner self)
      then and_then (unwrap (ca_inner self ! (ca_size self - 1))) (\<lambda>frame.
           Return (Some frame, self\<lparr>ca_inner := (ca_inner self)[ca_size self - 1 := None],
             ca_size := ca_size self - 1\<rparr>))
      else Panic)"

definition CacheArray_alloc :: "bool \<Rightarrow> nat \<Rightarrow> nat \<Rightarrow> CacheArray \<Rightarrow> Pools
    \<Rightarrow> (nat option \<times> CacheArray \<times> Pools) outcome" where
  "CacheArray_alloc debug num_cpus nr self p =
     and_then (CacheArray_pop_front self) (\<lambda>(r, self).
     case r of
       Some frame \<Rightarrow> Return (Some frame, self, p)
     | None \<Rightarrow>
         let nr_to_alloc = length (ca_inner self) * 2 div 3 in
         and_then (pools_alloc debug num_cpus (nr_to_alloc * CacheArray_segment_size nr) PAGE_SIZE p) (\<lambda>(r, p).
         case r of
           None \<Rightarrow> Return (None, self, p)
         | Some allocated \<Rightarrow>
             and_then (for_each (\<lambda>i self.
                 and_then (CacheArray_push_front (allocated + i * CacheArray_segment_size nr) self)
                   (\<lambda>(_, self). Return self)) [1..<nr_to_alloc] self) (\<lambda>self.
             Return (Some allocated, self, p))))"

text \<open>The segments the iterator of \<open>dealloc\<close> takes off the stack after the first one.\<close>

fun pop_segments :: "nat \<Rightarrow> nat \<Rightarrow> CacheArray \<Rightarrow> ((nat \<times> nat) list \<times> CacheArray) outcome" where
  "pop_segments nr 0 self = Return ([], self)"
| "pop_segments nr (Suc n) self =
     and_then (CacheArray_pop_front self) (\<lambda>(r, self).
     and_then (unwrap r) (\<lambda>frame.
     and_then (pop_segments nr n self) (\<lambda>(segs, self).
     Return ((frame, CacheArray_segment_size nr) # segs, self))))"

definition CacheArray_dealloc :: "bool \<Rightarrow> nat \<Rightarrow> nat \<Rightarrow> nat \<Rightarrow> CacheArray \<Rightarrow> Pools
    \<Rightarrow> (CacheArray \<times> Pools) outcome" where
  "CacheArray_dealloc debug num_cpus nr addr self p =
     and_then (CacheArray_push_front addr self) (\<lambda>(r, self).
     if r = None then
       let nr_to_dealloc = length (ca_inner self) * 2 div 3 + 1 in
       and_then (pop_segments nr (nr_to_dealloc - 1) self) (\<lambda>(segs, self).
       and_then (pools_dealloc debug num_cpus ((addr, CacheArray_segment_size nr) # segs) p) (\<lambda>p.
       Return (self, p)))
     else Return (self, p))"

record CacheOfSizes =
  cache1 :: CacheArray
  cache2 :: CacheArray
  cache3 :: CacheArray
  cache4 :: CacheArray

definition CacheOfSizes_new :: CacheOfSizes where
  "CacheOfSizes_new =
     \<lparr>cache1 = CacheArray_new 12, cache2 = CacheArray_new 6, cache3 = CacheArray_new 6, cache4 = CacheArray_new 6\<rparr>"

definition cache_alloc :: "bool \<Rightarrow> nat \<Rightarrow> nat \<Rightarrow> nat \<Rightarrow> CacheOfSizes \<Rightarrow> Pools
    \<Rightarrow> (nat option \<times> CacheOfSizes \<times> Pools) outcome" where
  "cache_alloc debug num_cpus layout_size layout_align cache p =
     (let nr_frames = layout_size div PAGE_SIZE;
          from_pools = and_then (pools_alloc debug num_cpus layout_size layout_align p) (\<lambda>(r, p). Return (r, cache, p))
      in
        if layout_align > layout_size then from_pools
        else if nr_frames = 1 then
          and_then (CacheArray_alloc debug num_cpus 1 (cache1 cache) p) (\<lambda>(r, c, p). Return (r, cache\<lparr>cache1 := c\<rparr>, p))
        else if nr_frames = 2 then
          and_then (CacheArray_alloc debug num_cpus 2 (cache2 cache) p) (\<lambda>(r, c, p). Return (r, cache\<lparr>cache2 := c\<rparr>, p))
        else if nr_frames = 3 then
          and_then (CacheArray_alloc debug num_cpus 3 (cache3 cache) p) (\<lambda>(r, c, p). Return (r, cache\<lparr>cache3 := c\<rparr>, p))
        else if nr_frames = 4 then
          and_then (CacheArray_alloc debug num_cpus 4 (cache4 cache) p) (\<lambda>(r, c, p). Return (r, cache\<lparr>cache4 := c\<rparr>, p))
        else from_pools)"

definition cache_dealloc :: "bool \<Rightarrow> nat \<Rightarrow> nat \<Rightarrow> nat \<Rightarrow> CacheOfSizes \<Rightarrow> Pools
    \<Rightarrow> (CacheOfSizes \<times> Pools) outcome" where
  "cache_dealloc debug num_cpus addr sz cache p =
     (let nr_frames = sz div PAGE_SIZE;
          to_pools = and_then (pools_dealloc debug num_cpus [(addr, sz)] p) (\<lambda>p. Return (cache, p))
      in
        if nr_frames > 4 then to_pools
        else if nr_frames = 1 then
          and_then (CacheArray_dealloc debug num_cpus 1 addr (cache1 cache) p) (\<lambda>(c, p). Return (cache\<lparr>cache1 := c\<rparr>, p))
        else if nr_frames = 2 then
          and_then (CacheArray_dealloc debug num_cpus 2 addr (cache2 cache) p) (\<lambda>(c, p). Return (cache\<lparr>cache2 := c\<rparr>, p))
        else if nr_frames = 3 then
          and_then (CacheArray_dealloc debug num_cpus 3 addr (cache3 cache) p) (\<lambda>(c, p). Return (cache\<lparr>cache3 := c\<rparr>, p))
        else if nr_frames = 4 then
          and_then (CacheArray_dealloc debug num_cpus 4 addr (cache4 cache) p) (\<lambda>(c, p). Return (cache\<lparr>cache4 := c\<rparr>, p))
        else to_pools)"

section \<open>The stack of cached segments\<close>

text \<open>The segments of a cache array, top first.\<close>

definition cached :: "nat \<Rightarrow> CacheArray \<Rightarrow> (nat \<times> nat) list" where
  "cached nr self = map (\<lambda>a. (the a, CacheArray_segment_size nr)) (rev (take (ca_size self) (ca_inner self)))"

definition array_ok :: "CacheArray \<Rightarrow> bool" where
  "array_ok self \<longleftrightarrow> ca_size self \<le> length (ca_inner self) \<and>
     (\<forall>i < ca_size self. ca_inner self ! i \<noteq> None)"

lemma CacheArray_new_ok [simp]: "array_ok (CacheArray_new n)" "cached nr (CacheArray_new n) = []"
  by (simp_all add: array_ok_def cached_def CacheArray_new_def)

lemma push_front_outcome:
  assumes "array_ok self"
  obtains (full) "CacheArray_push_front a self = Return (None, self)" "length (cached nr self) = length (ca_inner self)"
    | (pushed) self' where "CacheArray_push_front a self = Return (Some (), self')" "array_ok self'"
      "cached nr self' = (a, CacheArray_segment_size nr) # cached nr self" "length (ca_inner self') = length (ca_inner self)"
proof (cases "ca_size self = length (ca_inner self)")
  case True
  then show ?thesis using full by (simp add: CacheArray_push_front_def cached_def)
next
  case False
  then have lt: "ca_size self < length (ca_inner self)" using assms by (simp add: array_ok_def)
  let ?s = "self\<lparr>ca_inner := (ca_inner self)[ca_size self := Some a], ca_size := ca_size self + 1\<rparr>"
  have "array_ok ?s" using assms lt by (auto simp: array_ok_def nth_list_update)
  moreover have "cached nr ?s = (a, CacheArray_segment_size nr) # cached nr self"
    using lt by (simp add: cached_def take_Suc_conv_app_nth)
  ultimately show ?thesis using lt pushed [of ?s] by (simp add: CacheArray_push_front_def)
qed

lemma pop_front_outcome:
  assumes "array_ok self"
  obtains (empty) "CacheArray_pop_front self = Return (None, self)" "cached nr self = []"
    | (popped) a self' where "CacheArray_pop_front self = Return (Some a, self')" "array_ok self'"
      "cached nr self = (a, CacheArray_segment_size nr) # cached nr self'" "length (ca_inner self') = length (ca_inner self)"
proof (cases "ca_size self")
  case 0
  then show ?thesis using empty by (simp add: CacheArray_pop_front_def cached_def)
next
  case (Suc n)
  then have lt: "n < length (ca_inner self)" and "ca_inner self ! n \<noteq> None"
    using assms by (auto simp: array_ok_def)
  then obtain a where a: "ca_inner self ! n = Some a" by blast
  let ?s = "self\<lparr>ca_inner := (ca_inner self)[n := None], ca_size := n\<rparr>"
  have "array_ok ?s" using assms Suc by (auto simp: array_ok_def nth_list_update)
  moreover have "cached nr self = (a, CacheArray_segment_size nr) # cached nr ?s"
    using lt Suc a by (simp add: cached_def take_Suc_conv_app_nth)
  ultimately show ?thesis using popped [of a ?s] lt Suc a by (simp add: CacheArray_pop_front_def unwrap_def)
qed

lemma pop_segments_outcome:
  assumes "array_ok self" "n \<le> length (cached nr self)"
  shows "\<exists>self'. pop_segments nr n self = Return (take n (cached nr self), self') \<and> array_ok self' \<and>
    cached nr self' = drop n (cached nr self) \<and> length (ca_inner self') = length (ca_inner self)"
  using assms
proof (induction n arbitrary: self)
  case (Suc n)
  from Suc.prems(1) show ?case
  proof (cases rule: pop_front_outcome [where nr = nr])
    case empty
    then show ?thesis using Suc.prems(2) by simp
  next
    case (popped a s)
    then obtain s' where "pop_segments nr n s = Return (take n (cached nr s), s')" "array_ok s'"
      "cached nr s' = drop n (cached nr s)" "length (ca_inner s') = length (ca_inner s)"
      using Suc.IH [of s] Suc.prems(2) by auto
    then show ?thesis using popped by simp
  qed
qed simp

section \<open>Segments held beside the pools\<close>

text \<open>
  Memory is accounted for as a multiset of bytes, so that a byte held twice would count twice. A stash
  is a list of segments held outside the pools, by a cache or by a client.
\<close>

definition segs_mset :: "(nat \<times> nat) list \<Rightarrow> nat multiset" where
  "segs_mset segs = (\<Sum>seg \<leftarrow> segs. mset_set (segment_bytes seg))"

definition held :: "(nat \<times> nat) list \<Rightarrow> Pools \<Rightarrow> nat multiset" where
  "held segs p = segs_mset segs + mset_set (pair_free (pools_pair p))"

definition seg_ok :: "nat \<times> nat \<Rightarrow> bool" where
  "seg_ok seg \<longleftrightarrow> PAGE_SIZE dvd fst seg \<and> PAGE_SIZE dvd snd seg \<and> snd seg < size_of_order MAX_BUDDY_ORDER"

definition stash_ok :: "(nat \<times> nat) list \<Rightarrow> Pools \<Rightarrow> bool" where
  "stash_ok segs p \<longleftrightarrow> pools_ok p \<and> (\<forall>b. count (held segs p) b \<le> 1) \<and> (\<forall>seg \<in> set segs. seg_ok seg) \<and>
     segments_bytes segs \<inter> pl_used p = {} \<and> segments_bytes segs \<subseteq> {..<paddr_limit}"

text \<open>One stash and pools become others that hold the same bytes.\<close>

definition same_stash :: "(nat \<times> nat) list \<Rightarrow> Pools \<Rightarrow> (nat \<times> nat) list \<Rightarrow> Pools \<Rightarrow> bool" where
  "same_stash segs p segs' q \<longleftrightarrow> stash_ok segs' q \<and> held segs' q = held segs p \<and>
     (\<forall>b. b \<notin># held segs p \<longrightarrow> (b \<in> pl_used q \<longleftrightarrow> b \<in> pl_used p))"

text \<open>
  A pool operation returns with a result satisfying \<open>P\<close>, or it served the request and then
  \<open>balance\<close> trapped.
\<close>

definition settles :: "nat \<Rightarrow> ('x \<Rightarrow> Pools \<Rightarrow> bool) \<Rightarrow> ('x \<times> Pools) outcome \<Rightarrow> bool" where
  "settles num_cpus P m \<longleftrightarrow>
     (case m of Return (x, p) \<Rightarrow> P x p | Panic \<Rightarrow> \<exists>x q. P x q \<and> balance_underflows num_cpus q)"

lemma settles_Return [simp]: "settles n P (Return (x, p)) \<longleftrightarrow> P x p"
  by (simp add: settles_def)

lemma settles_mono: "settles n P m \<Longrightarrow> (\<And>x p. P x p \<Longrightarrow> Q x p) \<Longrightarrow> settles n Q m"
  by (auto simp: settles_def split: outcome.splits)

text \<open>A continuation that leaves the pools alone.\<close>

lemma settles_map:
  assumes "settles n P m" "\<And>x p. P x p \<Longrightarrow> \<exists>y. f x p = Return (y, p) \<and> Q y p"
  shows "settles n Q (and_then m (\<lambda>(x, p). f x p))"
  using assms(1) by (fastforce simp: settles_def split: outcome.splits dest: assms(2))

lemma segment_bytes_finite [simp]: "finite (segment_bytes seg)"
  by (simp add: segment_bytes_def)

lemma segs_mset_simps [simp]:
  "segs_mset [] = {#}" "segs_mset (seg # segs) = mset_set (segment_bytes seg) + segs_mset segs"
  "segs_mset (xs @ ys) = segs_mset xs + segs_mset ys"
  by (simp_all add: segs_mset_def)

lemma segments_bytes_append [simp]: "segments_bytes (xs @ ys) = segments_bytes xs \<union> segments_bytes ys"
  by (simp add: segments_bytes_def)

lemma set_segs_mset [simp]: "set_mset (segs_mset segs) = segments_bytes segs"
  by (induction segs) simp_all

lemma segs_mset_perm: "mset xs = mset ys \<Longrightarrow> segs_mset xs = segs_mset ys"
  unfolding segs_mset_def sum_mset_sum_list [symmetric] mset_map by simp

lemma pair_free_finite: "pools_ok p \<Longrightarrow> finite (pair_free (pools_pair p))"
  using finite_subset [OF pair_free_limit finite_lessThan] by (simp add: pools_ok_def)

lemma pair_used_pools [simp]: "pair_used (pools_pair p) = pl_used p"
  by (simp add: pools_pair_def)

lemma set_held: "pools_ok p \<Longrightarrow> set_mset (held segs p) = segments_bytes segs \<union> pair_free (pools_pair p)"
  by (simp add: held_def pair_free_finite)

lemma stash_ok_perm:
  assumes "mset xs = mset ys"
  shows "stash_ok xs p \<longleftrightarrow> stash_ok ys p" "held xs p = held ys p"
  using segs_mset_perm [OF assms] mset_eq_setD [OF assms]
  by (simp_all only: stash_ok_def held_def segments_bytes_def)

lemma same_stash_perm: "stash_ok xs p \<Longrightarrow> mset ys = mset xs \<Longrightarrow> same_stash xs p ys p"
  using stash_ok_perm [of ys xs p] by (simp add: same_stash_def)

lemma same_stash_ok: "same_stash segs p segs' q \<Longrightarrow> stash_ok segs' q"
  by (simp add: same_stash_def)

lemma same_stash_trans [trans]:
  "same_stash xs p ys q \<Longrightarrow> same_stash ys q zs r \<Longrightarrow> same_stash xs p zs r"
  by (simp add: same_stash_def)

lemma count_le_1_disjoint:
  assumes "\<forall>b. count (A + B) b \<le> Suc 0"
  shows "set_mset A \<inter> set_mset B = {}"
proof (rule ccontr)
  assume "set_mset A \<inter> set_mset B \<noteq> {}"
  then obtain b where "b \<in># A" "b \<in># B" by blast
  then have "count A b \<ge> 1" "count B b \<ge> 1" by (simp_all add: Suc_le_eq)
  then show False using assms [rule_format, of b] unfolding count_union by linarith
qed

lemma held_disjoint:
  assumes "\<forall>b. count (held ys p) b \<le> 1" "pools_ok p"
  shows "segments_bytes ys \<inter> pair_free (pools_pair p) = {}"
  using count_le_1_disjoint [of "segs_mset ys" "mset_set (pair_free (pools_pair p))"] assms pair_free_finite
  by (simp add: held_def)

lemma stash_segments_ok:
  assumes "stash_ok (xs @ ys) p"
  shows "segments_ok xs" "fresh (segments_bytes xs) (pools_pair p)" "segments_bytes xs \<inter> segments_bytes ys = {}"
proof -
  have ok: "pools_ok p" and cnt: "\<forall>b. count (segs_mset xs + (segs_mset ys + mset_set (pair_free (pools_pair p)))) b \<le> Suc 0"
    using assms by (simp_all add: stash_ok_def held_def add.assoc)
  from count_le_1_disjoint [OF cnt]
  have d: "segments_bytes xs \<inter> segments_bytes ys = {}" "segments_bytes xs \<inter> pair_free (pools_pair p) = {}"
    using pair_free_finite [OF ok] by auto
  then show "segments_bytes xs \<inter> segments_bytes ys = {}" by simp
  show "fresh (segments_bytes xs) (pools_pair p)"
    using assms d(2) by (auto simp: stash_ok_def fresh_def)
  have "\<forall>seg \<in> set xs. seg_ok seg" using assms by (simp add: stash_ok_def)
  moreover have "count (segs_mset xs) b \<le> Suc 0" for b using cnt [rule_format, of b] by simp
  ultimately show "segments_ok xs"
  proof (induction xs)
    case (Cons x xs)
    have "count (segs_mset xs) b \<le> Suc 0" for b using Cons.prems(2) [of b] by simp
    moreover have "segment_bytes x \<inter> segments_bytes xs = {}"
      using count_le_1_disjoint [of "mset_set (segment_bytes x)" "segs_mset xs"] Cons.prems(2) by simp
    ultimately show ?case using Cons by (simp add: seg_ok_def)
  qed simp
qed

text \<open>Moving the first segments of a stash into the pools, or out of them.\<close>

lemma held_added:
  assumes "stash_ok (xs @ ys) p" "added (segments_bytes xs) (pools_pair p) (pools_pair q)" "pools_ok q"
  shows "same_stash (xs @ ys) p ys q"
proof -
  note s = stash_segments_ok [OF assms(1)]
  have ok: "pools_ok p" using assms(1) by (simp add: stash_ok_def)
  have "segs_mset xs = mset_set (segments_bytes xs)"
    using s(1)
  proof (induction xs)
    case (Cons x xs)
    moreover have "finite (segments_bytes xs)" by (simp add: segments_bytes_def)
    ultimately show ?case by (simp add: mset_set_Union)
  qed simp
  moreover have "pair_free (pools_pair q) = pair_free (pools_pair p) \<union> segments_bytes xs"
    using assms(2) by (simp add: added_def)
  moreover have "finite (segments_bytes xs)" by (simp add: segments_bytes_def)
  ultimately have h: "held ys q = held (xs @ ys) p"
    using s(2) pair_free_finite [OF ok] by (simp add: held_def fresh_def mset_set_Union Int_commute)
  have used: "b \<in> pl_used q \<longleftrightarrow> b \<in> pl_used p" if "b \<notin> pair_free (pools_pair q)" for b
    using assms(2) that unfolding added_def pair_used_pools by blast
  have "segments_bytes ys \<inter> pair_free (pools_pair q) = {}"
    by (rule held_disjoint) (use assms(1,3) h in \<open>simp_all add: stash_ok_def\<close>)
  moreover have "segments_bytes ys \<inter> pl_used p = {}" using assms(1) by (auto simp: stash_ok_def)
  ultimately have "segments_bytes ys \<inter> pl_used q = {}" using used by blast
  then have "stash_ok ys q" using assms(1,3) h by (auto simp: stash_ok_def)
  moreover have "b \<in> pl_used q \<longleftrightarrow> b \<in> pl_used p" if "b \<notin># held (xs @ ys) p" for b
    using that set_held [OF assms(3), of ys] h used by simp
  ultimately show ?thesis using h by (simp add: same_stash_def)
qed

lemma held_taken:
  assumes "stash_ok ys p" "taken (segment_bytes seg) (pools_pair p) (pools_pair q)" "pools_ok q" "seg_ok seg"
  shows "same_stash ys p (seg # ys) q"
proof -
  have ok: "pools_ok p" using assms(1) by (simp add: stash_ok_def)
  have t: "segment_bytes seg \<subseteq> pair_free (pools_pair p)"
    "pair_free (pools_pair q) = pair_free (pools_pair p) - segment_bytes seg" "segment_bytes seg \<inter> pl_used q = {}"
    using assms(2) by (simp_all add: taken_def)
  have "pair_free (pools_pair p) = segment_bytes seg \<union> pair_free (pools_pair q)" using t(1,2) by blast
  then have "mset_set (pair_free (pools_pair p)) = mset_set (segment_bytes seg) + mset_set (pair_free (pools_pair q))"
    using mset_set_Union [of "segment_bytes seg" "pair_free (pools_pair q)"] pair_free_finite [OF assms(3)] t(2) by simp
  then have h: "held (seg # ys) q = held ys p" by (simp add: held_def)
  have used: "b \<in> pl_used q \<longleftrightarrow> b \<in> pl_used p" if "b \<notin> pair_free (pools_pair p)" for b
    using assms(2) that unfolding taken_def pair_used_pools by blast
  have "segments_bytes ys \<inter> pair_free (pools_pair p) = {}"
    by (rule held_disjoint) (use assms(1) in \<open>simp_all add: stash_ok_def\<close>)
  moreover have "segments_bytes ys \<inter> pl_used p = {}" using assms(1) by (auto simp: stash_ok_def)
  ultimately have "segments_bytes ys \<inter> pl_used q = {}" using used by blast
  moreover have "segment_bytes seg \<subseteq> {..<paddr_limit}"
    using t(1) pair_free_limit [of "pools_pair p"] ok by (auto simp: pools_ok_def)
  ultimately have "stash_ok (seg # ys) q" using assms(1,3,4) h t(3) by (auto simp: stash_ok_def)
  moreover have "b \<in> pl_used q \<longleftrightarrow> b \<in> pl_used p" if "b \<notin># held ys p" for b
    using that set_held [OF ok, of ys] used by simp
  ultimately show ?thesis using h by (simp add: same_stash_def)
qed

section \<open>The pools serve segments\<close>

fun seg_of :: "nat option \<Rightarrow> nat \<Rightarrow> (nat \<times> nat) list" where
  "seg_of None sz = []"
| "seg_of (Some a) sz = [(a, sz)]"

lemma same_stash_refl: "stash_ok segs p \<Longrightarrow> same_stash segs p segs p"
  by (simp add: same_stash_def)

lemma same_stash_added:
  assumes "stash_ok segs p" "pools_ok q" "added {} (pools_pair p) (pools_pair q)"
  shows "same_stash segs p segs q"
  using held_added [of "[]" segs p q] assms by simp

lemma stash_pools_ok: "stash_ok segs p \<Longrightarrow> pools_ok p"
  by (simp add: stash_ok_def)

lemma pools_alloc_settles:
  assumes "stash_ok segs p" "PAGE_SIZE dvd sz" "0 < sz" "sz < size_of_order MAX_BUDDY_ORDER"
  shows "settles num_cpus (\<lambda>r q. same_stash segs p (seg_of r sz @ segs) q \<and>
      (\<forall>a. r = Some a \<longrightarrow> aligned a (alloc_order sz algn)))
    (pools_alloc debug num_cpus sz algn p)"
proof -
  have ok: "pools_ok p" using stash_pools_ok [OF assms(1)] .
  obtain r q where rq: "pools_ok q"
    "case r of None \<Rightarrow> pools_pair q = pools_pair p \<and> no_chunk (alloc_order sz algn) p
     | Some a \<Rightarrow> aligned a (alloc_order sz algn) \<and> taken {a..<a + sz} (pools_pair p) (pools_pair q)"
    "if balance_underflows num_cpus q then pools_alloc debug num_cpus sz algn p = Panic
     else \<exists>t. pools_alloc debug num_cpus sz algn p = Return (r, t) \<and> pools_ok t \<and> added {} (pools_pair q) (pools_pair t)"
    using pools_alloc_outcome [OF ok assms(2,3)] by blast
  have served: "same_stash segs p (seg_of r sz @ segs) q \<and> (\<forall>a. r = Some a \<longrightarrow> aligned a (alloc_order sz algn))"
  proof (cases r)
    case None
    then have "added {} (pools_pair p) (pools_pair q)" using rq(2) ok added_refl by (simp add: pools_ok_def)
    then show ?thesis using None same_stash_added [OF assms(1) rq(1)] by simp
  next
    case (Some a)
    have "aligned a (alloc_order sz algn)" and t: "taken {a..<a + sz} (pools_pair p) (pools_pair q)"
      using rq(2) Some by simp_all
    moreover from this(1) have "PAGE_SIZE dvd a"
      using dvd_trans [OF size_of_order_dvd [of 0]] unfolding aligned_def by fastforce
    then have "seg_ok (a, sz)" using assms(2,4) by (simp add: seg_ok_def)
    ultimately show ?thesis using Some held_taken [OF assms(1) _ rq(1), of "(a, sz)"] by (simp add: segment_bytes_def)
  qed
  show ?thesis
  proof (cases "balance_underflows num_cpus q")
    case True
    then show ?thesis using rq(3) served by (auto simp: settles_def)
  next
    case False
    then obtain t where t: "pools_alloc debug num_cpus sz algn p = Return (r, t)" "pools_ok t"
      "added {} (pools_pair q) (pools_pair t)" using rq(3) by auto
    then have "same_stash segs p (seg_of r sz @ segs) t"
      using served same_stash_added [of _ q t] same_stash_trans same_stash_ok by blast
    then show ?thesis using t(1) served by simp
  qed
qed

lemma pools_dealloc_settles:
  assumes "stash_ok (xs @ ys) p"
  shows "settles num_cpus (\<lambda>_ q. same_stash (xs @ ys) p ys q)
    (and_then (pools_dealloc debug num_cpus xs p) (\<lambda>p. Return ((), p)))"
proof -
  note s = stash_segments_ok [OF assms]
  obtain q where q: "pools_ok q" "added (segments_bytes xs) (pools_pair p) (pools_pair q)"
    "if balance_underflows num_cpus q then pools_dealloc debug num_cpus xs p = Panic
     else \<exists>r. pools_dealloc debug num_cpus xs p = Return r \<and> pools_ok r \<and> added {} (pools_pair q) (pools_pair r)"
    using pools_dealloc_outcome [OF stash_pools_ok [OF assms] s(1,2)] by blast
  have served: "same_stash (xs @ ys) p ys q" using held_added [OF assms q(2,1)] .
  show ?thesis
  proof (cases "balance_underflows num_cpus q")
    case True
    then show ?thesis using q(3) served by (auto simp: settles_def)
  next
    case False
    then obtain t where t: "pools_dealloc debug num_cpus xs p = Return t" "pools_ok t"
      "added {} (pools_pair q) (pools_pair t)" using q(3) by auto
    then have "same_stash (xs @ ys) p ys t"
      using served same_stash_added [of _ q t] same_stash_trans same_stash_ok by blast
    then show ?thesis using t(1) by simp
  qed
qed

text \<open>A segment is the stash of its parts.\<close>

lemma segment_parts:
  "mset_set {a..<a + n * s} = segs_mset (map (\<lambda>i. (a + i * s, s)) [0..<n])"
  "{a..<a + n * s} = segments_bytes (map (\<lambda>i. (a + i * s, s)) [0..<n])"
proof -
  have un: "{a..<a + Suc n * s} = {a..<a + n * s} \<union> {a + n * s..<a + n * s + s}" for n by auto
  show "mset_set {a..<a + n * s} = segs_mset (map (\<lambda>i. (a + i * s, s)) [0..<n])"
  proof (induction n)
    case (Suc n)
    have "mset_set {a..<a + Suc n * s} = mset_set {a..<a + n * s} + mset_set {a + n * s..<a + n * s + s}"
      unfolding un by (rule mset_set_Union) auto
    then show ?case using Suc by (simp add: segment_bytes_def)
  qed simp
  show "{a..<a + n * s} = segments_bytes (map (\<lambda>i. (a + i * s, s)) [0..<n])"
  proof (induction n)
    case (Suc n)
    then show ?case unfolding un by (simp add: segment_bytes_def)
  qed simp
qed

lemma split_stash:
  assumes "stash_ok ((a, n * s) # segs) p" "PAGE_SIZE dvd s" "0 < n"
  shows "same_stash ((a, n * s) # segs) p (map (\<lambda>i. (a + i * s, s)) [0..<n] @ segs) p"
proof -
  let ?parts = "map (\<lambda>i. (a + i * s, s)) [0..<n]"
  have bytes: "segments_bytes ?parts = segment_bytes (a, n * s)" "segs_mset ?parts = mset_set (segment_bytes (a, n * s))"
    using segment_parts [of a n s] by (simp_all add: segment_bytes_def)
  have ok: "PAGE_SIZE dvd a" "n * s < size_of_order MAX_BUDDY_ORDER"
    using assms(1) by (simp_all add: stash_ok_def seg_ok_def)
  have "s \<le> n * s" using assms(3) by simp
  then have "s < size_of_order MAX_BUDDY_ORDER" using ok(2) by (rule le_less_trans)
  then have "\<forall>seg \<in> set ?parts. seg_ok seg" using assms(2) ok by (auto simp: seg_ok_def)
  moreover have h: "held (?parts @ segs) p = held ((a, n * s) # segs) p" by (simp add: held_def bytes(2))
  ultimately have "stash_ok (?parts @ segs) p"
    using assms(1) by (auto simp: stash_ok_def bytes(1))
  then show ?thesis using h by (simp add: same_stash_def)
qed

section \<open>The cache serves segments\<close>

lemma push_all_outcome:
  assumes "array_ok self" "length (cached nr self) + length as \<le> length (ca_inner self)"
  shows "\<exists>self'. for_each (\<lambda>a self. and_then (CacheArray_push_front a self) (\<lambda>(_, self). Return self)) as self = Return self' \<and>
    array_ok self' \<and> cached nr self' = rev (map (\<lambda>a. (a, CacheArray_segment_size nr)) as) @ cached nr self \<and>
    length (ca_inner self') = length (ca_inner self)"
  using assms
proof (induction as arbitrary: self)
  case (Cons a as)
  from Cons.prems(1) show ?case
  proof (cases rule: push_front_outcome [where a = a and nr = nr])
    case full
    then show ?thesis using Cons.prems(2) by simp
  next
    case (pushed s)
    then show ?thesis using Cons.IH [of s] Cons.prems(2) by auto
  qed
qed simp

lemma segment_size_facts:
  "PAGE_SIZE dvd CacheArray_segment_size nr" "0 < nr \<Longrightarrow> 0 < CacheArray_segment_size nr"
  by (simp_all add: CacheArray_segment_size_def)

lemma CacheArray_alloc_settles:
  assumes "stash_ok (cached nr self @ es) p" "array_ok self" "0 < nr" "nr \<le> 4"
    "2 \<le> length (ca_inner self)" "length (ca_inner self) \<le> 12"
  shows "settles num_cpus (\<lambda>(r, self') q. array_ok self' \<and> length (ca_inner self') = length (ca_inner self) \<and>
      same_stash (cached nr self @ es) p (seg_of r (CacheArray_segment_size nr) @ cached nr self' @ es) q)
    (and_then (CacheArray_alloc debug num_cpus nr self p) (\<lambda>(r, self, p). Return ((r, self), p)))"
  using assms(2)
proof (cases rule: pop_front_outcome [where nr = nr])
  case (popped a s)
  then show ?thesis using assms(1) same_stash_refl by (simp add: CacheArray_alloc_def)
next
  case empty
  let ?n = "length (ca_inner self) * 2 div 3" and ?s = "CacheArray_segment_size nr"
  let ?P = "\<lambda>r q. same_stash es p (seg_of r (?n * ?s) @ es) q \<and> (\<forall>a. r = Some a \<longrightarrow> aligned a (alloc_order (?n * ?s) PAGE_SIZE))"
  have st: "stash_ok es p" using assms(1) empty(2) by simp
  have n: "0 < ?n" "?n \<le> 8" using assms(5,6) by auto
  have "?n * ?s \<le> 8 * (4 * PAGE_SIZE)"
    unfolding CacheArray_segment_size_def using n(2) assms(4) by (intro mult_le_mono) simp_all
  also have "\<dots> < size_of_order MAX_BUDDY_ORDER" by (simp add: size_of_order_def)
  finally have lim: "?n * ?s < size_of_order MAX_BUDDY_ORDER" .
  have pos: "0 < ?n * ?s" using n(1) segment_size_facts(2) [OF assms(3)] by simp
  have page: "PAGE_SIZE dvd ?n * ?s" using segment_size_facts(1) dvd_mult by blast
  let ?f = "\<lambda>r p. case r of None \<Rightarrow> Return ((None, self), p)
    | Some a \<Rightarrow> and_then (for_each (\<lambda>i self. and_then (CacheArray_push_front (a + i * ?s) self) (\<lambda>(_, self). Return self))
        [1..<?n] self) (\<lambda>self. Return ((Some a, self), p))"
  let ?Q = "\<lambda>(r, self') q. array_ok self' \<and> length (ca_inner self') = length (ca_inner self) \<and>
      same_stash es p (seg_of r ?s @ cached nr self' @ es) q"
  have key: "\<exists>y. ?f r q = Return (y, q) \<and> ?Q y q" if P: "?P r q" for r q
  proof (cases r)
    case None
    then show ?thesis using P empty(2) assms(2) by simp
  next
    case (Some a)
    let ?as = "map (\<lambda>i. a + i * ?s) [1..<?n]"
    have fits: "length (cached nr self) + length ?as \<le> length (ca_inner self)"
      using empty(2) by simp
    obtain self' where push: "for_each (\<lambda>i self. and_then (CacheArray_push_front (a + i * ?s) self) (\<lambda>(_, self). Return self))
        [1..<?n] self = Return self'" "array_ok self'" "length (ca_inner self') = length (ca_inner self)"
      "cached nr self' = rev (map (\<lambda>i. (a + i * ?s, ?s)) [1..<?n])"
      using push_all_outcome [OF assms(2) fits] empty(2) by (auto simp: for_each_map comp_def)
    have "same_stash es p ((a, ?n * ?s) # es) q" using P Some by simp
    also have "same_stash ((a, ?n * ?s) # es) q (map (\<lambda>i. (a + i * ?s, ?s)) [0..<?n] @ es) q"
      using split_stash [OF same_stash_ok [OF calculation] segment_size_facts(1) n(1)] .
    also have "same_stash (map (\<lambda>i. (a + i * ?s, ?s)) [0..<?n] @ es) q ((a, ?s) # cached nr self' @ es) q"
      using n(1) push(4)
      by (intro same_stash_perm [OF same_stash_ok [OF calculation]]) (simp add: upt_conv_Cons del: upt_Suc)
    finally show ?thesis using Some push by simp
  qed
  have "settles num_cpus ?P (pools_alloc debug num_cpus (?n * ?s) PAGE_SIZE p)"
    using pools_alloc_settles [OF st page pos lim] .
  from settles_map [where P = ?P and f = ?f and Q = ?Q, OF this key]
  show ?thesis using empty
    by (simp add: CacheArray_alloc_def Let_def case_prod_unfold option.case_distrib [of "\<lambda>m. and_then m _"] cong: option.case_cong)
qed

lemma CacheArray_dealloc_settles:
  assumes "stash_ok ((addr, CacheArray_segment_size nr) # cached nr self @ es) p" "array_ok self"
  shows "settles num_cpus (\<lambda>self' q. array_ok self' \<and> length (ca_inner self') = length (ca_inner self) \<and>
      same_stash ((addr, CacheArray_segment_size nr) # cached nr self @ es) p (cached nr self' @ es) q)
    (CacheArray_dealloc debug num_cpus nr addr self p)"
  using assms(2)
proof (cases rule: push_front_outcome [where nr = nr and a = addr])
  case (pushed s)
  then show ?thesis using assms(1) same_stash_refl by (simp add: CacheArray_dealloc_def)
next
  case full
  let ?s = "CacheArray_segment_size nr" and ?n = "length (ca_inner self) * 2 div 3"
  let ?xs = "(addr, ?s) # take ?n (cached nr self)" and ?ys = "drop ?n (cached nr self) @ es"
  have "?n \<le> length (cached nr self)" using full(2) by simp
  then obtain self' where pop: "pop_segments nr ?n self = Return (take ?n (cached nr self), self')" "array_ok self'"
    "cached nr self' = drop ?n (cached nr self)" "length (ca_inner self') = length (ca_inner self)"
    using pop_segments_outcome [OF assms(2)] by blast
  have eq: "(addr, ?s) # cached nr self @ es = ?xs @ ?ys" by simp
  have "settles num_cpus (\<lambda>_ q. same_stash (?xs @ ?ys) p ?ys q)
      (and_then (pools_dealloc debug num_cpus ?xs p) (\<lambda>p. Return ((), p)))"
    using pools_dealloc_settles [of ?xs ?ys] assms(1) unfolding eq by blast
  then have "settles num_cpus (\<lambda>self' q. array_ok self' \<and> length (ca_inner self') = length (ca_inner self) \<and>
      same_stash (?xs @ ?ys) p (cached nr self' @ es) q)
    (and_then (and_then (pools_dealloc debug num_cpus ?xs p) (\<lambda>p. Return ((), p))) (\<lambda>(_, p). Return (self', p)))"
    by (rule settles_map) (use pop in simp)
  then show ?thesis using full(1) pop(1) unfolding eq by (simp add: CacheArray_dealloc_def Let_def)
qed

definition caches_segs :: "CacheOfSizes \<Rightarrow> (nat \<times> nat) list" where
  "caches_segs cache = cached 1 (cache1 cache) @ cached 2 (cache2 cache) @ cached 3 (cache3 cache) @ cached 4 (cache4 cache)"

definition caches_ok :: "CacheOfSizes \<Rightarrow> bool" where
  "caches_ok cache \<longleftrightarrow> array_ok (cache1 cache) \<and> array_ok (cache2 cache) \<and> array_ok (cache3 cache) \<and> array_ok (cache4 cache) \<and>
     length (ca_inner (cache1 cache)) = 12 \<and> length (ca_inner (cache2 cache)) = 6 \<and>
     length (ca_inner (cache3 cache)) = 6 \<and> length (ca_inner (cache4 cache)) = 6"

lemma CacheOfSizes_new_ok [simp]: "caches_ok CacheOfSizes_new" "caches_segs CacheOfSizes_new = []"
  by (simp_all add: caches_ok_def caches_segs_def CacheOfSizes_new_def) (simp add: CacheArray_new_def)

lemma same_stash_perm2:
  assumes "same_stash xs p ys q" "mset xs' = mset xs" "mset ys' = mset ys"
  shows "same_stash xs' p ys' q"
  using assms(1) stash_ok_perm [OF assms(2), of p] stash_ok_perm [OF assms(3), of q] by (simp add: same_stash_def)

text \<open>One cache array among the others: the rest of the stash is \<open>es\<close>, up to permutation.\<close>

lemma array_alloc_in_cache:
  assumes "stash_ok segs p" "mset segs = mset (cached nr self @ es)" "array_ok self" "0 < nr" "nr \<le> 4"
    "2 \<le> length (ca_inner self)" "length (ca_inner self) \<le> 12"
    "\<And>c. mset (caches_segs (upd c)) = mset (cached nr c @ es)"
    "\<And>c. array_ok c \<Longrightarrow> length (ca_inner c) = length (ca_inner self) \<Longrightarrow> caches_ok (upd c)"
  shows "settles num_cpus (\<lambda>(r, cache') q. caches_ok cache' \<and>
      same_stash segs p (seg_of r (CacheArray_segment_size nr) @ caches_segs cache') q)
    (and_then (CacheArray_alloc debug num_cpus nr self p) (\<lambda>(r, c, p). Return ((r, upd c), p)))"
proof -
  have st: "stash_ok (cached nr self @ es) p" using assms(1) stash_ok_perm(1) [OF assms(2)] by simp
  let ?P = "\<lambda>(r, self') q. array_ok self' \<and> length (ca_inner self') = length (ca_inner self) \<and>
      same_stash (cached nr self @ es) p (seg_of r (CacheArray_segment_size nr) @ cached nr self' @ es) q"
  let ?Q = "\<lambda>(r, cache') q. caches_ok cache' \<and>
      same_stash segs p (seg_of r (CacheArray_segment_size nr) @ caches_segs cache') q"
  have "\<exists>y. Return ((fst x, upd (snd x)), q) = Return (y, q) \<and> ?Q y q" if "?P x q" for x q
    using that assms(9) same_stash_perm2 [OF _ assms(2)] assms(8) by (cases x) fastforce
  from settles_map [where P = ?P and f = "\<lambda>x q. Return ((fst x, upd (snd x)), q)" and Q = ?Q,
      OF CacheArray_alloc_settles [OF st assms(3-7)] this]
  show ?thesis by (simp add: case_prod_unfold)
qed

lemma array_dealloc_in_cache:
  assumes "stash_ok ((addr, CacheArray_segment_size nr) # segs) p" "mset segs = mset (cached nr self @ es)" "array_ok self"
    "\<And>c. mset (caches_segs (upd c)) = mset (cached nr c @ es)"
    "\<And>c. array_ok c \<Longrightarrow> length (ca_inner c) = length (ca_inner self) \<Longrightarrow> caches_ok (upd c)"
  shows "settles num_cpus (\<lambda>cache' q. caches_ok cache' \<and>
      same_stash ((addr, CacheArray_segment_size nr) # segs) p (caches_segs cache') q)
    (and_then (CacheArray_dealloc debug num_cpus nr addr self p) (\<lambda>(c, p). Return (upd c, p)))"
proof -
  have perm: "mset ((addr, CacheArray_segment_size nr) # segs) = mset ((addr, CacheArray_segment_size nr) # cached nr self @ es)"
    using assms(2) by simp
  have st: "stash_ok ((addr, CacheArray_segment_size nr) # cached nr self @ es) p"
    using assms(1) stash_ok_perm(1) [OF perm] by simp
  show ?thesis
    by (rule settles_map [OF CacheArray_dealloc_settles [OF st assms(3)]])
      (use assms(4,5) same_stash_perm2 [OF _ perm] in fastforce)
qed

lemma cache_alloc_settles:
  assumes "stash_ok (caches_segs cache) p" "caches_ok cache" "PAGE_SIZE dvd sz" "0 < sz" "sz < size_of_order MAX_BUDDY_ORDER"
  shows "settles num_cpus (\<lambda>(r, cache') q. caches_ok cache' \<and>
      same_stash (caches_segs cache) p (seg_of r sz @ caches_segs cache') q)
    (and_then (cache_alloc debug num_cpus sz algn cache p) (\<lambda>(r, cache, p). Return ((r, cache), p)))"
    (is "settles _ ?P _")
proof -
  obtain n where n: "sz = n * PAGE_SIZE" using assms(3) by (auto elim: dvdE)
  have sizes: "sz = CacheArray_segment_size n" "sz div PAGE_SIZE = n" using n by (simp_all add: CacheArray_segment_size_def)
  have pools: "settles num_cpus ?P (and_then (pools_alloc debug num_cpus sz algn p) (\<lambda>(r, p). Return ((r, cache), p)))"
    by (rule settles_map [OF pools_alloc_settles [OF assms(1,3-5)]]) (use assms(2) in simp)
  note alloc = array_alloc_in_cache [OF assms(1), where debug = debug and num_cpus = num_cpus]
  have ok: "array_ok (cache1 cache)" "array_ok (cache2 cache)" "array_ok (cache3 cache)" "array_ok (cache4 cache)"
    "length (ca_inner (cache1 cache)) = 12" "length (ca_inner (cache2 cache)) = 6"
    "length (ca_inner (cache3 cache)) = 6" "length (ca_inner (cache4 cache)) = 6"
    using assms(2) by (simp_all add: caches_ok_def)
  consider "algn > sz" | "n = 1" "algn \<le> sz" | "n = 2" "algn \<le> sz" | "n = 3" "algn \<le> sz" | "n = 4" "algn \<le> sz"
    | "algn \<le> sz" "n \<notin> {1, 2, 3, 4}" by fastforce
  then show ?thesis
  proof cases
    case 1
    then show ?thesis using pools by (simp add: cache_alloc_def Let_def case_prod_unfold)
  next
    case 2
    then show ?thesis
      using alloc [of 1 "cache1 cache" "cached 2 (cache2 cache) @ cached 3 (cache3 cache) @ cached 4 (cache4 cache)"
          "\<lambda>c. cache\<lparr>cache1 := c\<rparr>"] ok sizes
      by (simp add: cache_alloc_def Let_def case_prod_unfold caches_segs_def caches_ok_def)
  next
    case 3
    then show ?thesis
      using alloc [of 2 "cache2 cache" "cached 1 (cache1 cache) @ cached 3 (cache3 cache) @ cached 4 (cache4 cache)"
          "\<lambda>c. cache\<lparr>cache2 := c\<rparr>"] ok sizes
      by (simp add: cache_alloc_def Let_def case_prod_unfold caches_segs_def caches_ok_def)
  next
    case 4
    then show ?thesis
      using alloc [of 3 "cache3 cache" "cached 1 (cache1 cache) @ cached 2 (cache2 cache) @ cached 4 (cache4 cache)"
          "\<lambda>c. cache\<lparr>cache3 := c\<rparr>"] ok sizes
      by (simp add: cache_alloc_def Let_def case_prod_unfold caches_segs_def caches_ok_def)
  next
    case 5
    then show ?thesis
      using alloc [of 4 "cache4 cache" "cached 1 (cache1 cache) @ cached 2 (cache2 cache) @ cached 3 (cache3 cache)"
          "\<lambda>c. cache\<lparr>cache4 := c\<rparr>"] ok sizes
      by (simp add: cache_alloc_def Let_def case_prod_unfold caches_segs_def caches_ok_def)
  next
    case 6
    then show ?thesis using pools sizes by (simp add: cache_alloc_def Let_def case_prod_unfold)
  qed
qed

lemma cache_dealloc_settles:
  assumes "stash_ok ((addr, sz) # caches_segs cache) p" "caches_ok cache"
  shows "settles num_cpus (\<lambda>cache' q. caches_ok cache' \<and>
      same_stash ((addr, sz) # caches_segs cache) p (caches_segs cache') q)
    (cache_dealloc debug num_cpus addr sz cache p)"
    (is "settles _ ?P _")
proof -
  have "PAGE_SIZE dvd sz" using assms(1) by (simp add: stash_ok_def seg_ok_def)
  then obtain n where n: "sz = n * PAGE_SIZE" by (auto elim: dvdE)
  have sizes: "sz = CacheArray_segment_size n" "sz div PAGE_SIZE = n" using n by (simp_all add: CacheArray_segment_size_def)
  have "settles num_cpus ?P
      (and_then (and_then (pools_dealloc debug num_cpus [(addr, sz)] p) (\<lambda>p. Return ((), p))) (\<lambda>(_, p). Return (cache, p)))"
    by (rule settles_map [OF pools_dealloc_settles [of "[(addr, sz)]" "caches_segs cache"]]) (use assms in simp_all)
  then have pools: "settles num_cpus ?P (and_then (pools_dealloc debug num_cpus [(addr, sz)] p) (\<lambda>p. Return (cache, p)))"
    by simp
  note dealloc = array_dealloc_in_cache [where debug = debug and num_cpus = num_cpus and segs = "caches_segs cache" and p = p
      and addr = addr]
  have ok: "array_ok (cache1 cache)" "array_ok (cache2 cache)" "array_ok (cache3 cache)" "array_ok (cache4 cache)"
    "length (ca_inner (cache1 cache)) = 12" "length (ca_inner (cache2 cache)) = 6"
    "length (ca_inner (cache3 cache)) = 6" "length (ca_inner (cache4 cache)) = 6"
    using assms(2) by (simp_all add: caches_ok_def)
  consider "n = 1" | "n = 2" | "n = 3" | "n = 4" | "n \<notin> {1, 2, 3, 4}" by fastforce
  then show ?thesis
  proof cases
    case 1
    then show ?thesis
      using assms(1) dealloc [of 1 "cache1 cache" "cached 2 (cache2 cache) @ cached 3 (cache3 cache) @ cached 4 (cache4 cache)"
          "\<lambda>c. cache\<lparr>cache1 := c\<rparr>"] ok sizes
      by (simp add: cache_dealloc_def Let_def caches_segs_def caches_ok_def)
  next
    case 2
    then show ?thesis
      using assms(1) dealloc [of 2 "cache2 cache" "cached 1 (cache1 cache) @ cached 3 (cache3 cache) @ cached 4 (cache4 cache)"
          "\<lambda>c. cache\<lparr>cache2 := c\<rparr>"] ok sizes
      by (simp add: cache_dealloc_def Let_def caches_segs_def caches_ok_def)
  next
    case 3
    then show ?thesis
      using assms(1) dealloc [of 3 "cache3 cache" "cached 1 (cache1 cache) @ cached 2 (cache2 cache) @ cached 4 (cache4 cache)"
          "\<lambda>c. cache\<lparr>cache3 := c\<rparr>"] ok sizes
      by (simp add: cache_dealloc_def Let_def caches_segs_def caches_ok_def)
  next
    case 4
    then show ?thesis
      using assms(1) dealloc [of 4 "cache4 cache" "cached 1 (cache1 cache) @ cached 2 (cache2 cache) @ cached 3 (cache3 cache)"
          "\<lambda>c. cache\<lparr>cache4 := c\<rparr>"] ok sizes
      by (simp add: cache_dealloc_def Let_def caches_segs_def caches_ok_def)
  next
    case 5
    then show ?thesis using pools sizes by (simp add: cache_dealloc_def Let_def)
  qed
qed

end
