(* ===== verification/Smp_Counter.thy ===== *)
theory Smp_Counter
  imports Kernel_Prelude "HOL-Library.Word"
begin

text \<open>
  The per-CPU counter of the frame allocator, \<open>osdk/deps/frame-allocator/src/smp_counter.rs\<close>. An update is one atomic
  instruction on the counter of one CPU. \<open>get\<close> loads the counters of the CPUs one after the other and takes no
  lock, so updates can fall between its loads: the steps of a read are steps of their own here. What a read
  returns is determined by the updates it missed, those on a CPU whose counter it had loaded already.
\<close>

section \<open>The model\<close>

text \<open>A counter holds one \<open>isize\<close> per CPU; \<open>fetch_add\<close> and \<open>fetch_sub\<close> wrap.\<close>

type_synonym FastSmpCounter = "64 word list"

definition FastSmpCounter_add :: "nat \<Rightarrow> nat \<Rightarrow> FastSmpCounter \<Rightarrow> FastSmpCounter" where
  "FastSmpCounter_add on_cpu a self = self[on_cpu := self ! on_cpu + word_of_nat a]"

definition FastSmpCounter_sub :: "nat \<Rightarrow> nat \<Rightarrow> FastSmpCounter \<Rightarrow> FastSmpCounter" where
  "FastSmpCounter_sub on_cpu a self = self[on_cpu := self ! on_cpu - word_of_nat a]"

text \<open>\<open>get\<close>: one iteration of its loop, its result, and a call that no update interrupts.\<close>

definition get_load :: "FastSmpCounter \<Rightarrow> 64 word \<Rightarrow> nat \<Rightarrow> 64 word" where
  "get_load self acc cpu = acc + self ! cpu"

definition get_result :: "64 word \<Rightarrow> nat" where
  "get_result acc = (if sint acc < 0 then 0 else unat acc)"

definition FastSmpCounter_get :: "FastSmpCounter \<Rightarrow> nat" where
  "FastSmpCounter_get self = get_result (foldl (get_load self) 0 [0..<length self])"

text \<open>
  A reader in the middle of \<open>get\<close>: the CPU it loads next and the total so far. Two histories are kept beside it: the
  sum of the updates it missed, and how much all updates since its start have added or subtracted.
\<close>

record SmpReader =
  rd_next :: nat
  rd_total :: "64 word"
  rd_missed :: int
  rd_volume :: nat

definition reader_start :: SmpReader where
  "reader_start = \<lparr>rd_next = 0, rd_total = 0, rd_missed = 0, rd_volume = 0\<rparr>"

definition note_update :: "nat \<Rightarrow> int \<Rightarrow> SmpReader \<Rightarrow> SmpReader" where
  "note_update cpu a r = r\<lparr>rd_missed := rd_missed r + (if cpu < rd_next r then a else 0), rd_volume := rd_volume r + nat \<bar>a\<bar>\<rparr>"

text \<open>The counter with its readers; \<open>sm_sum\<close> is the sum of all updates so far, as an integer.\<close>

record SmpSystem =
  sm_counter :: FastSmpCounter
  sm_sum :: int
  sm_readers :: "nat \<Rightarrow> SmpReader option"

definition smp_init :: "nat \<Rightarrow> SmpSystem \<Rightarrow> bool" where
  "smp_init num_cpus s \<longleftrightarrow> s = \<lparr>sm_counter = replicate num_cpus 0, sm_sum = 0, sm_readers = \<lambda>_. None\<rparr>"

inductive smp_step :: "SmpSystem \<Rightarrow> SmpSystem \<Rightarrow> bool" where
  add: "cpu < length (sm_counter s) \<Longrightarrow> a < usize_limit \<Longrightarrow>
    smp_step s (s\<lparr>sm_counter := FastSmpCounter_add cpu a (sm_counter s), sm_sum := sm_sum s + int a,
      sm_readers := map_option (note_update cpu (int a)) \<circ> sm_readers s\<rparr>)"
| sub: "cpu < length (sm_counter s) \<Longrightarrow> a < usize_limit \<Longrightarrow>
    smp_step s (s\<lparr>sm_counter := FastSmpCounter_sub cpu a (sm_counter s), sm_sum := sm_sum s - int a,
      sm_readers := map_option (note_update cpu (- int a)) \<circ> sm_readers s\<rparr>)"
| start: "sm_readers s i = None \<Longrightarrow> smp_step s (s\<lparr>sm_readers := (sm_readers s)(i \<mapsto> reader_start)\<rparr>)"
| load: "sm_readers s i = Some r \<Longrightarrow> rd_next r < length (sm_counter s) \<Longrightarrow>
    smp_step s (s\<lparr>sm_readers := (sm_readers s)(i \<mapsto>
      r\<lparr>rd_next := Suc (rd_next r), rd_total := get_load (sm_counter s) (rd_total r) (rd_next r)\<rparr>)\<rparr>)"
| return: "sm_readers s i = Some r \<Longrightarrow> rd_next r = length (sm_counter s) \<Longrightarrow>
    smp_step s (s\<lparr>sm_readers := (sm_readers s)(i := None)\<rparr>)"

section \<open>Sums of counters\<close>

lemma sum_list_add_at:
  fixes xs :: "'a::comm_monoid_add list"
  shows "i < length xs \<Longrightarrow> sum_list (xs[i := xs ! i + a]) = sum_list xs + a"
proof (induction xs arbitrary: i)
  case (Cons x xs)
  then show ?case by (cases i) (simp_all add: ac_simps)
qed simp

text \<open>What is still to be loaded changes by the updates of CPUs that are still to be loaded.\<close>

lemma sum_list_drop_add_at:
  fixes xs :: "'a::comm_monoid_add list"
  assumes "i < length xs"
  shows "sum_list (drop n (xs[i := xs ! i + a])) = sum_list (drop n xs) + (if i < n then 0 else a)"
proof (cases "i < n")
  case False
  then have "drop n (xs[i := xs ! i + a]) = (drop n xs)[i - n := drop n xs ! (i - n) + a]"
    using assms by (simp add: drop_update_swap)
  then show ?thesis using False assms sum_list_add_at [of "i - n" "drop n xs" a] by simp
qed simp

lemma counter_add: "i < length c \<Longrightarrow> sum_list (FastSmpCounter_add i a c) = sum_list c + word_of_nat a"
  by (simp add: FastSmpCounter_add_def sum_list_add_at)

lemma counter_sub: "i < length c \<Longrightarrow> sum_list (FastSmpCounter_sub i a c) = sum_list c - word_of_nat a"
  using sum_list_add_at [of i c "- word_of_nat a"] by (simp add: FastSmpCounter_sub_def)

lemma counter_drop:
  assumes "i < length c"
  shows "sum_list (drop n (FastSmpCounter_add i a c)) = sum_list (drop n c) + word_of_int (if i < n then 0 else int a)"
    "sum_list (drop n (FastSmpCounter_sub i a c)) = sum_list (drop n c) + word_of_int (if i < n then 0 else - int a)"
  using sum_list_drop_add_at [OF assms, of n "word_of_nat a"] sum_list_drop_add_at [OF assms, of n "- word_of_nat a"]
  by (simp_all add: FastSmpCounter_add_def FastSmpCounter_sub_def)

lemma counter_length [simp]:
  "length (FastSmpCounter_add i a c) = length c" "length (FastSmpCounter_sub i a c) = length c"
  by (simp_all add: FastSmpCounter_add_def FastSmpCounter_sub_def)

lemma get_result_of_int:
  "get_result (word_of_int n) = (if n mod 2 ^ 64 < 2 ^ 63 then nat (n mod 2 ^ 64) else 0)"
proof -
  have u: "uint (word_of_int n :: 64 word) = n mod 2 ^ 64" by (simp add: uint_word_of_int)
  have "sint (word_of_int n :: 64 word) < 0 \<longleftrightarrow> bit (word_of_int n :: 64 word) 63"
    using bit_last_iff [of "word_of_int n :: 64 word"] by simp
  also have "\<dots> \<longleftrightarrow> bit (uint (word_of_int n :: 64 word)) 63" by (subst bit_uint_iff) simp
  also have "\<dots> \<longleftrightarrow> odd ((n mod 2 ^ 64) div 2 ^ 63)" unfolding u by (rule bit_iff_odd)
  also have "(n mod 2 ^ 64) div 2 ^ 63 = (if n mod 2 ^ 64 < 2 ^ 63 then 0 else 1)"
  proof (cases "n mod 2 ^ 64 < 2 ^ 63")
    case False
    then have "(n mod 2 ^ 64 - 2 ^ 63) div 2 ^ 63 = 0" by (intro div_pos_pos_trivial) simp_all
    then show ?thesis using False div_add_self2 [of "2 ^ 63" "n mod 2 ^ 64 - 2 ^ 63"] by simp
  qed (simp add: div_pos_pos_trivial)
  finally show ?thesis by (simp add: get_result_def u flip: nat_uint_eq)
qed

lemma foldl_get_load: "n \<le> length c \<Longrightarrow> foldl (get_load c) t [0..<n] = t + sum_list (take n c)"
  by (induction n) (simp_all add: get_load_def take_Suc_conv_app_nth)

lemma counter_get: "sum_list c = word_of_int n \<Longrightarrow> FastSmpCounter_get c = (if n mod 2 ^ 64 < 2 ^ 63 then nat (n mod 2 ^ 64) else 0)"
  using foldl_get_load [of "length c" c 0] get_result_of_int [of n] by (simp add: FastSmpCounter_get_def)

section \<open>The invariant\<close>

definition reader_ok :: "SmpSystem \<Rightarrow> SmpReader \<Rightarrow> bool" where
  "reader_ok s r \<longleftrightarrow> rd_next r \<le> length (sm_counter s) \<and>
     rd_total r + sum_list (drop (rd_next r) (sm_counter s)) = word_of_int (sm_sum s - rd_missed r) \<and> \<bar>rd_missed r\<bar> \<le> int (rd_volume r)"

definition smp_ok :: "nat \<Rightarrow> SmpSystem \<Rightarrow> bool" where
  "smp_ok num_cpus s \<longleftrightarrow> length (sm_counter s) = num_cpus \<and> sum_list (sm_counter s) = word_of_int (sm_sum s) \<and>
     (\<forall>i r. sm_readers s i = Some r \<longrightarrow> reader_ok s r)"

lemma reader_ok_update:
  assumes "reader_ok s r" "length c = length (sm_counter s)"
    "sum_list (drop (rd_next r) c) = sum_list (drop (rd_next r) (sm_counter s)) + word_of_int (if cpu < rd_next r then 0 else a)"
  shows "reader_ok (s\<lparr>sm_counter := c, sm_sum := sm_sum s + a, sm_readers := rs\<rparr>) (note_update cpu a r)"
proof -
  have t: "rd_total r + sum_list (drop (rd_next r) (sm_counter s)) = word_of_int (sm_sum s - rd_missed r)"
    using assms(1) by (simp add: reader_ok_def)
  have "rd_total r + sum_list (drop (rd_next r) c) = word_of_int (sm_sum s - rd_missed r) + word_of_int (if cpu < rd_next r then 0 else a)"
    unfolding assms(3) t [symmetric] by simp
  also have "\<dots> = word_of_int (sm_sum s + a - (rd_missed r + (if cpu < rd_next r then a else 0)))"
    by (cases "cpu < rd_next r") (simp_all flip: of_int_add add: algebra_simps)
  finally have "rd_total r + sum_list (drop (rd_next r) c) = word_of_int (sm_sum s + a - (rd_missed r + (if cpu < rd_next r then a else 0)))" .
  moreover have "\<bar>rd_missed r + (if cpu < rd_next r then a else 0)\<bar> \<le> int (rd_volume r + nat \<bar>a\<bar>)"
    using assms(1) by (auto simp: reader_ok_def)
  ultimately show ?thesis using assms(1,2) by (simp add: reader_ok_def note_update_def)
qed

interpretation smp: step_system "smp_init n" smp_step "smp_ok n" for n
proof
  show "smp_ok n s" if "smp_init n s" for s using that by (simp add: smp_init_def smp_ok_def sum_list_replicate)
  show "smp_ok n t" if ok: "smp_ok n s" and step: "smp_step s t" for s t
    using step
  proof cases
    case (add cpu a)
    have "reader_ok t (note_update cpu (int a) r)" if "sm_readers s i = Some r" for i r
      unfolding add(1) by (rule reader_ok_update) (use ok that add(2) in \<open>auto simp: smp_ok_def counter_drop\<close>)
    then show ?thesis using ok add by (auto simp: smp_ok_def counter_add)
  next
    case (sub cpu a)
    have "reader_ok t (note_update cpu (- int a) r)" if "sm_readers s i = Some r" for i r
      using reader_ok_update [of s r "FastSmpCounter_sub cpu a (sm_counter s)" cpu "- int a"] ok that sub
      by (auto simp: smp_ok_def counter_drop)
    then show ?thesis using ok sub by (auto simp: smp_ok_def counter_sub)
  next
    case (start i)
    then show ?thesis using ok by (auto simp: smp_ok_def reader_ok_def reader_start_def)
  next
    case (load i r)
    then have "reader_ok s r" using ok by (simp add: smp_ok_def)
    then have "reader_ok s (r\<lparr>rd_next := Suc (rd_next r), rd_total := get_load (sm_counter s) (rd_total r) (rd_next r)\<rparr>)"
      using load(3) Cons_nth_drop_Suc [of "rd_next r" "sm_counter s", symmetric] by (simp add: reader_ok_def get_load_def add.assoc)
    then show ?thesis using ok load by (auto simp: smp_ok_def reader_ok_def)
  next
    case (return i r)
    then show ?thesis using ok by (auto simp: smp_ok_def reader_ok_def)
  qed
qed

section \<open>Properties\<close>

text \<open>C28. A read of the counter that runs beside any updates and other reads. When it has loaded every CPU, what it
  returns is the sum of all updates so far without those it missed, as a 64-bit value, or zero when that value is
  \<open>2 ^ 63\<close> or more; the updates it missed amount to no more than all updates since its start. In particular a read
  that no update falls into is exact below \<open>2 ^ 63\<close>, and zero from there up to \<open>2 ^ 64\<close>.\<close>

theorem smp_counter_read:
  assumes "reachable_from (smp_init num_cpus) smp_step s" "sm_readers s i = Some r" "rd_next r = length (sm_counter s)"
  shows "let seen = (sm_sum s - rd_missed r) mod 2 ^ 64 in
      get_result (rd_total r) = (if seen < 2 ^ 63 then nat seen else 0) \<and>
      \<bar>rd_missed r\<bar> \<le> int (rd_volume r) \<and>
      (rd_volume r = 0 \<and> 0 \<le> sm_sum s \<and> sm_sum s < 2 ^ 64 \<longrightarrow>
        get_result (rd_total r) = (if sm_sum s < 2 ^ 63 then nat (sm_sum s) else 0))"
proof -
  have "reader_ok s r" using smp.reachable_invar [OF assms(1)] assms(2) by (simp add: smp_ok_def)
  then have r: "rd_total r = word_of_int (sm_sum s - rd_missed r)" "\<bar>rd_missed r\<bar> \<le> int (rd_volume r)"
    using assms(3) by (simp_all add: reader_ok_def)
  have "sm_sum s mod 2 ^ 64 = sm_sum s" if "0 \<le> sm_sum s" "sm_sum s < 2 ^ 64" using that by (rule mod_pos_pos_trivial)
  then show ?thesis using r(2) get_result_of_int [of "sm_sum s - rd_missed r"] unfolding r(1) Let_def by auto
qed

text \<open>Two CPUs, the second holding 5. A read loads the first, misses the 10 added there, and loads the second.\<close>

definition read_of_two :: SmpSystem where
  "read_of_two = \<lparr>sm_counter = [10, 5], sm_sum = 15,
     sm_readers = [7 \<mapsto> \<lparr>rd_next = 2, rd_total = 5, rd_missed = 10, rd_volume = 10\<rparr>]\<rparr>"

lemma read_of_two_reachable: "reachable_from (smp_init 2) smp_step read_of_two"
proof -
  let ?s0 = "\<lparr>sm_counter = [0, 0], sm_sum = 0, sm_readers = \<lambda>_. None\<rparr> :: SmpSystem"
  let ?s1 = "\<lparr>sm_counter = [0, 5], sm_sum = 5, sm_readers = \<lambda>_. None\<rparr> :: SmpSystem"
  let ?s2 = "?s1\<lparr>sm_readers := [7 \<mapsto> reader_start]\<rparr>"
  let ?s3 = "?s1\<lparr>sm_readers := [7 \<mapsto> reader_start\<lparr>rd_next := 1\<rparr>]\<rparr>"
  let ?s4 = "\<lparr>sm_counter = [10, 5], sm_sum = 15, sm_readers = [7 \<mapsto> reader_start\<lparr>rd_next := 1, rd_missed := 10, rd_volume := 10\<rparr>]\<rparr> :: SmpSystem"
  have "reachable_from (smp_init 2) smp_step ?s0" by (rule reach_init) (simp add: smp_init_def numeral_2_eq_2)
  moreover have "smp_step ?s0 ?s1" using smp_step.add [of 1 ?s0 5] by (simp add: FastSmpCounter_add_def comp_def)
  ultimately have "reachable_from (smp_init 2) smp_step ?s1" by (rule reach_step)
  moreover have "smp_step ?s1 ?s2" using start [of ?s1 7] by simp
  ultimately have "reachable_from (smp_init 2) smp_step ?s2" by (rule reach_step)
  moreover have "smp_step ?s2 ?s3" using load [of ?s2 7 reader_start] by (simp add: reader_start_def get_load_def)
  ultimately have "reachable_from (smp_init 2) smp_step ?s3" by (rule reach_step)
  moreover have "note_update 0 10 (reader_start\<lparr>rd_next := Suc 0\<rparr>) = reader_start\<lparr>rd_next := Suc 0, rd_missed := 10, rd_volume := 10\<rparr>"
    by (simp add: note_update_def reader_start_def)
  then have "smp_step ?s3 ?s4" using smp_step.add [of 0 ?s3 10] by (simp add: FastSmpCounter_add_def)
  ultimately have "reachable_from (smp_init 2) smp_step ?s4" by (rule reach_step)
  moreover have "smp_step ?s4 read_of_two"
    using load [of ?s4 7 "reader_start\<lparr>rd_next := 1, rd_missed := 10, rd_volume := 10\<rparr>"]
    by (simp add: reader_start_def get_load_def read_of_two_def numeral_2_eq_2)
  ultimately show ?thesis by (rule reach_step)
qed

theorem smp_counter_read_witness:
  "reachable_from (smp_init 2) smp_step read_of_two \<and> sm_sum read_of_two = 15 \<and>
   get_result (rd_total (the (sm_readers read_of_two 7))) = 5"
  using smp_counter_read [OF read_of_two_reachable, of 7 "the (sm_readers read_of_two 7)"] read_of_two_reachable
  by (simp add: read_of_two_def Let_def)

end
