(* ===== verification/Frame_Allocator.thy ===== *)
theory Frame_Allocator
  imports Frame_Cache Smp_Counter
begin

text \<open>
  The frame allocator of the kernel, \<open>osdk/deps/frame-allocator/src/lib.rs\<close>: the caches in front of the pools on
  every CPU, and the three operations of \<open>GlobalFrameAllocator\<close>. They run on the current CPU with interrupts
  disabled; what they change is the cache and the pool of that CPU, which no other CPU touches, the global pool,
  which they lock from its first use to their end, the snapshot of its size, and one update of the per-CPU counter
  of free memory.
\<close>

section \<open>The model\<close>

record CpuLocal =
  cl_cache :: CacheOfSizes
  cl_pool :: BuddySet

record FrameAllocator =
  fa_cpus :: "CpuLocal list"
  fa_global :: BuddySet
  fa_global_size :: nat
  fa_used :: "nat set"
  fa_total_free :: FastSmpCounter

text \<open>A call that no operation of another CPU falls into; \<open>Smp_Counter\<close> has the others.\<close>

definition load_total_free_size :: "FrameAllocator \<Rightarrow> nat" where
  "load_total_free_size s = FastSmpCounter_get (fa_total_free s)"

text \<open>What the operations of a CPU see, and what they leave.\<close>

definition cpu_view :: "nat \<Rightarrow> FrameAllocator \<Rightarrow> Pools" where
  "cpu_view cpu s = \<lparr>pl_local = cl_pool (fa_cpus s ! cpu), pl_global = fa_global s,
     pl_global_size = fa_global_size s, pl_locked = False, pl_used = fa_used s\<rparr>"

definition cpu_put :: "nat \<Rightarrow> CacheOfSizes \<Rightarrow> Pools \<Rightarrow> FrameAllocator \<Rightarrow> FrameAllocator" where
  "cpu_put cpu cache p s = s\<lparr>fa_cpus := (fa_cpus s)[cpu := \<lparr>cl_cache = cache, cl_pool = pl_local p\<rparr>],
     fa_global := pl_global p, fa_global_size := pl_global_size p, fa_used := pl_used p\<rparr>"

definition FrameAllocator_alloc :: "bool \<Rightarrow> nat \<Rightarrow> nat \<Rightarrow> nat \<Rightarrow> FrameAllocator
    \<Rightarrow> (nat option \<times> FrameAllocator) outcome" where
  "FrameAllocator_alloc debug cpu layout_size layout_align s =
     and_then (cache_alloc debug (length (fa_cpus s)) layout_size layout_align
         (cl_cache (fa_cpus s ! cpu)) (cpu_view cpu s)) (\<lambda>(res, cache, p).
     let s = cpu_put cpu cache p s in
     Return (res,
       if res \<noteq> None then s\<lparr>fa_total_free := FastSmpCounter_sub cpu layout_size (fa_total_free s)\<rparr> else s))"

definition FrameAllocator_dealloc :: "bool \<Rightarrow> nat \<Rightarrow> nat \<Rightarrow> nat \<Rightarrow> FrameAllocator
    \<Rightarrow> FrameAllocator outcome" where
  "FrameAllocator_dealloc debug cpu addr sz s =
     (let s = s\<lparr>fa_total_free := FastSmpCounter_add cpu sz (fa_total_free s)\<rparr> in
      and_then (cache_dealloc debug (length (fa_cpus s)) addr sz
          (cl_cache (fa_cpus s ! cpu)) (cpu_view cpu s)) (\<lambda>(cache, p).
      Return (cpu_put cpu cache p s)))"

definition FrameAllocator_add_free_memory :: "bool \<Rightarrow> nat \<Rightarrow> nat \<Rightarrow> nat \<Rightarrow> FrameAllocator
    \<Rightarrow> FrameAllocator outcome" where
  "FrameAllocator_add_free_memory debug cpu addr sz s =
     (let s = s\<lparr>fa_total_free := FastSmpCounter_add cpu sz (fa_total_free s)\<rparr> in
      and_then (pools_add_free_memory debug addr sz (cpu_view cpu s)) (\<lambda>p.
      Return (cpu_put cpu (cl_cache (fa_cpus s ! cpu)) p s)))"

definition FrameAllocator_new :: "nat \<Rightarrow> nat set \<Rightarrow> FrameAllocator" where
  "FrameAllocator_new num_cpus used =
     \<lparr>fa_cpus = replicate num_cpus \<lparr>cl_cache = CacheOfSizes_new, cl_pool = BuddySet_new_empty MAX_LOCAL_BUDDY_ORDER\<rparr>,
      fa_global = BuddySet_new_empty MAX_BUDDY_ORDER, fa_global_size = 0, fa_used = used,
      fa_total_free = replicate num_cpus 0\<rparr>"

section \<open>All memory held by the allocator\<close>

definition cpu_segs :: "CpuLocal \<Rightarrow> (nat \<times> nat) list" where
  "cpu_segs c = caches_segs (cl_cache c)"

definition cpu_mset :: "CpuLocal \<Rightarrow> nat multiset" where
  "cpu_mset c = segs_mset (cpu_segs c) + mset_set (free_bytes (cl_pool c))"

definition all_held :: "FrameAllocator \<Rightarrow> nat multiset" where
  "all_held s = (\<Sum>c \<leftarrow> fa_cpus s. cpu_mset c) + mset_set (free_bytes (fa_global s))"

definition cpu_ok :: "nat set \<Rightarrow> CpuLocal \<Rightarrow> bool" where
  "cpu_ok used c \<longleftrightarrow> caches_ok (cl_cache c) \<and> pool_ok used (cl_pool c) \<and>
     length (bs_lists (cl_pool c)) = MAX_LOCAL_BUDDY_ORDER \<and> (\<forall>seg \<in> set (cpu_segs c). seg_ok seg) \<and>
     segments_bytes (cpu_segs c) \<inter> used = {} \<and> segments_bytes (cpu_segs c) \<subseteq> {..<paddr_limit}"

definition frames_ok :: "FrameAllocator \<Rightarrow> bool" where
  "frames_ok s \<longleftrightarrow> (\<forall>b. count (all_held s) b \<le> 1) \<and> (\<forall>c \<in> set (fa_cpus s). cpu_ok (fa_used s) c) \<and>
     pool_ok (fa_used s) (fa_global s) \<and> length (bs_lists (fa_global s)) = MAX_BUDDY_ORDER \<and>
     fa_global_size s < usize_limit"

text \<open>The other CPUs' share.\<close>

definition others :: "nat \<Rightarrow> CpuLocal list \<Rightarrow> nat multiset" where
  "others cpu cs = (\<Sum>c \<leftarrow> take cpu cs @ drop (Suc cpu) cs. cpu_mset c)"

lemma total_split: "cpu < length cs \<Longrightarrow> (\<Sum>c \<leftarrow> cs. cpu_mset c) = cpu_mset (cs ! cpu) + others cpu cs"
  by (subst id_take_nth_drop [of cpu cs]) (simp_all add: others_def)

lemma others_update: "others cpu (cs[cpu := c]) = others cpu cs"
  by (simp add: others_def)

lemma cpu_mset_in_others:
  "j < length cs \<Longrightarrow> j \<noteq> cpu \<Longrightarrow> cpu < length cs \<Longrightarrow> set_mset (cpu_mset (cs ! j)) \<subseteq> set_mset (others cpu cs)"
proof -
  assume j: "j < length cs" "j \<noteq> cpu" "cpu < length cs"
  have "cs ! j \<in> set (take cpu cs @ drop (Suc cpu) cs)"
  proof (cases "j < cpu")
    case True
    then show ?thesis using j by (auto simp: in_set_conv_nth)
  next
    case False
    then have "drop (Suc cpu) cs ! (j - Suc cpu) = cs ! j" "j - Suc cpu < length (drop (Suc cpu) cs)" using j by auto
    then show ?thesis by (metis UnI2 nth_mem set_append)
  qed
  then obtain ps qs where "take cpu cs @ drop (Suc cpu) cs = ps @ cs ! j # qs" by (meson split_list)
  then show ?thesis by (auto simp: others_def)
qed

lemma pool_finite: "pool_ok used s \<Longrightarrow> finite (free_bytes s)"
  using free_bytes_finite by (simp add: pool_ok_def)

lemma cpu_view_pair [simp]: "pools_pair (cpu_view cpu s) = (cl_pool (fa_cpus s ! cpu), fa_global s, fa_used s)"
  by (simp add: cpu_view_def pools_pair_def)

lemma total_view:
  assumes "frames_ok s" "cpu < length (fa_cpus s)"
  shows "all_held s = held (cpu_segs (fa_cpus s ! cpu)) (cpu_view cpu s) + others cpu (fa_cpus s)"
    "stash_ok (cpu_segs (fa_cpus s ! cpu)) (cpu_view cpu s)"
proof -
  let ?c = "fa_cpus s ! cpu"
  have c: "cpu_ok (fa_used s) ?c" using assms by (simp add: frames_ok_def)
  have fin: "finite (free_bytes (cl_pool ?c))" "finite (free_bytes (fa_global s))"
    using c assms(1) pool_finite by (auto simp: cpu_ok_def frames_ok_def)
  have t: "all_held s = cpu_mset ?c + (mset_set (free_bytes (fa_global s)) + others cpu (fa_cpus s))"
    using total_split [OF assms(2)] by (simp add: all_held_def)
  have cnt: "\<forall>b. count (cpu_mset ?c + (mset_set (free_bytes (fa_global s)) + others cpu (fa_cpus s))) b \<le> Suc 0"
    using assms(1) t by (simp add: frames_ok_def)
  have disj: "free_bytes (cl_pool ?c) \<inter> free_bytes (fa_global s) = {}"
    using count_le_1_disjoint [OF cnt] fin by (auto simp: cpu_mset_def)
  then have "held (cpu_segs ?c) (cpu_view cpu s) = cpu_mset ?c + mset_set (free_bytes (fa_global s))"
    using fin by (simp add: held_def cpu_mset_def mset_set_Union)
  then show eq: "all_held s = held (cpu_segs ?c) (cpu_view cpu s) + others cpu (fa_cpus s)" using t by simp
  have "pools_ok (cpu_view cpu s)"
    using c assms(1) disj by (simp add: pools_ok_def cpu_ok_def frames_ok_def cpu_view_def pools_pair_def)
  moreover have "count (held (cpu_segs ?c) (cpu_view cpu s)) b \<le> 1" for b
  proof -
    have "count (all_held s) b \<le> 1" using assms(1) by (simp add: frames_ok_def)
    then show ?thesis unfolding eq count_union by linarith
  qed
  ultimately show "stash_ok (cpu_segs ?c) (cpu_view cpu s)"
    using c by (simp add: stash_ok_def cpu_ok_def cpu_view_def)
qed

text \<open>
  The effect of an operation of one CPU on the whole system: the segments \<open>xs\<close> come in, the segments
  \<open>ys\<close> go out, and the operation's CPU keeps the rest.
\<close>

lemma cpu_put_ok:
  assumes "frames_ok s" "cpu < length (fa_cpus s)" "segments_bytes xs \<inter> set_mset (all_held s) = {}"
    "same_stash (xs @ cpu_segs (fa_cpus s ! cpu)) (cpu_view cpu s) (ys @ caches_segs cache) q" "caches_ok cache"
  shows "frames_ok (cpu_put cpu cache q s)" "all_held (cpu_put cpu cache q s) + segs_mset ys = all_held s + segs_mset xs"
    "\<And>b. b \<notin># all_held s \<Longrightarrow> b \<notin> segments_bytes xs \<Longrightarrow> b \<in> pl_used q \<longleftrightarrow> b \<in> fa_used s"
    "segments_bytes ys \<inter> pl_used q = {}"
proof -
  let ?cs = "fa_cpus s" and ?t = "cpu_put cpu cache q s"
  let ?segs = "cpu_segs (?cs ! cpu)" and ?p = "cpu_view cpu s" and ?O = "others cpu (fa_cpus s)"
  note v = total_view [OF assms(1,2)]
  have ss: "stash_ok (ys @ caches_segs cache) q" "held (ys @ caches_segs cache) q = held (xs @ ?segs) ?p"
    "\<And>b. b \<notin># held (xs @ ?segs) ?p \<Longrightarrow> b \<in> pl_used q \<longleftrightarrow> b \<in> fa_used s"
    using assms(4) by (auto simp: same_stash_def cpu_view_def)
  have okq: "pools_ok q" using stash_pools_ok [OF ss(1)] .
  then have q: "pool_ok (pl_used q) (pl_local q)" "pool_ok (pl_used q) (pl_global q)"
    "free_bytes (pl_local q) \<inter> free_bytes (pl_global q) = {}"
    "length (bs_lists (pl_local q)) = MAX_LOCAL_BUDDY_ORDER" "length (bs_lists (pl_global q)) = MAX_BUDDY_ORDER"
    "pl_global_size q < usize_limit"
    by (simp_all add: pools_ok_def pools_pair_def)
  have heldx: "held (xs @ ?segs) ?p = segs_mset xs + held ?segs ?p" by (simp add: held_def)
  have "held (ys @ caches_segs cache) q = segs_mset ys + (cpu_mset \<lparr>cl_cache = cache, cl_pool = pl_local q\<rparr> + mset_set (free_bytes (pl_global q)))"
    using q(3) pool_finite [OF q(1)] pool_finite [OF q(2)]
    by (simp add: held_def cpu_mset_def cpu_segs_def pools_pair_def mset_set_Union)
  moreover have "all_held ?t = cpu_mset \<lparr>cl_cache = cache, cl_pool = pl_local q\<rparr> + ?O + mset_set (free_bytes (pl_global q))"
    using assms(2) total_split [of cpu "?cs[cpu := \<lparr>cl_cache = cache, cl_pool = pl_local q\<rparr>]"]
    by (simp add: all_held_def cpu_put_def others_update)
  ultimately have "all_held ?t + segs_mset ys = held (ys @ caches_segs cache) q + ?O" by simp
  then show tot: "all_held ?t + segs_mset ys = all_held s + segs_mset xs" unfolding ss(2) heldx v(1) by simp
  have "count (held (ys @ caches_segs cache) q) b \<le> 1" for b using ss(1) by (simp add: stash_ok_def)
  then have cntx: "count (segs_mset xs) b \<le> 1" for b using ss(2) heldx by (metis count_union le_trans le_add1)
  have cnt: "count (all_held ?t) b \<le> 1" for b
  proof -
    have "count (all_held s) b + count (segs_mset xs) b \<le> 1"
    proof (cases "b \<in> segments_bytes xs")
      case True
      then have "b \<notin># all_held s" using assms(3) by blast
      then show ?thesis using cntx [of b] by (simp add: not_in_iff)
    next
      case False
      then have "b \<notin># segs_mset xs" by simp
      then have "count (segs_mset xs) b = 0" by (simp only: not_in_iff)
      moreover have "count (all_held s) b \<le> 1" using assms(1) by (simp add: frames_ok_def)
      ultimately show ?thesis by simp
    qed
    then show ?thesis using tot by (metis count_union le_trans le_add1)
  qed
  have frame: "b \<in> pl_used q \<longleftrightarrow> b \<in> fa_used s" if "b \<in># ?O" for b
  proof (rule ss(3))
    have "\<forall>b. count (held ?segs ?p + ?O) b \<le> Suc 0" using assms(1) v(1) by (simp add: frames_ok_def)
    then have "b \<notin># held ?segs ?p" using count_le_1_disjoint that by blast
    moreover have "b \<notin> segments_bytes xs" using that assms(3) v(1) by auto
    ultimately show "b \<notin># held (xs @ ?segs) ?p" unfolding heldx by simp
  qed
  have "cpu_ok (pl_used q) c" if mem: "c \<in> set (?cs[cpu := \<lparr>cl_cache = cache, cl_pool = pl_local q\<rparr>])" for c
  proof -
    obtain j where j: "j < length ?cs" "c = ?cs[cpu := \<lparr>cl_cache = cache, cl_pool = pl_local q\<rparr>] ! j"
      using mem unfolding in_set_conv_nth length_list_update by blast
    show ?thesis
    proof (cases "j = cpu")
      case True
      then show ?thesis using j q ss(1) assms(5) by (auto simp: cpu_ok_def cpu_segs_def stash_ok_def)
    next
      case False
      then have c: "cpu_ok (fa_used s) c" "c = ?cs ! j" using j assms(1) by (simp_all add: frames_ok_def)
      have sub: "set_mset (cpu_mset c) \<subseteq> set_mset ?O" using cpu_mset_in_others [OF j(1) False assms(2)] c(2) by simp
      have "finite (free_bytes (cl_pool c))" using c(1) pool_finite [of "fa_used s" "cl_pool c"] by (simp add: cpu_ok_def)
      then have "b \<in> pl_used q \<longleftrightarrow> b \<in> fa_used s" if "b \<in> segments_bytes (cpu_segs c) \<union> free_bytes (cl_pool c)" for b
        using frame [of b] sub that by (auto simp: cpu_mset_def)
      then have "pool_ok (pl_used q) (cl_pool c)" "segments_bytes (cpu_segs c) \<inter> pl_used q = {}"
        using c(1) pool_ok_frame [of "fa_used s" "cl_pool c" "pl_used q"] by (auto simp: cpu_ok_def)
      then show ?thesis using c(1) by (simp add: cpu_ok_def)
    qed
  qed
  then show "frames_ok ?t" using cnt q by (simp add: frames_ok_def cpu_put_def)
  show "b \<in> pl_used q \<longleftrightarrow> b \<in> fa_used s" if "b \<notin># all_held s" "b \<notin> segments_bytes xs" for b
    using that by (intro ss(3)) (simp add: heldx v(1))
  show "segments_bytes ys \<inter> pl_used q = {}" using ss(1) by (auto simp: stash_ok_def)
qed

section \<open>The three operations\<close>

definition counter_ok :: "FrameAllocator \<Rightarrow> bool" where
  "counter_ok s \<longleftrightarrow> length (fa_total_free s) = length (fa_cpus s) \<and>
     sum_list (fa_total_free s) = word_of_nat (size (all_held s))"

lemma counter_irrelevant [simp]:
  "frames_ok (s\<lparr>fa_total_free := c\<rparr>) \<longleftrightarrow> frames_ok s" "all_held (s\<lparr>fa_total_free := c\<rparr>) = all_held s"
  "cpu_view cpu (s\<lparr>fa_total_free := c\<rparr>) = cpu_view cpu s"
  "cpu_put cpu cache q (s\<lparr>fa_total_free := c\<rparr>) = (cpu_put cpu cache q s)\<lparr>fa_total_free := c\<rparr>"
  by (simp_all add: frames_ok_def all_held_def cpu_view_def cpu_put_def)

lemma cpu_put_simps [simp]:
  "fa_total_free (cpu_put cpu cache q s) = fa_total_free s" "length (fa_cpus (cpu_put cpu cache q s)) = length (fa_cpus s)"
  "fa_used (cpu_put cpu cache q s) = pl_used q"
  by (simp_all add: cpu_put_def)

lemma size_segs_mset: "size (segs_mset (seg_of r sz)) = (if r = None then 0 else sz)"
  by (cases r) (simp_all add: segment_bytes_def)

text \<open>What an operation with incoming segments \<open>xs\<close> and outgoing segments \<open>ys\<close> does to the system.\<close>

definition transfers :: "(nat \<times> nat) list \<Rightarrow> (nat \<times> nat) list \<Rightarrow> FrameAllocator \<Rightarrow> FrameAllocator \<Rightarrow> bool" where
  "transfers xs ys s t \<longleftrightarrow> frames_ok t \<and> all_held t + segs_mset ys = all_held s + segs_mset xs \<and>
     length (fa_cpus t) = length (fa_cpus s) \<and> segments_bytes ys \<inter> fa_used t = {} \<and>
     (\<forall>b. b \<notin># all_held s \<longrightarrow> b \<notin> segments_bytes xs \<longrightarrow> (b \<in> fa_used t \<longleftrightarrow> b \<in> fa_used s)) \<and>
     (counter_ok s \<longrightarrow> counter_ok t)"

lemma FrameAllocator_alloc_settles:
  assumes "frames_ok s" "cpu < length (fa_cpus s)" "PAGE_SIZE dvd sz" "0 < sz" "sz < size_of_order MAX_BUDDY_ORDER"
  shows "case FrameAllocator_alloc debug cpu sz algn s of
      Return (r, t) \<Rightarrow> transfers [] (seg_of r sz) s t
    | Panic \<Rightarrow> \<exists>r t cache q. transfers [] (seg_of r sz) s t \<and>
        fa_cpus t ! cpu = \<lparr>cl_cache = cache, cl_pool = pl_local q\<rparr> \<and> fa_global t = pl_global q \<and>
        balance_underflows (length (fa_cpus s)) q"
proof -
  let ?c = "fa_cpus s ! cpu"
  let ?P = "\<lambda>(r, cache) q. caches_ok cache \<and> same_stash (cpu_segs ?c) (cpu_view cpu s) (seg_of r sz @ caches_segs cache) q"
  let ?done = "\<lambda>r cache q. if r \<noteq> None
    then (cpu_put cpu cache q s)\<lparr>fa_total_free := FastSmpCounter_sub cpu sz (fa_total_free s)\<rparr> else cpu_put cpu cache q s"
  have c: "caches_ok (cl_cache ?c)" using assms(1,2) by (simp add: frames_ok_def cpu_ok_def)
  have st: "settles (length (fa_cpus s)) ?P
    (and_then (cache_alloc debug (length (fa_cpus s)) sz algn (cl_cache ?c) (cpu_view cpu s)) (\<lambda>(r, cache, p). Return ((r, cache), p)))"
    using cache_alloc_settles [OF _ c assms(3-5)] total_view(2) [OF assms(1,2)] by (simp add: cpu_segs_def)
  have fin: "transfers [] (seg_of r sz) s (?done r cache q)" if "?P (r, cache) q" for r cache q
  proof -
    have put: "frames_ok (cpu_put cpu cache q s)" "all_held (cpu_put cpu cache q s) + segs_mset (seg_of r sz) = all_held s"
      "\<And>b. b \<notin># all_held s \<Longrightarrow> b \<in> pl_used q \<longleftrightarrow> b \<in> fa_used s" "segments_bytes (seg_of r sz) \<inter> pl_used q = {}"
      using cpu_put_ok [OF assms(1,2), of "[]" "seg_of r sz" cache q] that by simp_all
    have "size (all_held (cpu_put cpu cache q s)) + (if r = None then 0 else sz) = size (all_held s)"
      using arg_cong [OF put(2), of size] size_segs_mset [of r sz] by simp
    from arg_cong [OF this, of "word_of_nat :: nat \<Rightarrow> 64 word"]
    have "word_of_nat (size (all_held s)) =
        word_of_nat (size (all_held (cpu_put cpu cache q s))) + (if r = None then 0 else word_of_nat sz :: 64 word)"
      by (cases r) simp_all
    then have "counter_ok s \<longrightarrow> counter_ok (?done r cache q)"
      using assms(2) counter_sub [of cpu "fa_total_free s" sz] by (auto simp: counter_ok_def)
    then show ?thesis using put by (auto simp: transfers_def)
  qed
  show ?thesis
  proof (cases "cache_alloc debug (length (fa_cpus s)) sz algn (cl_cache ?c) (cpu_view cpu s)")
    case (Return x)
    obtain r cache q where x: "x = (r, cache, q)" by (cases x)
    have "?P (r, cache) q" using st Return x by simp
    from fin [OF this] show ?thesis using Return x by (cases r) (simp_all add: FrameAllocator_alloc_def Let_def)
  next
    case Panic
    obtain r cache q where q: "?P (r, cache) q" "balance_underflows (length (fa_cpus s)) q"
      using st Panic by (auto simp: settles_def)
    have "FrameAllocator_alloc debug cpu sz algn s = Panic" using Panic by (simp add: FrameAllocator_alloc_def)
    moreover have "fa_cpus (?done r cache q) ! cpu = \<lparr>cl_cache = cache, cl_pool = pl_local q\<rparr>" "fa_global (?done r cache q) = pl_global q"
      using assms(2) by (simp_all add: cpu_put_def)
    ultimately show ?thesis using fin [OF q(1)] q(2) by auto
  qed
qed

text \<open>Memory that can be handed in: page-aligned, not held by the allocator, its frames unused.\<close>

definition returnable :: "nat \<times> nat \<Rightarrow> FrameAllocator \<Rightarrow> bool" where
  "returnable seg s \<longleftrightarrow> seg_ok seg \<and> segment_bytes seg \<inter> set_mset (all_held s) = {} \<and>
     segment_bytes seg \<inter> fa_used s = {} \<and> segment_bytes seg \<subseteq> {..<paddr_limit}"

lemma returnable_stash:
  assumes "frames_ok s" "cpu < length (fa_cpus s)" "returnable seg s"
  shows "stash_ok (seg # cpu_segs (fa_cpus s ! cpu)) (cpu_view cpu s)"
proof -
  note v = total_view [OF assms(1,2)]
  let ?segs = "cpu_segs (fa_cpus s ! cpu)"
  have h: "held (seg # ?segs) (cpu_view cpu s) = mset_set (segment_bytes seg) + held ?segs (cpu_view cpu s)"
    by (simp add: held_def)
  have "count (held (seg # ?segs) (cpu_view cpu s)) b \<le> 1" for b
  proof (cases "b \<in> segment_bytes seg")
    case True
    then have "b \<notin># held ?segs (cpu_view cpu s)" using assms(3) v(1) by (auto simp: returnable_def)
    then show ?thesis unfolding h by (simp add: not_in_iff count_mset_set')
  next
    case False
    then show ?thesis using v(2) unfolding h by (simp add: stash_ok_def)
  qed
  then show ?thesis using v(2) assms(3) by (auto simp: stash_ok_def returnable_def cpu_view_def)
qed

lemma incoming_effect:
  assumes "frames_ok s" "cpu < length (fa_cpus s)" "returnable (addr, sz) s" "caches_ok cache"
    "same_stash ((addr, sz) # cpu_segs (fa_cpus s ! cpu)) (cpu_view cpu s) (caches_segs cache) q"
  shows "transfers [(addr, sz)] [] s ((cpu_put cpu cache q s)\<lparr>fa_total_free := FastSmpCounter_add cpu sz (fa_total_free s)\<rparr>)"
proof -
  let ?t = "cpu_put cpu cache q s"
  have put: "frames_ok ?t" "all_held ?t = all_held s + mset_set (segment_bytes (addr, sz))"
    "\<And>b. b \<notin># all_held s \<Longrightarrow> b \<notin> segment_bytes (addr, sz) \<Longrightarrow> b \<in> pl_used q \<longleftrightarrow> b \<in> fa_used s"
    using cpu_put_ok [OF assms(1,2), of "[(addr, sz)]" "[]" cache q] assms(3-5) by (simp_all add: returnable_def)
  have "size (all_held ?t) = size (all_held s) + sz" unfolding put(2) by (simp add: segment_bytes_def)
  then have "counter_ok s \<longrightarrow> counter_ok (?t\<lparr>fa_total_free := FastSmpCounter_add cpu sz (fa_total_free s)\<rparr>)"
    using assms(2) counter_add [of cpu "fa_total_free s" sz] by (simp add: counter_ok_def)
  then show ?thesis using put by (simp add: transfers_def)
qed

lemma FrameAllocator_dealloc_settles:
  assumes "frames_ok s" "cpu < length (fa_cpus s)" "returnable (addr, sz) s"
  shows "case FrameAllocator_dealloc debug cpu addr sz s of
      Return t \<Rightarrow> transfers [(addr, sz)] [] s t
    | Panic \<Rightarrow> \<exists>t cache q. transfers [(addr, sz)] [] s t \<and>
        fa_cpus t ! cpu = \<lparr>cl_cache = cache, cl_pool = pl_local q\<rparr> \<and> fa_global t = pl_global q \<and>
        balance_underflows (length (fa_cpus s)) q"
proof -
  let ?c = "fa_cpus s ! cpu"
  have c: "caches_ok (cl_cache ?c)" using assms(1,2) by (simp add: frames_ok_def cpu_ok_def)
  have st: "settles (length (fa_cpus s)) (\<lambda>cache q. caches_ok cache \<and>
      same_stash ((addr, sz) # cpu_segs ?c) (cpu_view cpu s) (caches_segs cache) q)
    (cache_dealloc debug (length (fa_cpus s)) addr sz (cl_cache ?c) (cpu_view cpu s))"
    using cache_dealloc_settles [OF _ c] returnable_stash [OF assms] by (simp add: cpu_segs_def)
  show ?thesis
  proof (cases "cache_dealloc debug (length (fa_cpus s)) addr sz (cl_cache ?c) (cpu_view cpu s)")
    case (Return x)
    then show ?thesis using st incoming_effect [OF assms]
      by (cases x) (simp add: FrameAllocator_dealloc_def Let_def)
  next
    case Panic
    obtain cache q where q: "caches_ok cache" "balance_underflows (length (fa_cpus s)) q"
      "same_stash ((addr, sz) # cpu_segs ?c) (cpu_view cpu s) (caches_segs cache) q"
      using st Panic by (auto simp: settles_def)
    have "FrameAllocator_dealloc debug cpu addr sz s = Panic" using Panic by (simp add: FrameAllocator_dealloc_def Let_def)
    moreover have "fa_cpus (cpu_put cpu cache q s) ! cpu = \<lparr>cl_cache = cache, cl_pool = pl_local q\<rparr>"
      "fa_global (cpu_put cpu cache q s) = pl_global q"
      using assms(2) by (simp_all add: cpu_put_def)
    ultimately show ?thesis using incoming_effect [OF assms q(1,3)] q(2) by fastforce
  qed
qed

lemma FrameAllocator_add_free_memory_correct:
  assumes "frames_ok s" "cpu < length (fa_cpus s)" "returnable (addr, sz) s"
  shows "\<exists>t. FrameAllocator_add_free_memory debug cpu addr sz s = Return t \<and> transfers [(addr, sz)] [] s t"
proof -
  let ?c = "fa_cpus s ! cpu"
  have st: "stash_ok ([(addr, sz)] @ cpu_segs ?c) (cpu_view cpu s)" using returnable_stash [OF assms] by simp
  have seg: "PAGE_SIZE dvd addr" "PAGE_SIZE dvd sz" "sz < size_of_order MAX_BUDDY_ORDER"
    using assms(3) by (simp_all add: returnable_def seg_ok_def)
  obtain q where q: "pools_add_free_memory debug addr sz (cpu_view cpu s) = Return q" "pools_ok q"
    "added {addr..<addr + sz} (pools_pair (cpu_view cpu s)) (pools_pair q)"
    using pools_add_free_memory_correct [OF stash_pools_ok [OF st] seg, of debug] stash_segments_ok(2) [OF st]
    by (auto simp: segment_bytes_def)
  have "same_stash ([(addr, sz)] @ cpu_segs ?c) (cpu_view cpu s) (cpu_segs ?c) q"
    by (rule held_added [OF st _ q(2)]) (use q(3) in \<open>simp add: segment_bytes_def\<close>)
  moreover have "caches_ok (cl_cache ?c)" using assms(1,2) by (simp add: frames_ok_def cpu_ok_def)
  ultimately have "transfers [(addr, sz)] [] s
      ((cpu_put cpu (cl_cache ?c) q s)\<lparr>fa_total_free := FastSmpCounter_add cpu sz (fa_total_free s)\<rparr>)"
    using incoming_effect [OF assms] by (simp add: cpu_segs_def)
  then show ?thesis using q(1) by (simp add: FrameAllocator_add_free_memory_def Let_def)
qed

end
