(* ===== verification/Frame_Properties.thy ===== *)
theory Frame_Properties
  imports Frame_Allocator "HOL-Library.Code_Target_Nat"
begin

text \<open>
  The frame allocator as a system of operations by any CPU in any order, and its properties. A state
  carries, beside the allocator, the bytes its clients own and all bytes ever handed to it. Clients
  use the metadata of the frames they own as they like and return frames they own once these are
  unused again, the contract of \<open>GlobalFrameAllocator\<close>.

  An operation is one step: no other CPU touches the cache and the pool of its CPU, and it holds the lock of the
  global pool from its first use to its end. The snapshot of the size of the global pool is loaded without
  the lock, so an operation can see a value that other CPUs have since replaced; the step \<open>stale\<close> sets the snapshot to
  any value, which covers these. The counter of free memory is exact between operations here; how it reads while
  operations run is the subject of \<open>Smp_Counter\<close>.
\<close>

record FrameSystem =
  fs_alloc :: FrameAllocator
  fs_owned :: "nat set"
  fs_managed :: "nat set"

definition layout_ok :: "nat \<Rightarrow> bool" where
  "layout_ok sz \<longleftrightarrow> PAGE_SIZE dvd sz \<and> 0 < sz \<and> sz < size_of_order MAX_BUDDY_ORDER"

inductive frame_step :: "bool \<Rightarrow> FrameSystem \<Rightarrow> FrameSystem \<Rightarrow> bool" for debug where
  add: "cpu < length (fa_cpus (fs_alloc s)) \<Longrightarrow> seg_ok (addr, sz) \<Longrightarrow> {addr..<addr + sz} \<subseteq> {..<paddr_limit} \<Longrightarrow>
    {addr..<addr + sz} \<inter> fs_managed s = {} \<Longrightarrow> {addr..<addr + sz} \<inter> fa_used (fs_alloc s) = {} \<Longrightarrow>
    FrameAllocator_add_free_memory debug cpu addr sz (fs_alloc s) = Return t \<Longrightarrow>
    frame_step debug s (s\<lparr>fs_alloc := t, fs_managed := fs_managed s \<union> {addr..<addr + sz}\<rparr>)"
| alloc: "cpu < length (fa_cpus (fs_alloc s)) \<Longrightarrow> layout_ok sz \<Longrightarrow>
    FrameAllocator_alloc debug cpu sz algn (fs_alloc s) = Return (Some addr, t) \<Longrightarrow>
    frame_step debug s (s\<lparr>fs_alloc := t, fs_owned := fs_owned s \<union> {addr..<addr + sz}\<rparr>)"
| alloc_none: "cpu < length (fa_cpus (fs_alloc s)) \<Longrightarrow> layout_ok sz \<Longrightarrow>
    FrameAllocator_alloc debug cpu sz algn (fs_alloc s) = Return (None, t) \<Longrightarrow>
    frame_step debug s (s\<lparr>fs_alloc := t\<rparr>)"
| dealloc: "cpu < length (fa_cpus (fs_alloc s)) \<Longrightarrow> seg_ok (addr, sz) \<Longrightarrow> {addr..<addr + sz} \<subseteq> fs_owned s \<Longrightarrow>
    {addr..<addr + sz} \<inter> fa_used (fs_alloc s) = {} \<Longrightarrow>
    FrameAllocator_dealloc debug cpu addr sz (fs_alloc s) = Return t \<Longrightarrow>
    frame_step debug s (s\<lparr>fs_alloc := t, fs_owned := fs_owned s - {addr..<addr + sz}\<rparr>)"
| use: "(\<And>b. b \<in> fs_managed s \<Longrightarrow> b \<notin> fs_owned s \<Longrightarrow> b \<in> used \<longleftrightarrow> b \<in> fa_used (fs_alloc s)) \<Longrightarrow>
    frame_step debug s (s\<lparr>fs_alloc := (fs_alloc s)\<lparr>fa_used := used\<rparr>\<rparr>)"
| stale: "snapshot < usize_limit \<Longrightarrow> frame_step debug s (s\<lparr>fs_alloc := (fs_alloc s)\<lparr>fa_global_size := snapshot\<rparr>\<rparr>)"

definition frame_init :: "FrameSystem \<Rightarrow> bool" where
  "frame_init s \<longleftrightarrow> (\<exists>num_cpus used. 0 < num_cpus \<and>
     s = \<lparr>fs_alloc = FrameAllocator_new num_cpus used, fs_owned = {}, fs_managed = {}\<rparr>)"

definition system_ok :: "FrameSystem \<Rightarrow> bool" where
  "system_ok s \<longleftrightarrow> frames_ok (fs_alloc s) \<and> counter_ok (fs_alloc s) \<and> 0 < length (fa_cpus (fs_alloc s)) \<and>
     finite (fs_owned s) \<and> finite (fs_managed s) \<and> fs_managed s \<subseteq> {..<paddr_limit} \<and>
     all_held (fs_alloc s) + mset_set (fs_owned s) = mset_set (fs_managed s)"

lemma system_sets:
  assumes "system_ok s"
  shows "set_mset (all_held (fs_alloc s)) = fs_managed s - fs_owned s" "fs_owned s \<subseteq> fs_managed s"
proof -
  have eq: "all_held (fs_alloc s) + mset_set (fs_owned s) = mset_set (fs_managed s)"
    and fin: "finite (fs_owned s)" "finite (fs_managed s)" using assms by (simp_all add: system_ok_def)
  have un: "set_mset (all_held (fs_alloc s)) \<union> fs_owned s = fs_managed s"
    using arg_cong [OF eq, of set_mset] fin by simp
  then show "fs_owned s \<subseteq> fs_managed s" by blast
  have "\<forall>b. count (all_held (fs_alloc s) + mset_set (fs_owned s)) b \<le> Suc 0" unfolding eq by (simp add: count_mset_set')
  then have "set_mset (all_held (fs_alloc s)) \<inter> fs_owned s = {}" using count_le_1_disjoint fin(1) by fastforce
  then show "set_mset (all_held (fs_alloc s)) = fs_managed s - fs_owned s" using un by blast
qed

lemma frame_init_ok: "frame_init s \<Longrightarrow> system_ok s"
proof -
  assume "frame_init s"
  then obtain n used where s: "0 < n" "s = \<lparr>fs_alloc = FrameAllocator_new n used, fs_owned = {}, fs_managed = {}\<rparr>"
    by (auto simp: frame_init_def)
  let ?c = "\<lparr>cl_cache = CacheOfSizes_new, cl_pool = BuddySet_new_empty MAX_LOCAL_BUDDY_ORDER\<rparr>"
  have c: "cpu_mset ?c = {#}" "cpu_ok used ?c" by (simp_all add: cpu_mset_def cpu_segs_def cpu_ok_def)
  have "sum_list (replicate n ({#} :: nat multiset)) = {#}" by (induction n) simp_all
  with c have "all_held (FrameAllocator_new n used) = {#}" by (simp add: all_held_def FrameAllocator_new_def)
  then show ?thesis
    using s c by (simp add: system_ok_def frames_ok_def counter_ok_def FrameAllocator_new_def sum_list_replicate)
qed

text \<open>The steps that hand memory in and out, by their effect.\<close>

lemma transfers_out:
  assumes "system_ok s" "transfers [] [(addr, sz)] (fs_alloc s) t"
  shows "system_ok (s\<lparr>fs_alloc := t, fs_owned := fs_owned s \<union> {addr..<addr + sz}\<rparr>)"
    "{addr..<addr + sz} \<subseteq> fs_managed s - fs_owned s" "{addr..<addr + sz} \<inter> fa_used t = {}"
proof -
  let ?R = "{addr..<addr + sz}"
  have t: "frames_ok t" "all_held t + mset_set ?R = all_held (fs_alloc s)" "length (fa_cpus t) = length (fa_cpus (fs_alloc s))"
    "counter_ok t" "?R \<inter> fa_used t = {}"
    using assms by (simp_all add: transfers_def segment_bytes_def system_ok_def)
  have "?R \<subseteq> set_mset (all_held (fs_alloc s))" unfolding t(2) [symmetric] by auto
  then show sub: "?R \<subseteq> fs_managed s - fs_owned s" using system_sets [OF assms(1)] by simp
  have "mset_set (fs_owned s \<union> ?R) = mset_set (fs_owned s) + mset_set ?R"
    by (rule mset_set_Union) (use sub assms(1) in \<open>auto simp: system_ok_def\<close>)
  then have "all_held t + mset_set (fs_owned s \<union> ?R) = (all_held t + mset_set ?R) + mset_set (fs_owned s)"
    by simp
  then have "all_held t + mset_set (fs_owned s \<union> ?R) = mset_set (fs_managed s)"
    unfolding t(2) using assms(1) by (simp add: system_ok_def)
  then show "system_ok (s\<lparr>fs_alloc := t, fs_owned := fs_owned s \<union> ?R\<rparr>)"
    using t assms(1) by (simp add: system_ok_def)
  show "?R \<inter> fa_used t = {}" using t(5) .
qed

lemma transfers_in:
  assumes "transfers [(addr, sz)] [] s t"
  shows "frames_ok t" "all_held t = all_held s + mset_set {addr..<addr + sz}" "length (fa_cpus t) = length (fa_cpus s)"
    "counter_ok s \<Longrightarrow> counter_ok t"
  using assms by (simp_all add: transfers_def segment_bytes_def)

lemma dealloc_ok:
  assumes "system_ok s" "transfers [(addr, sz)] [] (fs_alloc s) t" "{addr..<addr + sz} \<subseteq> fs_owned s"
  shows "system_ok (s\<lparr>fs_alloc := t, fs_owned := fs_owned s - {addr..<addr + sz}\<rparr>)"
proof -
  let ?R = "{addr..<addr + sz}"
  have "fs_owned s = ?R \<union> (fs_owned s - ?R)" using assms(3) by blast
  then have "mset_set (fs_owned s) = mset_set ?R + mset_set (fs_owned s - ?R)"
    using mset_set_Union [of ?R "fs_owned s - ?R"] assms(1) by (simp add: system_ok_def)
  then have "all_held t + mset_set (fs_owned s - ?R) = mset_set (fs_managed s)"
    using assms(1) transfers_in(2) [OF assms(2)] by (simp add: system_ok_def add.assoc)
  then show ?thesis using assms(1) transfers_in [OF assms(2)] by (simp add: system_ok_def)
qed

lemma add_ok:
  assumes "system_ok s" "transfers [(addr, sz)] [] (fs_alloc s) t" "{addr..<addr + sz} \<inter> fs_managed s = {}"
    "{addr..<addr + sz} \<subseteq> {..<paddr_limit}"
  shows "system_ok (s\<lparr>fs_alloc := t, fs_managed := fs_managed s \<union> {addr..<addr + sz}\<rparr>)"
proof -
  let ?R = "{addr..<addr + sz}"
  have "mset_set (fs_managed s \<union> ?R) = mset_set (fs_managed s) + mset_set ?R"
    by (rule mset_set_Union) (use assms(1,3) in \<open>auto simp: system_ok_def\<close>)
  moreover have "all_held t + mset_set (fs_owned s) = (all_held (fs_alloc s) + mset_set (fs_owned s)) + mset_set ?R"
    unfolding transfers_in(2) [OF assms(2)] by simp
  ultimately have "all_held t + mset_set (fs_owned s) = mset_set (fs_managed s \<union> ?R)"
    using assms(1) by (simp add: system_ok_def)
  then show ?thesis using assms(1,4) transfers_in [OF assms(2)] by (simp add: system_ok_def)
qed

lemma use_ok:
  assumes "system_ok s" "\<And>b. b \<in> fs_managed s \<Longrightarrow> b \<notin> fs_owned s \<Longrightarrow> b \<in> used \<longleftrightarrow> b \<in> fa_used (fs_alloc s)"
  shows "system_ok (s\<lparr>fs_alloc := (fs_alloc s)\<lparr>fa_used := used\<rparr>\<rparr>)"
proof -
  let ?a = "fs_alloc s" and ?b = "(fs_alloc s)\<lparr>fa_used := used\<rparr>"
  have ok: "frames_ok ?a" using assms(1) by (simp add: system_ok_def)
  have same: "b \<in> used \<longleftrightarrow> b \<in> fa_used ?a" if "b \<in># all_held ?a" for b
    using assms(2) that system_sets(1) [OF assms(1)] by simp
  have "cpu_ok used c" if c: "c \<in> set (fa_cpus ?a)" for c
  proof -
    have cok: "cpu_ok (fa_used ?a) c" using ok c by (simp add: frames_ok_def)
    obtain ps qs where "fa_cpus ?a = ps @ c # qs" using split_list [OF c] by blast
    then have sub: "set_mset (cpu_mset c) \<subseteq> set_mset (all_held ?a)" by (auto simp: all_held_def)
    have "finite (free_bytes (cl_pool c))" using cok pool_finite [of "fa_used ?a"] by (simp add: cpu_ok_def)
    then have "b \<in> used \<longleftrightarrow> b \<in> fa_used ?a" if "b \<in> segments_bytes (cpu_segs c) \<union> free_bytes (cl_pool c)" for b
      using same [of b] sub that by (auto simp: cpu_mset_def)
    then have "pool_ok used (cl_pool c)" "segments_bytes (cpu_segs c) \<inter> used = {}"
      using cok pool_ok_frame [of "fa_used ?a" "cl_pool c" used] by (auto simp: cpu_ok_def)
    then show ?thesis using cok by (simp add: cpu_ok_def)
  qed
  moreover have "pool_ok used (fa_global ?a)"
  proof (rule pool_ok_frame [of "fa_used ?a"])
    show g: "pool_ok (fa_used ?a) (fa_global ?a)" using ok by (simp add: frames_ok_def)
    show "b \<in> used \<longleftrightarrow> b \<in> fa_used ?a" if "b \<in> free_bytes (fa_global ?a)" for b
      using same [of b] that pool_finite [OF g] by (simp add: all_held_def)
  qed
  moreover have "all_held ?b = all_held ?a" by (simp add: all_held_def)
  ultimately have "frames_ok ?b" using ok by (simp add: frames_ok_def)
  then show ?thesis using assms(1) \<open>all_held ?b = all_held ?a\<close> by (simp add: system_ok_def counter_ok_def)
qed

lemma system_returnable:
  assumes "system_ok s" "seg_ok (addr, sz)" "{addr..<addr + sz} \<inter> fa_used (fs_alloc s) = {}"
    "{addr..<addr + sz} \<subseteq> {..<paddr_limit}" "{addr..<addr + sz} \<inter> (fs_managed s - fs_owned s) = {}"
  shows "returnable (addr, sz) (fs_alloc s)"
  using assms by (simp add: returnable_def system_sets(1) segment_bytes_def)

lemma frame_step_ok:
  assumes "system_ok s" "frame_step debug s s'"
  shows "system_ok s'"
  using assms(2)
proof cases
  case (add cpu addr sz t)
  have "returnable (addr, sz) (fs_alloc s)" by (rule system_returnable) (use assms(1) add in auto)
  then have "transfers [(addr, sz)] [] (fs_alloc s) t"
    using FrameAllocator_add_free_memory_correct [of "fs_alloc s" cpu addr sz debug] assms(1) add by (auto simp: system_ok_def)
  then show ?thesis using add_ok [OF assms(1)] add by simp
next
  case (alloc cpu sz algn addr t)
  then have "transfers [] [(addr, sz)] (fs_alloc s) t"
    using FrameAllocator_alloc_settles [of "fs_alloc s" cpu sz debug algn] assms(1) by (simp add: system_ok_def layout_ok_def)
  then show ?thesis using transfers_out [OF assms(1)] alloc(1) by simp
next
  case (alloc_none cpu sz algn t)
  then have "transfers [] [] (fs_alloc s) t"
    using FrameAllocator_alloc_settles [of "fs_alloc s" cpu sz debug algn] assms(1) by (simp add: system_ok_def layout_ok_def)
  then show ?thesis using assms(1) alloc_none(1) by (simp add: transfers_def system_ok_def)
next
  case (dealloc cpu addr sz t)
  have "{addr..<addr + sz} \<subseteq> fs_managed s" using dealloc(4) system_sets(2) [OF assms(1)] by blast
  then have "returnable (addr, sz) (fs_alloc s)"
    by (intro system_returnable) (use assms(1) dealloc in \<open>auto simp: system_ok_def\<close>)
  then have "transfers [(addr, sz)] [] (fs_alloc s) t"
    using FrameAllocator_dealloc_settles [of "fs_alloc s" cpu addr sz debug] assms(1) dealloc by (simp add: system_ok_def)
  then show ?thesis using dealloc_ok [OF assms(1)] dealloc by simp
next
  case (use used)
  then show ?thesis using use_ok [OF assms(1)] by simp
next
  case (stale snapshot)
  then show ?thesis using assms(1) by (simp add: system_ok_def frames_ok_def counter_ok_def all_held_def)
qed

interpretation frame_allocator: step_system frame_init "frame_step debug" system_ok for debug
  by unfold_locales (simp_all add: frame_init_ok frame_step_ok)

section \<open>Properties of the buddy sets\<close>

text \<open>C30. \<open>split_to_chunks\<close> ends on every page-aligned range. When the range lies below the end of the address space it
  is cut into consecutive chunks: each is aligned to its own size, they are disjoint and together they are the range.
  A non-empty range that reaches the end of the address space overflows the address of the iterator, which traps.\<close>

theorem split_to_chunks_partitions:
  assumes "PAGE_SIZE dvd addr" "PAGE_SIZE dvd sz" "sz < usize_limit"
  shows "case split_to_chunks addr sz of
      Return cs \<Rightarrow> (sz = 0 \<or> addr + sz < usize_limit) \<and>
        (\<Union>c \<in> set cs. block (fst c) (snd c)) = {addr..<addr + sz} \<and>
        sorted_wrt (\<lambda>c d. block (fst c) (snd c) \<inter> block (fst d) (snd d) = {}) cs \<and>
        (\<forall>c \<in> set cs. aligned (fst c) (snd c))
    | Panic \<Rightarrow> 0 < sz \<and> usize_limit \<le> addr + sz"
proof (cases "0 < sz \<and> usize_limit \<le> addr + sz")
  case True
  then show ?thesis using split_chunks_overflows [OF assms(1,2) _ assms(3)] assms(1,2) by (simp add: split_to_chunks_def)
next
  case False
  then obtain cs where cs: "split_chunks addr sz = Return cs" "tiles addr sz cs"
    using split_chunks_tiles [OF assms(1,2)] by fastforce
  have "chunk_bytes c = block (fst c) (snd c)" for c by (simp add: chunk_bytes_def block_def)
  then show ?thesis
    using cs tiles_union [OF cs(2)] tiles_disjoint [OF cs(2)] tiles_aligned [OF cs(2)] assms(1,2) False
    by (auto simp: split_to_chunks_def aligned_def)
qed

theorem split_to_chunks_partitions_witness:
  "split_to_chunks 86016 12288 = Return [(86016, 0), (90112, 1)] \<and>
   (\<Union>c \<in> set [(86016, 0), (90112, 1)]. block (fst c) (snd c)) = {86016..<98304} \<and>
   split_to_chunks (2 ^ 64 - 4096) 8192 = Panic"
proof (intro conjI)
  show run: "split_to_chunks 86016 12288 = Return [(86016, 0), (90112, 1)]" by code_simp
  show "(\<Union>c \<in> set [(86016, 0), (90112, 1)]. block (fst c) (snd c)) = {86016..<98304}"
    using split_to_chunks_partitions [of 86016 12288] unfolding run by simp
  show "split_to_chunks (2 ^ 64 - 4096) 8192 = Panic" by code_simp
qed

text \<open>C15. Inserting an aligned chunk of unused memory that the set does not hold never panics, adds
  exactly the chunk's bytes, and keeps the invariant of the set: chunks are disjoint, sorted by order,
  coalesced with their buddies, and counted by the total size.\<close>

theorem insert_chunk_keeps_buddies:
  assumes "pool_ok used self" "aligned addr order" "order < length (bs_lists self)"
    "block addr order \<inter> (free_bytes self \<union> used) = {}" "block addr order \<subseteq> {..<paddr_limit}"
  shows "case BuddySet_insert_chunk debug addr order self used of
      Return (self', used') \<Rightarrow> pool_ok used' self' \<and> free_bytes self' = free_bytes self \<union> block addr order
    | Panic \<Rightarrow> False"
proof -
  have d: "block addr order \<inter> free_bytes self = {}" "block addr order \<inter> used = {}" using assms(4) by blast+
  show ?thesis by (rule insert_chunk_correct [OF assms(1-3) d assms(5), of debug]) simp
qed

theorem insert_chunk_keeps_buddies_witness:
  "case BuddySet_insert_chunk True 8192 1 (BuddySet_new_empty 5) {} of
     Return (self', used') \<Rightarrow> pool_ok used' self' \<and> free_bytes self' = free_bytes (BuddySet_new_empty 5) \<union> block 8192 1
   | Panic \<Rightarrow> False"
proof -
  have "block 8192 1 \<subseteq> {..<paddr_limit}" by (rule block_below) (simp add: size_of_order_def paddr_limit_def)
  then show ?thesis
    using insert_chunk_keeps_buddies [of "{}" "BuddySet_new_empty 5" 8192 1 True]
    by (simp add: aligned_def size_of_order_def)
qed

text \<open>C8. Allocation is complete: it returns an aligned free block of the order, removes exactly its
  bytes and leaves its frames unused, and it returns \<open>None\<close> only when no aligned block of the order is
  free, however the free memory is split. It never panics.\<close>

theorem alloc_chunk_complete:
  assumes "pool_ok used self" "order < length (bs_lists self)"
  shows "case BuddySet_alloc_chunk debug order self used of
      Return (None, self', used') \<Rightarrow> self' = self \<and> used' = used \<and>
        (\<forall>a. aligned a order \<longrightarrow> \<not> block a order \<subseteq> free_bytes self)
    | Return (Some a, self', used') \<Rightarrow> aligned a order \<and> block a order \<subseteq> free_bytes self \<and> pool_ok used' self' \<and>
        free_bytes self' = free_bytes self - block a order \<and> block a order \<inter> used' = {}
    | Panic \<Rightarrow> False"
proof (cases "\<forall>c \<in> chunks (bs_lists self). fc_order c < order")
  case True
  then show ?thesis using alloc_chunk_None [OF assms(1)] assms(2) by simp
next
  case False
  then obtain c where "c \<in> chunks (bs_lists self)" "order \<le> fc_order c" by (meson not_less)
  then show ?thesis by (rule alloc_chunk_Some [OF assms(1), where debug = debug]) simp
qed

theorem alloc_chunk_complete_witness:
  "\<exists>self used a self' used'. BuddySet_insert_chunk True 65536 4 (BuddySet_new_empty 5) {} = Return (self, used) \<and>
     BuddySet_alloc_chunk True 1 self used = Return (Some a, self', used') \<and> block a 1 \<inter> free_bytes self' = {}"
proof -
  have pre: "pool_ok {} (BuddySet_new_empty 5)" "aligned 65536 4" "4 < length (bs_lists (BuddySet_new_empty 5))"
    "block 65536 4 \<inter> free_bytes (BuddySet_new_empty 5) = {}" "block 65536 4 \<inter> {} = {}" "block 65536 4 \<subseteq> {..<paddr_limit}"
    by (simp_all add: aligned_def size_of_order_def) (rule block_below, simp add: size_of_order_def paddr_limit_def)
  obtain self used where ins: "BuddySet_insert_chunk True 65536 4 (BuddySet_new_empty 5) {} = Return (self, used)"
    "pool_ok used self" "free_bytes self = block 65536 4" "length (bs_lists self) = 5"
    by (rule insert_chunk_correct [OF pre, of True]) simp
  have "aligned 65536 1" "block 65536 1 \<subseteq> free_bytes self"
    unfolding ins(3) by (auto simp: aligned_def size_of_order_def block_def)
  then show ?thesis
    using alloc_chunk_complete [OF ins(2), of 1 True] ins(1,4)
    by (cases "BuddySet_alloc_chunk True 1 self used") (auto split: option.splits)
qed

section \<open>Properties of the pools\<close>

text \<open>C20. \<open>pools::alloc\<close> answers a request of \<open>sz\<close> bytes aligned to \<open>2 ^ k\<close> pages. Up to the call of \<open>balance\<close> it
  never panics; it takes exactly the answered range out of the free memory of the local and the global set, at an
  aligned address, or finds no block of the needed order in the sets it asks. It then panics exactly when the sets
  it has left, \<open>q\<close>, make \<open>balance\<close> compute the order of less than a page; otherwise it returns that answer, and
  \<open>balance\<close> has only moved memory between the sets.\<close>

theorem pools_alloc_exact:
  assumes "pools_ok p" "PAGE_SIZE dvd sz" "0 < sz"
  shows "\<exists>r q. pools_take debug sz (size_of_order k) p = Return (r, q) \<and> pools_ok q \<and>
    (case r of
       None \<Rightarrow> pair_free (pools_pair q) = pair_free (pools_pair p) \<and> no_chunk (alloc_order sz (size_of_order k)) p
     | Some a \<Rightarrow> size_of_order k dvd a \<and> {a..<a + sz} \<subseteq> pair_free (pools_pair p) \<and>
         pair_free (pools_pair q) = pair_free (pools_pair p) - {a..<a + sz}) \<and>
    (if balance_underflows num_cpus q then pools_alloc debug num_cpus sz (size_of_order k) p = Panic
     else \<exists>t. pools_alloc debug num_cpus sz (size_of_order k) p = Return (r, t) \<and> pools_ok t \<and>
       pair_free (pools_pair t) = pair_free (pools_pair q))"
proof -
  obtain r q where take: "pools_take debug sz (size_of_order k) p = Return (r, q)" and rq: "pools_ok q"
    "case r of None \<Rightarrow> pools_pair q = pools_pair p \<and> no_chunk (alloc_order sz (size_of_order k)) p
     | Some a \<Rightarrow> aligned a (alloc_order sz (size_of_order k)) \<and> taken {a..<a + sz} (pools_pair p) (pools_pair q)"
    "if balance_underflows num_cpus q then pools_alloc debug num_cpus sz (size_of_order k) p = Panic
     else \<exists>t. pools_alloc debug num_cpus sz (size_of_order k) p = Return (r, t) \<and> pools_ok t \<and> added {} (pools_pair q) (pools_pair t)"
    using pools_alloc_outcome [OF assms, of debug "size_of_order k" num_cpus] by blast
  have le: "k \<le> alloc_order sz (size_of_order k)" by (simp add: alloc_order_def greater_order_of_power)
  have "case r of
       None \<Rightarrow> pair_free (pools_pair q) = pair_free (pools_pair p) \<and> no_chunk (alloc_order sz (size_of_order k)) p
     | Some a \<Rightarrow> size_of_order k dvd a \<and> {a..<a + sz} \<subseteq> pair_free (pools_pair p) \<and>
         pair_free (pools_pair q) = pair_free (pools_pair p) - {a..<a + sz}"
    using rq(2) aligned_le [OF _ le] by (auto simp: taken_def aligned_def split: option.splits)
  moreover have "if balance_underflows num_cpus q then pools_alloc debug num_cpus sz (size_of_order k) p = Panic
     else \<exists>t. pools_alloc debug num_cpus sz (size_of_order k) p = Return (r, t) \<and> pools_ok t \<and>
       pair_free (pools_pair t) = pair_free (pools_pair q)"
    using rq(3) by (auto simp: added_def split: if_splits)
  ultimately show ?thesis using take rq(1) by blast
qed

definition fresh_pools :: Pools where
  "fresh_pools = \<lparr>pl_local = BuddySet_new_empty MAX_LOCAL_BUDDY_ORDER, pl_global = BuddySet_new_empty MAX_BUDDY_ORDER,
     pl_global_size = 0, pl_locked = False, pl_used = {}\<rparr>"

lemma fresh_pools_ok: "pools_ok fresh_pools" "pair_free (pools_pair fresh_pools) = {}"
  by (simp_all add: pools_ok_def pools_pair_def fresh_pools_def)

text \<open>Pools with 16 pages.\<close>

definition sample_pools :: Pools where
  "sample_pools = (case pools_add_free_memory True 65536 65536 fresh_pools of Return p \<Rightarrow> p | Panic \<Rightarrow> fresh_pools)"

lemma sample_pools_ok: "pools_ok sample_pools" "pair_free (pools_pair sample_pools) = {65536..<131072}"
proof -
  have "seg_ok (65536, 65536)" by (simp add: seg_ok_def size_of_order_def)
  moreover have "fresh {65536..<65536 + 65536} (pools_pair fresh_pools)"
    unfolding fresh_def fresh_pools_ok by (simp add: pools_pair_def fresh_pools_def paddr_limit_def) auto
  ultimately obtain q where "pools_add_free_memory True 65536 65536 fresh_pools = Return q" "pools_ok q"
    "added {65536..<131072} (pools_pair fresh_pools) (pools_pair q)"
    using pools_add_free_memory_correct [OF fresh_pools_ok(1), of 65536 65536 True] by (auto simp: seg_ok_def)
  then show "pools_ok sample_pools" "pair_free (pools_pair sample_pools) = {65536..<131072}"
    using fresh_pools_ok(2) by (simp_all add: sample_pools_def added_def)
qed

theorem pools_alloc_exact_witness:
  "\<exists>t. pools_alloc True 1 20480 (size_of_order 0) sample_pools = Return (Some 65536, t) \<and> pools_ok t \<and>
     pair_free (pools_pair t) = {86016..<131072}"
proof -
  have run: "case pools_alloc True 1 20480 (size_of_order 0) sample_pools of Return (r, t) \<Rightarrow> r = Some 65536 | Panic \<Rightarrow> False"
    by code_simp
  have "PAGE_SIZE dvd 20480" "0 < (20480 :: nat)" by simp_all
  from pools_alloc_exact [OF sample_pools_ok(1) this, of True 0 1] obtain r q where
    q: "case r of
       None \<Rightarrow> pair_free (pools_pair q) = pair_free (pools_pair sample_pools) \<and> no_chunk (alloc_order 20480 (size_of_order 0)) sample_pools
     | Some a \<Rightarrow> size_of_order 0 dvd a \<and> {a..<a + 20480} \<subseteq> pair_free (pools_pair sample_pools) \<and>
         pair_free (pools_pair q) = pair_free (pools_pair sample_pools) - {a..<a + 20480}"
    "if balance_underflows 1 q then pools_alloc True 1 20480 (size_of_order 0) sample_pools = Panic
     else \<exists>t. pools_alloc True 1 20480 (size_of_order 0) sample_pools = Return (r, t) \<and> pools_ok t \<and>
       pair_free (pools_pair t) = pair_free (pools_pair q)"
    by blast
  obtain t where t: "pools_alloc True 1 20480 (size_of_order 0) sample_pools = Return (r, t)" "pools_ok t"
    "pair_free (pools_pair t) = pair_free (pools_pair q)"
    using q(2) run by (cases "balance_underflows 1 q") auto
  then have "r = Some 65536" using run by simp
  moreover have "{65536..<131072} - {65536..<86016} = {86016..<131072 :: nat}" by auto
  ultimately show ?thesis using t q(1) sample_pools_ok(2) by simp
qed

text \<open>C29. Balancing moves memory between the two sets and nothing else, and it panics in exactly two
  cases near memory exhaustion: the local set holds one page and its expected size is positive but
  at most half a page, or it is empty and its expected size is between 8 bytes and a page.\<close>

theorem balance_panics_iff:
  assumes "pools_ok p"
  shows "(balance debug num_cpus p = Panic \<longleftrightarrow> balance_underflows num_cpus p) \<and>
    (\<forall>q. balance debug num_cpus p = Return q \<longrightarrow> pools_ok q \<and> pair_free (pools_pair q) = pair_free (pools_pair p))"
proof (cases "balance_underflows num_cpus p")
  case True
  then show ?thesis using balance_outcome [OF assms, of num_cpus debug] by simp
next
  case False
  then obtain q where "balance debug num_cpus p = Return q" "added {} (pools_pair p) (pools_pair q)"
    "pl_global_size q = pl_global_size p" using balance_outcome [OF assms, of num_cpus debug] by auto
  then show ?thesis using False pools_ok_added [OF assms] by (auto simp: added_def)
qed

text \<open>One CPU, one free page in its local set and one in the global set: the next balancing traps.\<close>

definition two_pages :: Pools where
  "two_pages = (case pools_add_free_memory True 65536 4096 fresh_pools of
     Panic \<Rightarrow> fresh_pools
   | Return p \<Rightarrow> (case local_insert_chunk True 131072 0 p of Panic \<Rightarrow> p | Return p \<Rightarrow> p))"

lemma two_pages_ok: "pools_ok two_pages"
proof -
  have "fresh {65536..<65536 + 4096} (pools_pair fresh_pools)"
    unfolding fresh_def fresh_pools_ok by (simp add: pools_pair_def fresh_pools_def paddr_limit_def) auto
  then obtain p where p: "pools_add_free_memory True 65536 4096 fresh_pools = Return p" "pools_ok p"
    "added {65536..<69632} (pools_pair fresh_pools) (pools_pair p)"
    using pools_add_free_memory_correct [OF fresh_pools_ok(1), of 65536 4096 True] by (auto simp: size_of_order_def)
  have fr: "fresh (block 131072 0) (pools_pair fresh_pools)"
    unfolding fresh_def fresh_pools_ok by (simp add: pools_pair_def fresh_pools_def paddr_limit_def block_def) auto
  have "fresh (block 131072 0) (pools_pair p)" by (rule fresh_added [OF fr p(3)]) (simp add: block_def)
  then obtain q where q: "local_insert_chunk True 131072 0 p = Return q" "added (block 131072 0) (pools_pair p) (pools_pair q)"
    using local_insert_added [of p 0 131072 True] p(2) by (auto simp: pools_ok_def aligned_def)
  then have "pools_ok q" using pools_ok_added [OF p(2) q(2)] put_keeps_snapshot(2) by blast
  then show ?thesis using p(1) q(1) by (simp add: two_pages_def)
qed

theorem balance_panics_iff_witness: "pools_ok two_pages \<and> balance_underflows 1 two_pages \<and> balance True 1 two_pages = Panic"
proof -
  have "balance_underflows 1 two_pages" by code_simp
  then show ?thesis using balance_panics_iff [OF two_pages_ok, of True 1] two_pages_ok by blast
qed

section \<open>Properties of the frame allocator\<close>

text \<open>C1. No frame is lost and none is held twice: whatever the CPUs allocate, free and hand in, and
  in whatever order, the memory in the local pools, the global pool and the caches of all CPUs together
  with the memory owned by the clients is exactly the memory ever handed to the allocator, each byte once.\<close>

theorem frame_memory_conserved:
  assumes "reachable_from frame_init (frame_step debug) s"
  shows "all_held (fs_alloc s) + mset_set (fs_owned s) = mset_set (fs_managed s)"
  using frame_allocator.reachable_invar [OF assms] by (simp add: system_ok_def)

text \<open>One CPU and 16 pages, of which a client takes five.\<close>

definition boot :: FrameAllocator where
  "boot = (case FrameAllocator_add_free_memory True 0 65536 65536 (FrameAllocator_new 1 {}) of
     Return s \<Rightarrow> s | Panic \<Rightarrow> FrameAllocator_new 1 {})"

definition boot_alloc :: FrameAllocator where
  "boot_alloc = (case FrameAllocator_alloc True 0 20480 4096 boot of Return (Some a, s) \<Rightarrow> s | _ \<Rightarrow> boot)"

lemma boot_runs:
  "FrameAllocator_add_free_memory True 0 65536 65536 (FrameAllocator_new 1 {}) = Return boot"
  "FrameAllocator_alloc True 0 20480 4096 boot = Return (Some 65536, boot_alloc)"
proof -
  have "case FrameAllocator_add_free_memory True 0 65536 65536 (FrameAllocator_new 1 {}) of Return s \<Rightarrow> True | Panic \<Rightarrow> False"
    by code_simp
  then show "FrameAllocator_add_free_memory True 0 65536 65536 (FrameAllocator_new 1 {}) = Return boot"
    by (simp add: boot_def split: outcome.splits)
  have "case FrameAllocator_alloc True 0 20480 4096 boot of Return (Some a, s) \<Rightarrow> a = 65536 | _ \<Rightarrow> False"
    by code_simp
  then show "FrameAllocator_alloc True 0 20480 4096 boot = Return (Some 65536, boot_alloc)"
    by (auto simp: boot_alloc_def split: outcome.splits option.splits)
qed

lemma boot_cpus: "length (fa_cpus boot) = 1"
  by code_simp

lemma boot_reachable:
  "reachable_from frame_init (frame_step True) \<lparr>fs_alloc = boot, fs_owned = {}, fs_managed = {65536..<131072}\<rparr>"
  "reachable_from frame_init (frame_step True) \<lparr>fs_alloc = boot_alloc, fs_owned = {65536..<86016}, fs_managed = {65536..<131072}\<rparr>"
proof -
  let ?s0 = "\<lparr>fs_alloc = FrameAllocator_new 1 {}, fs_owned = {}, fs_managed = {}\<rparr>"
  let ?s1 = "\<lparr>fs_alloc = boot, fs_owned = {}, fs_managed = {65536..<131072}\<rparr>"
  have cpus: "length (fa_cpus (FrameAllocator_new 1 {})) = 1" "length (fa_cpus boot) = 1"
    by (simp_all add: FrameAllocator_new_def boot_cpus)
  have "frame_init ?s0" by (auto simp: frame_init_def)
  then have r0: "reachable_from frame_init (frame_step True) ?s0" by (rule reach_init)
  have "frame_step True ?s0 (?s0\<lparr>fs_alloc := boot, fs_managed := fs_managed ?s0 \<union> {65536..<65536 + 65536}\<rparr>)"
    by (rule frame_step.add [of 0])
      (use boot_runs(1) cpus in \<open>auto simp: seg_ok_def size_of_order_def paddr_limit_def FrameAllocator_new_def\<close>)
  then have "frame_step True ?s0 ?s1" by simp
  with r0 show r1: "reachable_from frame_init (frame_step True) ?s1" by (rule reach_step)
  have "frame_step True ?s1 (?s1\<lparr>fs_alloc := boot_alloc, fs_owned := fs_owned ?s1 \<union> {65536..<65536 + 20480}\<rparr>)"
    by (rule frame_step.alloc [of 0 _ _ _ 4096])
      (use boot_runs(2) cpus in \<open>simp_all add: layout_ok_def size_of_order_def\<close>)
  then have "frame_step True ?s1 \<lparr>fs_alloc = boot_alloc, fs_owned = {65536..<86016}, fs_managed = {65536..<131072}\<rparr>" by simp
  with r1 show "reachable_from frame_init (frame_step True)
      \<lparr>fs_alloc = boot_alloc, fs_owned = {65536..<86016}, fs_managed = {65536..<131072}\<rparr>" by (rule reach_step)
qed

theorem frame_memory_conserved_witness:
  "all_held boot_alloc + mset_set {65536..<86016} = mset_set {65536..<131072}"
  using frame_memory_conserved [OF boot_reachable(2)] by simp

text \<open>C19. An allocation hands out memory that nobody owns: the answered range lies in the managed
  memory, is disjoint from everything the clients own, leaves the allocator, and its frames are unused.\<close>

theorem allocated_frames_exclusive:
  assumes "reachable_from frame_init (frame_step debug) s" "cpu < length (fa_cpus (fs_alloc s))" "layout_ok sz"
    "FrameAllocator_alloc debug cpu sz algn (fs_alloc s) = Return (Some addr, t)"
  shows "{addr..<addr + sz} \<subseteq> fs_managed s \<and> {addr..<addr + sz} \<inter> fs_owned s = {} \<and>
    {addr..<addr + sz} \<inter> set_mset (all_held t) = {} \<and> {addr..<addr + sz} \<inter> fa_used t = {}"
proof -
  have ok: "system_ok s" using frame_allocator.reachable_invar [OF assms(1)] .
  then have tr: "transfers [] [(addr, sz)] (fs_alloc s) t"
    using FrameAllocator_alloc_settles [of "fs_alloc s" cpu sz debug algn] assms(2-4) by (simp add: system_ok_def layout_ok_def)
  note out = transfers_out [OF ok tr]
  have "set_mset (all_held t) = fs_managed s - (fs_owned s \<union> {addr..<addr + sz})"
    using system_sets(1) [OF out(1)] by simp
  then show ?thesis using out by blast
qed

theorem allocated_frames_exclusive_witness:
  "FrameAllocator_alloc True 0 20480 4096 boot = Return (Some 65536, boot_alloc) \<and>
   {65536..<65536 + 20480} \<inter> set_mset (all_held boot_alloc) = {}"
  using allocated_frames_exclusive [OF boot_reachable(1), of 0 20480 4096 65536 boot_alloc] boot_runs(2)
  by (simp add: layout_ok_def size_of_order_def boot_cpus)

text \<open>Between operations the counters sum up to the size of the memory the clients do not own.\<close>

lemma free_size_between_operations:
  assumes "reachable_from frame_init (frame_step debug) s"
  shows "load_total_free_size (fs_alloc s) = (let n = card (fs_managed s - fs_owned s) in if n < 2 ^ 63 then n else 0)"
proof -
  have ok: "system_ok s" using frame_allocator.reachable_invar [OF assms] .
  have eq: "all_held (fs_alloc s) + mset_set (fs_owned s) = mset_set (fs_managed s)"
    and fin: "finite (fs_owned s)" "finite (fs_managed s)" and lim: "fs_managed s \<subseteq> {..<paddr_limit}"
    using ok by (simp_all add: system_ok_def)
  let ?n = "card (fs_managed s - fs_owned s)"
  have "size (all_held (fs_alloc s)) + card (fs_owned s) = card (fs_managed s)"
    using arg_cong [OF eq, of size] by simp
  then have n: "size (all_held (fs_alloc s)) = ?n"
    using card_Diff_subset [OF fin(1) system_sets(2) [OF ok]] by simp
  have "?n \<le> card {..<paddr_limit}" by (rule card_mono) (use lim in auto)
  then have "int ?n mod 2 ^ 64 = int ?n" by (intro mod_pos_pos_trivial) (simp_all add: paddr_limit_def)
  moreover have "sum_list (fa_total_free (fs_alloc s)) = word_of_int (int ?n)"
    using ok n by (simp add: system_ok_def counter_ok_def)
  ultimately show ?thesis using counter_get [of "fa_total_free (fs_alloc s)" "int ?n"]
    by (simp add: load_total_free_size_def Let_def)
qed

lemma pushed_segments:
  assumes "array_ok self" "cached nr self = []" "length (ca_inner self) = 6"
    "CacheArray_alloc debug num_cpus nr self p = Return (Some a, self', q)"
  shows "cached nr self' = map (\<lambda>i. (a + i * CacheArray_segment_size nr, CacheArray_segment_size nr)) [3, 2, 1]"
    "array_ok self'" "\<exists>t. pools_alloc debug num_cpus (4 * CacheArray_segment_size nr) PAGE_SIZE p = Return (Some a, t)"
proof -
  let ?s = "CacheArray_segment_size nr" and ?as = "map (\<lambda>i. a + i * CacheArray_segment_size nr) [1..<4]"
  have pop: "CacheArray_pop_front self = Return (None, self)"
    using assms(1) by (cases rule: pop_front_outcome [where nr = nr]) (use assms(2) in simp_all)
  have fits: "length (cached nr self) + length ?as \<le> length (ca_inner self)" using assms(2,3) by simp
  obtain s where push: "for_each (\<lambda>i self. and_then (CacheArray_push_front (a + i * ?s) self) (\<lambda>(_, self). Return self))
      [1..<4] self = Return s" "array_ok s" "cached nr s = rev (map (\<lambda>i. (a + i * ?s, ?s)) [1..<4])"
    using push_all_outcome [OF assms(1) fits] assms(2) by (auto simp: for_each_map comp_def)
  obtain t where t: "pools_alloc debug num_cpus (4 * ?s) PAGE_SIZE p = Return (Some a, t)" "self' = s"
    using assms(3,4) pop push(1) by (auto simp: CacheArray_alloc_def Let_def split: option.splits)
  have "[1..<4] = [1, 2, 3 :: nat]" by (simp add: upt_conv_Cons)
  then show "cached nr self' = map (\<lambda>i. (a + i * ?s, ?s)) [3, 2, 1]" "array_ok self'"
    "\<exists>t. pools_alloc debug num_cpus (4 * ?s) PAGE_SIZE p = Return (Some a, t)"
    using t push(2,3) by simp_all
qed

text \<open>C40. The cache does not respect the alignment of a request of three pages aligned to two pages.
  It asks the pools for twelve pages, answers the first three and caches the others three pages apart, so
  the next such request is answered at nine pages past an aligned address.\<close>

theorem cache_misaligns_three_frames:
  assumes "stash_ok (caches_segs cache) p" "caches_ok cache" "cached 3 (cache3 cache) = []"
    "cache_alloc debug num_cpus (3 * PAGE_SIZE) (2 * PAGE_SIZE) cache p = Return (Some a, cache', q)"
  shows "2 * PAGE_SIZE dvd a \<and> \<not> 2 * PAGE_SIZE dvd a + 9 * PAGE_SIZE \<and>
    (\<exists>cache''. cache_alloc debug num_cpus (3 * PAGE_SIZE) (2 * PAGE_SIZE) cache' q = Return (Some (a + 9 * PAGE_SIZE), cache'', q))"
proof -
  have arr: "array_ok (cache3 cache)" "length (ca_inner (cache3 cache)) = 6" using assms(2) by (simp_all add: caches_ok_def)
  have first: "cache_alloc debug num_cpus (3 * PAGE_SIZE) (2 * PAGE_SIZE) cache p =
      and_then (CacheArray_alloc debug num_cpus 3 (cache3 cache) p) (\<lambda>(r, c, p). Return (r, cache\<lparr>cache3 := c\<rparr>, p))" for cache p
    by (simp add: cache_alloc_def Let_def)
  obtain c where c: "CacheArray_alloc debug num_cpus 3 (cache3 cache) p = Return (Some a, c, q)" "cache' = cache\<lparr>cache3 := c\<rparr>"
    using assms(4) unfolding first by auto
  note pushed = pushed_segments [OF arr(1) assms(3) arr(2) c(1)]
  have sz: "CacheArray_segment_size 3 = 12288" by (simp add: CacheArray_segment_size_def)
  obtain t where t: "pools_alloc debug num_cpus 49152 PAGE_SIZE p = Return (Some a, t)" using pushed(3) sz by auto
  have "settles num_cpus (\<lambda>r q. same_stash (caches_segs cache) p (seg_of r 49152 @ caches_segs cache) q \<and>
      (\<forall>a. r = Some a \<longrightarrow> aligned a (alloc_order 49152 PAGE_SIZE))) (pools_alloc debug num_cpus 49152 PAGE_SIZE p)"
    by (rule pools_alloc_settles [OF assms(1)]) (simp_all add: size_of_order_def)
  then have "aligned a (alloc_order 49152 PAGE_SIZE)" using t by simp
  moreover have "1 \<le> alloc_order 49152 PAGE_SIZE" by code_simp
  ultimately have "aligned a 1" using aligned_le by blast
  then have even: "2 * PAGE_SIZE dvd a" by (simp add: aligned_def size_of_order_def)
  have "\<not> 2 * PAGE_SIZE dvd 9 * PAGE_SIZE" by simp
  then have odd: "\<not> 2 * PAGE_SIZE dvd a + 9 * PAGE_SIZE" using even dvd_add_right_iff by blast
  obtain d where "CacheArray_pop_front c = Return (Some (a + 3 * 12288), d)"
    using pushed(2)
  proof (cases rule: pop_front_outcome [where nr = 3])
    case empty
    then show ?thesis using pushed(1) by simp
  next
    case (popped b d)
    then show ?thesis using that [of d] pushed(1) sz by simp
  qed
  then have "CacheArray_alloc debug num_cpus 3 c q = Return (Some (a + 9 * PAGE_SIZE), d, q)"
    by (simp add: CacheArray_alloc_def)
  then show ?thesis using even odd c(2) unfolding first by simp
qed

definition three_frames :: "nat option \<times> CacheOfSizes \<times> Pools" where
  "three_frames = (case cache_alloc True 1 12288 8192 CacheOfSizes_new sample_pools of
     Return x \<Rightarrow> x | Panic \<Rightarrow> (None, CacheOfSizes_new, sample_pools))"

theorem cache_misaligns_three_frames_witness:
  "\<exists>cache'. cache_alloc True 1 12288 8192 (fst (snd three_frames)) (snd (snd three_frames)) =
     Return (Some 102400, cache', snd (snd three_frames)) \<and> \<not> 8192 dvd (102400 :: nat)"
proof -
  have "case cache_alloc True 1 12288 8192 CacheOfSizes_new sample_pools of Return (r, x) \<Rightarrow> r = Some 65536 | Panic \<Rightarrow> False"
    by code_simp
  then have run: "cache_alloc True 1 (3 * PAGE_SIZE) (2 * PAGE_SIZE) CacheOfSizes_new sample_pools =
      Return (Some 65536, fst (snd three_frames), snd (snd three_frames))"
    by (auto simp: three_frames_def split: outcome.splits)
  have "stash_ok (caches_segs CacheOfSizes_new) sample_pools"
    using sample_pools_ok(1) by (simp add: stash_ok_def held_def count_mset_set')
  moreover have "cached 3 (cache3 CacheOfSizes_new) = []" by (simp add: CacheOfSizes_new_def)
  ultimately show ?thesis using cache_misaligns_three_frames [OF _ _ _ run] by simp
qed

end
