(* ===== verification/Ring_Buffer.thy ===== *)
theory Ring_Buffer
  imports Kernel_Prelude "HOL-Library.Word"
begin

text \<open>
  The lock-free single-producer single-consumer ring buffer, \<open>kernel/libs/ring-buffer/src/lib.rs\<close>. The
  backing segment is a list of item slots, at least \<open>capacity\<close> of them; the head and tail counters are
  \<open>usize\<close> values that wrap. The operations of \<open>Producer\<close> and \<open>Consumer\<close> and those of the same name of
  \<open>RingBuffer\<close>, which only call them, are one definition each.
\<close>

unbundle bit_operations_syntax

section \<open>The model\<close>

record 'a RingBuffer =
  rb_segment :: "'a list"
  rb_capacity :: nat
  rb_tail :: "64 word"
  rb_head :: "64 word"

text \<open>\<open>VmIo::write_slice\<close> and \<open>read_slice\<close> on the segment, in items; their errors are unwrapped.\<close>

definition write_slice :: "nat \<Rightarrow> 'a list \<Rightarrow> 'a list \<Rightarrow> 'a list outcome" where
  "write_slice offset items segment =
     (if offset + length items \<le> length segment
      then Return (take offset segment @ items @ drop (offset + length items) segment) else Panic)"

definition read_slice :: "nat \<Rightarrow> nat \<Rightarrow> 'a list \<Rightarrow> 'a list outcome" where
  "read_slice offset n segment =
     (if offset + n \<le> length segment then Return (take n (drop offset segment)) else Panic)"

text \<open>\<open>usize::is_power_of_two\<close>.\<close>

definition is_power_of_two :: "nat \<Rightarrow> bool" where
  "is_power_of_two n \<longleftrightarrow> list_ex (\<lambda>k. n = 2 ^ k) [0..<64]"

text \<open>
  \<open>new\<close>, with the frame allocator as an argument: \<open>alloc_segment nframes\<close> is the new segment's slots,
  whose contents are arbitrary, or \<open>None\<close>. \<open>T_SIZE\<close> is an argument too.
\<close>

definition RingBuffer_new :: "(nat \<Rightarrow> 'a list option) \<Rightarrow> nat \<Rightarrow> nat \<Rightarrow> 'a RingBuffer outcome" where
  "RingBuffer_new alloc_segment t_size capacity =
     and_then (assert_that (is_power_of_two capacity)) (\<lambda>_.
     and_then (assert_that (capacity * t_size < usize_limit)) (\<lambda>_.
     let nframes = (capacity * t_size + 4095) div 4096 in
     and_then (unwrap (alloc_segment nframes)) (\<lambda>segment.
     Return \<lparr>rb_segment = segment, rb_capacity = capacity, rb_tail = 0, rb_head = 0\<rparr>)))"

definition RingBuffer_len :: "'a RingBuffer \<Rightarrow> nat" where
  "RingBuffer_len self = unat (rb_tail self - rb_head self)"

definition RingBuffer_free_len :: "'a RingBuffer \<Rightarrow> nat outcome" where
  "RingBuffer_free_len self =
     (if RingBuffer_len self \<le> rb_capacity self then Return (rb_capacity self - RingBuffer_len self) else Panic)"

definition RingBuffer_is_empty :: "'a RingBuffer \<Rightarrow> bool" where
  "RingBuffer_is_empty self \<longleftrightarrow> RingBuffer_len self = 0"

definition RingBuffer_is_full :: "'a RingBuffer \<Rightarrow> bool outcome" where
  "RingBuffer_is_full self = and_then (RingBuffer_free_len self) (\<lambda>n. Return (n = 0))"

definition advance_tail :: "64 word \<Rightarrow> nat \<Rightarrow> 'a RingBuffer \<Rightarrow> 'a RingBuffer" where
  "advance_tail tail len self = self\<lparr>rb_tail := tail + word_of_nat len\<rparr>"

definition advance_head :: "64 word \<Rightarrow> nat \<Rightarrow> 'a RingBuffer \<Rightarrow> 'a RingBuffer" where
  "advance_head head len self = self\<lparr>rb_head := head + word_of_nat len\<rparr>"

definition reset_head :: "'a RingBuffer \<Rightarrow> 'a RingBuffer" where
  "reset_head self = self\<lparr>rb_head := rb_tail self\<rparr>"

definition RingBuffer_clear :: "'a RingBuffer \<Rightarrow> 'a RingBuffer" where
  "RingBuffer_clear self = self\<lparr>rb_tail := 0, rb_head := 0\<rparr>"

text \<open>The slot of a counter value, \<open>counter & (capacity - 1)\<close>.\<close>

definition slot_of :: "64 word \<Rightarrow> nat \<Rightarrow> nat" where
  "slot_of counter capacity = unat (counter AND word_of_nat (capacity - 1))"

definition Producer_push :: "'a \<Rightarrow> 'a RingBuffer \<Rightarrow> (unit option \<times> 'a RingBuffer) outcome" where
  "Producer_push item rb =
     and_then (RingBuffer_is_full rb) (\<lambda>full.
     if full then Return (None, rb)
     else
       let tail = rb_tail rb; offset = slot_of tail (rb_capacity rb) in
       and_then (write_slice offset [item] (rb_segment rb)) (\<lambda>segment.
       Return (Some (), advance_tail tail 1 (rb\<lparr>rb_segment := segment\<rparr>))))"

definition Producer_push_slice :: "'a list \<Rightarrow> 'a RingBuffer \<Rightarrow> (unit option \<times> 'a RingBuffer) outcome" where
  "Producer_push_slice items rb =
     (let nitems = length items in
      and_then (RingBuffer_free_len rb) (\<lambda>free.
      if free < nitems then Return (None, rb)
      else
        let tail = rb_tail rb; offset = slot_of tail (rb_capacity rb) in
        and_then
          (if offset + nitems > rb_capacity rb then
             and_then (write_slice offset (take (rb_capacity rb - offset) items) (rb_segment rb))
               (write_slice 0 (drop (rb_capacity rb - offset) items))
           else write_slice offset items (rb_segment rb)) (\<lambda>segment.
        Return (Some (), advance_tail tail nitems (rb\<lparr>rb_segment := segment\<rparr>)))))"

definition Producer_commit_write :: "nat \<Rightarrow> 'a RingBuffer \<Rightarrow> 'a RingBuffer outcome" where
  "Producer_commit_write len self =
     and_then (RingBuffer_free_len self) (\<lambda>free.
     and_then (assert_that (len \<le> free)) (\<lambda>_.
     Return (advance_tail (rb_tail self) len self)))"

definition Consumer_pop :: "'a RingBuffer \<Rightarrow> ('a option \<times> 'a RingBuffer) outcome" where
  "Consumer_pop rb =
     (if RingBuffer_is_empty rb then Return (None, rb)
      else
        let head = rb_head rb; offset = slot_of head (rb_capacity rb) in
        and_then (read_slice offset 1 (rb_segment rb)) (\<lambda>items.
        Return (Some (hd items), advance_head head 1 rb)))"

definition Consumer_pop_slice :: "nat \<Rightarrow> 'a RingBuffer \<Rightarrow> ('a list option \<times> 'a RingBuffer) outcome" where
  "Consumer_pop_slice nitems rb =
     (if RingBuffer_len rb < nitems then Return (None, rb)
      else
        let head = rb_head rb; offset = slot_of head (rb_capacity rb) in
        and_then
          (if offset + nitems > rb_capacity rb then
             and_then (read_slice offset (rb_capacity rb - offset) (rb_segment rb)) (\<lambda>xs.
             and_then (read_slice 0 (nitems - (rb_capacity rb - offset)) (rb_segment rb)) (\<lambda>ys.
             Return (xs @ ys)))
           else read_slice offset nitems (rb_segment rb)) (\<lambda>items.
        Return (Some items, advance_head head nitems rb)))"

definition Consumer_skip :: "nat \<Rightarrow> 'a RingBuffer \<Rightarrow> 'a RingBuffer outcome" where
  "Consumer_skip count rb =
     and_then (assert_that (RingBuffer_len rb \<ge> count)) (\<lambda>_.
     Return (advance_head (rb_head rb) count rb))"

definition Consumer_commit_read :: "nat \<Rightarrow> 'a RingBuffer \<Rightarrow> 'a RingBuffer outcome" where
  "Consumer_commit_read len self =
     and_then (assert_that (len \<le> RingBuffer_len self)) (\<lambda>_.
     Return (advance_head (rb_head self) len self))"

definition Consumer_clear :: "'a RingBuffer \<Rightarrow> 'a RingBuffer" where
  "Consumer_clear rb = reset_head rb"

section \<open>Slots and counters\<close>

definition rb_ok :: "'a RingBuffer \<Rightarrow> bool" where
  "rb_ok rb \<longleftrightarrow> is_power_of_two (rb_capacity rb) \<and> rb_capacity rb \<le> length (rb_segment rb) \<and>
     RingBuffer_len rb \<le> rb_capacity rb"

text \<open>The items between head and tail, oldest first.\<close>

definition contents :: "'a RingBuffer \<Rightarrow> 'a list" where
  "contents rb = map (\<lambda>i. rb_segment rb ! ((unat (rb_head rb) + i) mod rb_capacity rb)) [0..<RingBuffer_len rb]"

lemma power_of_two_cases:
  assumes "is_power_of_two n"
  obtains k where "k < 64" "n = 2 ^ k"
  using assms by (auto simp: is_power_of_two_def list_ex_iff)

lemma slot_of_mod:
  assumes "is_power_of_two cap"
  shows "slot_of w cap = unat w mod cap"
proof -
  obtain k where k: "k < 64" "cap = 2 ^ k" using assms by (rule power_of_two_cases)
  have "word_of_nat (cap - 1) = (mask k :: 64 word)" using k(2) by (simp add: mask_eq_exp_minus_1 of_nat_diff)
  then have "slot_of w cap = unat (take_bit k w)" by (simp add: slot_of_def take_bit_eq_mask)
  also have "\<dots> = take_bit k (unat w)" by (rule unsigned_take_bit_eq)
  finally show ?thesis using k(2) by (simp add: take_bit_eq_mod)
qed

lemma unat_add_mod:
  assumes "is_power_of_two cap"
  shows "unat (w + word_of_nat i :: 64 word) mod cap = (unat w + i) mod cap"
proof -
  obtain k where k: "k < 64" "cap = 2 ^ k" using assms by (rule power_of_two_cases)
  have "unat (w + word_of_nat i) = (unat w + i) mod 2 ^ 64"
    by (simp add: unat_word_ariths(1) unsigned_of_nat take_bit_eq_mod mod_add_right_eq)
  moreover have "cap dvd 2 ^ 64" unfolding k(2) by (rule le_imp_power_dvd) (use k(1) in simp)
  ultimately show ?thesis by (simp add: mod_mod_cancel)
qed

lemma mod_add_inj:
  assumes "(h + i) mod n = (h + j) mod n" "i < n" "j < n"
  shows "i = (j :: nat)"
proof -
  have *: "i = j" if "i \<le> j" "(h + j) mod n = (h + i) mod n" "j < n" for i j
  proof -
    have "n dvd (h + j) - (h + i)" using that(1,2) mod_eq_dvd_iff_nat [of "h + i" "h + j" n] by simp
    then have "n dvd j - i" by simp
    then show ?thesis using that by (auto dest: dvd_imp_le)
  qed
  show ?thesis using * [of i j] * [of j i] assms by (cases "i \<le> j") simp_all
qed

lemma contents_length [simp]: "length (contents rb) = RingBuffer_len rb"
  by (simp add: contents_def)

lemma rb_okD:
  assumes "rb_ok rb"
  shows "is_power_of_two (rb_capacity rb)" "rb_capacity rb \<le> length (rb_segment rb)" "RingBuffer_len rb \<le> rb_capacity rb"
    "0 < rb_capacity rb" "rb_capacity rb < 2 ^ 64"
proof -
  show "is_power_of_two (rb_capacity rb)" "rb_capacity rb \<le> length (rb_segment rb)" "RingBuffer_len rb \<le> rb_capacity rb"
    using assms by (simp_all add: rb_ok_def)
  then obtain k where "k < 64" "rb_capacity rb = 2 ^ k" by (metis power_of_two_cases)
  moreover from this(1) have "(2::nat) ^ k < 2 ^ 64" by (rule power_strict_increasing) simp
  ultimately show "0 < rb_capacity rb" "rb_capacity rb < 2 ^ 64" by simp_all
qed

text \<open>The length after a move of one counter.\<close>

lemma len_advance_tail:
  assumes "rb_ok rb" "RingBuffer_len rb + n \<le> rb_capacity rb" "rb_head rb' = rb_head rb"
  shows "RingBuffer_len (advance_tail (rb_tail rb) n rb') = RingBuffer_len rb + n"
proof -
  have "RingBuffer_len rb + n < 2 ^ 64" using assms rb_okD(5) [OF assms(1)] by linarith
  then have "unat ((rb_tail rb - rb_head rb) + word_of_nat n) = RingBuffer_len rb + n"
    by (simp add: unat_word_ariths(1) unsigned_of_nat take_bit_eq_mod mod_add_right_eq RingBuffer_len_def)
  moreover have "RingBuffer_len (advance_tail (rb_tail rb) n rb') = unat ((rb_tail rb + word_of_nat n) - rb_head rb)"
    using assms(3) by (simp add: RingBuffer_len_def advance_tail_def)
  moreover have "(rb_tail rb + word_of_nat n) - rb_head rb = (rb_tail rb - rb_head rb) + word_of_nat n" by simp
  ultimately show ?thesis by (simp only:)
qed

lemma len_advance_head:
  assumes "n \<le> RingBuffer_len rb"
  shows "RingBuffer_len (advance_head (rb_head rb) n rb) = RingBuffer_len rb - n"
proof -
  have "unat (rb_tail rb - rb_head rb) < 2 ^ LENGTH(64)" by (rule unsigned_less)
  then have n: "n < 2 ^ 64" using assms by (simp add: RingBuffer_len_def)
  then have u: "unat (word_of_nat n :: 64 word) = n" by (simp add: unsigned_of_nat take_bit_nat_eq_self)
  have "word_of_nat n \<le> rb_tail rb - rb_head rb" using assms u by (simp add: word_le_nat_alt RingBuffer_len_def)
  then have "unat ((rb_tail rb - rb_head rb) - word_of_nat n) = RingBuffer_len rb - n"
    using u by (simp add: unat_sub RingBuffer_len_def)
  moreover have "rb_tail rb - (rb_head rb + word_of_nat n) = (rb_tail rb - rb_head rb) - word_of_nat n" by simp
  moreover have "RingBuffer_len (advance_head (rb_head rb) n rb) = unat (rb_tail rb - (rb_head rb + word_of_nat n))"
    by (simp add: RingBuffer_len_def advance_head_def)
  ultimately show ?thesis by (simp only:)
qed

section \<open>Reading and writing around the end\<close>

lemma write_slice_nth:
  assumes "offset + length items \<le> length seg"
  obtains seg' where "write_slice offset items seg = Return seg'" "length seg' = length seg"
    "\<And>j. j < length seg \<Longrightarrow> seg' ! j = (if offset \<le> j \<and> j < offset + length items then items ! (j - offset) else seg ! j)"
proof -
  let ?seg = "take offset seg @ items @ drop (offset + length items) seg"
  have "?seg ! j = (if offset \<le> j \<and> j < offset + length items then items ! (j - offset) else seg ! j)"
    if "j < length seg" for j
    using assms that by (auto simp: nth_append min_def)
  then show thesis using that [of ?seg] assms by (simp add: write_slice_def)
qed

definition write_wrapped :: "nat \<Rightarrow> nat \<Rightarrow> 'a list \<Rightarrow> 'a list \<Rightarrow> 'a list outcome" where
  "write_wrapped cap offset items seg =
     (if offset + length items > cap then
        and_then (write_slice offset (take (cap - offset) items) seg) (write_slice 0 (drop (cap - offset) items))
      else write_slice offset items seg)"

definition read_wrapped :: "nat \<Rightarrow> nat \<Rightarrow> nat \<Rightarrow> 'a list \<Rightarrow> 'a list outcome" where
  "read_wrapped cap offset n seg =
     (if offset + n > cap then
        and_then (read_slice offset (cap - offset) seg) (\<lambda>xs.
        and_then (read_slice 0 (n - (cap - offset)) seg) (\<lambda>ys. Return (xs @ ys)))
      else read_slice offset n seg)"

lemma mod_wrap: "offset < (cap :: nat) \<Longrightarrow> i < cap \<Longrightarrow> (offset + i) mod cap = (if offset + i < cap then offset + i else offset + i - cap)"
  by (auto simp: not_less le_mod_geq)

lemma write_wrapped_nth:
  assumes "cap \<le> length seg" "offset < cap" "length items \<le> cap"
  obtains seg' where "write_wrapped cap offset items seg = Return seg'" "length seg' = length seg"
    "\<And>i. i < length items \<Longrightarrow> seg' ! ((offset + i) mod cap) = items ! i"
    "\<And>i. i < cap \<Longrightarrow> length items \<le> i \<Longrightarrow> seg' ! ((offset + i) mod cap) = seg ! ((offset + i) mod cap)"
    "\<And>j. cap \<le> j \<Longrightarrow> j < length seg \<Longrightarrow> seg' ! j = seg ! j"
proof (cases "offset + length items > cap")
  case False
  then have le: "offset + length items \<le> length seg" using assms(1) by simp
  obtain seg' where s: "write_slice offset items seg = Return seg'" "length seg' = length seg"
    "\<And>j. j < length seg \<Longrightarrow> seg' ! j = (if offset \<le> j \<and> j < offset + length items then items ! (j - offset) else seg ! j)"
    using write_slice_nth [OF le] by metis
  show thesis
  proof (rule that)
    show "write_wrapped cap offset items seg = Return seg'" using False s(1) by (simp add: write_wrapped_def)
    show "length seg' = length seg" by (rule s(2))
    show "seg' ! ((offset + i) mod cap) = items ! i" if "i < length items" for i
      using that False assms s(3) [of "offset + i"] by (simp add: mod_wrap)
    show "seg' ! ((offset + i) mod cap) = seg ! ((offset + i) mod cap)" if "i < cap" "length items \<le> i" for i
      using that False assms s(3) [of "(offset + i) mod cap"] by (auto simp: mod_wrap)
    show "seg' ! j = seg ! j" if "cap \<le> j" "j < length seg" for j
      using that False s(3) [of j] by simp
  qed
next
  case True
  let ?k = "cap - offset"
  have le: "offset + length (take ?k items) \<le> length seg" using assms by simp
  obtain s1 where s1: "write_slice offset (take ?k items) seg = Return s1" "length s1 = length seg"
    "\<And>j. j < length seg \<Longrightarrow> s1 ! j = (if offset \<le> j \<and> j < offset + length (take ?k items) then take ?k items ! (j - offset) else seg ! j)"
    using write_slice_nth [OF le] by metis
  have le2: "0 + length (drop ?k items) \<le> length s1" using assms s1(2) by simp
  obtain s2 where s2: "write_slice 0 (drop ?k items) s1 = Return s2" "length s2 = length s1"
    "\<And>j. j < length s1 \<Longrightarrow> s2 ! j = (if 0 \<le> j \<and> j < 0 + length (drop ?k items) then drop ?k items ! (j - 0) else s1 ! j)"
    using write_slice_nth [OF le2] by metis
  show thesis
  proof (rule that)
    show "write_wrapped cap offset items seg = Return s2" using True s1(1) s2(1) by (simp add: write_wrapped_def)
    show "length s2 = length seg" using s1(2) s2(2) by simp
    show "s2 ! ((offset + i) mod cap) = items ! i" if i: "i < length items" for i
    proof (cases "offset + i < cap")
      case True
      then have "i < ?k" "\<not> offset + i < length (drop ?k items)" using i assms by simp_all
      then show ?thesis using True i assms s1(2) s1(3) [of "offset + i"] s2(3) [of "offset + i"] by (simp add: mod_wrap)
    next
      case False
      then have "?k + (offset + i - cap) = i" "offset + i - cap < length (drop ?k items)" using i assms(2) by simp_all
      then show ?thesis using False i assms s1(2) s2(3) [of "offset + i - cap"] by (simp add: mod_wrap)
    qed
    show "s2 ! ((offset + i) mod cap) = seg ! ((offset + i) mod cap)" if i: "i < cap" "length items \<le> i" for i
    proof -
      have j: "(offset + i) mod cap = offset + i - cap" using True i assms(2) by (simp add: mod_wrap)
      have "offset + i - cap < offset" "\<not> offset + i - cap < length (drop ?k items)" using True i assms by simp_all
      then show ?thesis unfolding j using True i assms s1(2) s1(3) [of "offset + i - cap"] s2(3) [of "offset + i - cap"] by simp
    qed
    show "s2 ! j = seg ! j" if "cap \<le> j" "j < length seg" for j
    proof -
      have "\<not> j < length (drop ?k items)" "\<not> j < offset + length (take ?k items)" using that assms by simp_all
      then show ?thesis using that s1(2) s1(3) [of j] s2(3) [of j] by simp
    qed
  qed
qed

lemma read_wrapped_items:
  assumes "cap \<le> length seg" "offset < cap" "n \<le> cap"
  shows "read_wrapped cap offset n seg = Return (map (\<lambda>i. seg ! ((offset + i) mod cap)) [0..<n])"
proof (cases "offset + n > cap")
  case False
  have "take n (drop offset seg) = map (\<lambda>i. seg ! ((offset + i) mod cap)) [0..<n]"
    by (rule nth_equalityI) (use False assms in \<open>simp_all add: mod_wrap\<close>)
  then show ?thesis using False assms by (simp add: read_wrapped_def read_slice_def)
next
  case True
  let ?k = "cap - offset"
  have "take ?k (drop offset seg) @ take (n - ?k) seg = map (\<lambda>i. seg ! ((offset + i) mod cap)) [0..<n]"
  proof (rule nth_equalityI)
    show "length (take ?k (drop offset seg) @ take (n - ?k) seg) = length (map (\<lambda>i. seg ! ((offset + i) mod cap)) [0..<n])"
      using True assms by simp
    fix i assume "i < length (take ?k (drop offset seg) @ take (n - ?k) seg)"
    then have i: "i < n" using True assms by simp
    show "(take ?k (drop offset seg) @ take (n - ?k) seg) ! i = map (\<lambda>i. seg ! ((offset + i) mod cap)) [0..<n] ! i"
    proof (cases "i < ?k")
      case True
      then show ?thesis using i assms by (simp add: nth_append mod_wrap)
    next
      case False
      then have "i - ?k = offset + i - cap" "\<not> offset + i < cap" using assms(2) by simp_all
      then show ?thesis using False i assms True by (simp add: nth_append mod_wrap)
    qed
  qed
  then show ?thesis using True assms by (simp add: read_wrapped_def read_slice_def)
qed

section \<open>The operations on the contents\<close>

lemma tail_slot:
  assumes "rb_ok rb"
  shows "slot_of (rb_tail rb) (rb_capacity rb) = (unat (rb_head rb) + RingBuffer_len rb) mod rb_capacity rb"
    "slot_of (rb_head rb) (rb_capacity rb) = unat (rb_head rb) mod rb_capacity rb"
proof -
  note p = rb_okD(1) [OF assms]
  have "rb_tail rb = rb_head rb + word_of_nat (RingBuffer_len rb)" by (simp add: RingBuffer_len_def)
  then show "slot_of (rb_tail rb) (rb_capacity rb) = (unat (rb_head rb) + RingBuffer_len rb) mod rb_capacity rb"
    using unat_add_mod [OF p, of "rb_head rb" "RingBuffer_len rb"] slot_of_mod [OF p] by simp
  show "slot_of (rb_head rb) (rb_capacity rb) = unat (rb_head rb) mod rb_capacity rb" by (rule slot_of_mod [OF p])
qed

lemma contents_same_slots:
  assumes "rb_tail rb' = rb_tail rb" "rb_head rb' = rb_head rb" "rb_capacity rb' = rb_capacity rb"
    and "\<And>i. i < RingBuffer_len rb \<Longrightarrow>
      rb_segment rb' ! ((unat (rb_head rb) + i) mod rb_capacity rb) = rb_segment rb ! ((unat (rb_head rb) + i) mod rb_capacity rb)"
  shows "contents rb' = contents rb"
proof -
  have "RingBuffer_len rb' = RingBuffer_len rb" using assms(1,2) by (simp add: RingBuffer_len_def)
  then show ?thesis using assms by (simp add: contents_def)
qed

text \<open>Publishing items that are already in the slots past the tail.\<close>

lemma contents_advance_tail:
  assumes "rb_ok rb" "RingBuffer_len rb + length items \<le> rb_capacity rb"
    and items: "\<And>i. i < length items \<Longrightarrow>
      rb_segment rb ! ((slot_of (rb_tail rb) (rb_capacity rb) + i) mod rb_capacity rb) = items ! i"
  shows "contents (advance_tail (rb_tail rb) (length items) rb) = contents rb @ items"
    "rb_ok (advance_tail (rb_tail rb) (length items) rb)"
proof -
  let ?rb = "advance_tail (rb_tail rb) (length items) rb"
  let ?cap = "rb_capacity rb" and ?h = "unat (rb_head rb)" and ?l = "RingBuffer_len rb"
  have len: "RingBuffer_len ?rb = ?l + length items" by (rule len_advance_tail [OF assms(1,2)]) simp
  have same: "rb_head ?rb = rb_head rb" "rb_capacity ?rb = ?cap" "rb_segment ?rb = rb_segment rb"
    by (simp_all add: advance_tail_def)
  show "rb_ok ?rb" using rb_okD [OF assms(1)] len assms(2) same by (simp add: rb_ok_def)
  show "contents ?rb = contents rb @ items"
  proof (rule nth_equalityI)
    show "length (contents ?rb) = length (contents rb @ items)" using len by simp
    fix i assume "i < length (contents ?rb)"
    then have i: "i < ?l + length items" using len by simp
    show "contents ?rb ! i = (contents rb @ items) ! i"
    proof (cases "i < ?l")
      case True
      then show ?thesis using i len same by (simp add: contents_def nth_append)
    next
      case False
      have "(slot_of (rb_tail rb) ?cap + (i - ?l)) mod ?cap = (?h + i) mod ?cap"
        unfolding tail_slot(1) [OF assms(1)] mod_add_left_eq using False by simp
      then show ?thesis using False i len same items [of "i - ?l"] by (simp add: contents_def nth_append)
    qed
  qed
qed

text \<open>The slots past the tail, up to the capacity, are not those of the contents.\<close>

lemma slots_apart:
  assumes "rb_ok rb" "i < RingBuffer_len rb" "RingBuffer_len rb + j < rb_capacity rb"
  shows "(unat (rb_head rb) + i) mod rb_capacity rb \<noteq> (slot_of (rb_tail rb) (rb_capacity rb) + j) mod rb_capacity rb"
proof
  assume "(unat (rb_head rb) + i) mod rb_capacity rb = (slot_of (rb_tail rb) (rb_capacity rb) + j) mod rb_capacity rb"
  then have "(unat (rb_head rb) + i) mod rb_capacity rb = (unat (rb_head rb) + (RingBuffer_len rb + j)) mod rb_capacity rb"
    by (simp add: tail_slot(1) [OF assms(1)] mod_add_left_eq add.assoc)
  then have "i = RingBuffer_len rb + j" by (rule mod_add_inj) (use assms(2,3) in simp_all)
  then show False using assms(2) by simp
qed

lemma slot_before_tail:
  assumes "rb_ok rb" "i < RingBuffer_len rb"
  shows "(unat (rb_head rb) + i) mod rb_capacity rb =
    (slot_of (rb_tail rb) (rb_capacity rb) + (rb_capacity rb + i - RingBuffer_len rb)) mod rb_capacity rb"
proof -
  let ?cap = "rb_capacity rb" and ?h = "unat (rb_head rb)" and ?l = "RingBuffer_len rb"
  have "?h + ?l + (?cap + i - ?l) = ?h + i + ?cap" using rb_okD(3) [OF assms(1)] by simp
  then show ?thesis unfolding tail_slot(1) [OF assms(1)] mod_add_left_eq by (simp only: mod_add_self2)
qed

lemma slot_cases:
  assumes "k < (cap :: nat)"
  obtains i where "i < cap" "k = (offset + i) mod cap"
proof
  let ?i = "(k + (cap - offset mod cap)) mod cap"
  show "?i < cap" using assms by simp
  have "(offset + ?i) mod cap = (offset mod cap + (k + (cap - offset mod cap))) mod cap"
    by (metis mod_add_left_eq mod_add_right_eq)
  also have "offset mod cap + (k + (cap - offset mod cap)) = k + cap"
    using assms mod_less_divisor [of cap offset] by linarith
  finally show "k = (offset + ?i) mod cap" using assms by simp
qed

lemma push_slice_contents:
  assumes "rb_ok rb" "RingBuffer_len rb + length items \<le> rb_capacity rb"
  obtains rb' where "Producer_push_slice items rb = Return (Some (), rb')" "rb_ok rb'" "contents rb' = contents rb @ items"
    "rb_capacity rb' = rb_capacity rb"
proof -
  let ?cap = "rb_capacity rb" and ?n = "length items" and ?l = "RingBuffer_len rb"
  let ?off = "slot_of (rb_tail rb) ?cap"
  note ok = rb_okD [OF assms(1)]
  have off: "?off < ?cap" using tail_slot(1) [OF assms(1)] ok(4) by simp
  have n: "?n \<le> ?cap" using assms(2) by simp
  obtain seg where seg: "write_wrapped ?cap ?off items (rb_segment rb) = Return seg" "length seg = length (rb_segment rb)"
    "\<And>i. i < ?n \<Longrightarrow> seg ! ((?off + i) mod ?cap) = items ! i"
    "\<And>i. i < ?cap \<Longrightarrow> ?n \<le> i \<Longrightarrow> seg ! ((?off + i) mod ?cap) = rb_segment rb ! ((?off + i) mod ?cap)"
    using write_wrapped_nth [OF ok(2) off n] by metis
  let ?rb = "rb\<lparr>rb_segment := seg\<rparr>"
  have push: "Producer_push_slice items rb = Return (Some (), advance_tail (rb_tail ?rb) ?n ?rb)"
    using assms(2) ok(3) seg(1) by (simp add: Producer_push_slice_def RingBuffer_free_len_def write_wrapped_def Let_def split: if_splits)
  have len: "RingBuffer_len ?rb = ?l" by (simp add: RingBuffer_len_def)
  have okr: "rb_ok ?rb" using ok seg(2) len by (simp add: rb_ok_def)
  have "seg ! ((unat (rb_head rb) + i) mod ?cap) = rb_segment rb ! ((unat (rb_head rb) + i) mod ?cap)" if "i < ?l" for i
    unfolding slot_before_tail [OF assms(1) that] by (rule seg(4)) (use assms(2) that in simp_all)
  then have "contents ?rb = contents rb" by (intro contents_same_slots) simp_all
  then show thesis
    using that [OF push] contents_advance_tail [OF okr, of items] seg(3) assms(2) len by (simp add: advance_tail_def)
qed

lemma push_is_push_slice: "rb_ok rb \<Longrightarrow> Producer_push item rb = Producer_push_slice [item] rb"
proof -
  assume ok: "rb_ok rb"
  have "slot_of (rb_tail rb) (rb_capacity rb) < rb_capacity rb" using tail_slot(1) [OF ok] rb_okD(4) [OF ok] by simp
  then show ?thesis
    using rb_okD(3) [OF ok]
    by (auto simp: Producer_push_def Producer_push_slice_def RingBuffer_is_full_def RingBuffer_free_len_def Let_def)
qed

lemma contents_advance_head:
  assumes "rb_ok rb" "n \<le> RingBuffer_len rb"
  shows "contents (advance_head (rb_head rb) n rb) = drop n (contents rb)" "rb_ok (advance_head (rb_head rb) n rb)"
proof -
  let ?rb = "advance_head (rb_head rb) n rb"
  note ok = rb_okD [OF assms(1)]
  have len: "RingBuffer_len ?rb = RingBuffer_len rb - n" by (rule len_advance_head [OF assms(2)])
  show "rb_ok ?rb" using ok len by (simp add: rb_ok_def) (simp add: advance_head_def)
  have "(unat (rb_head rb + word_of_nat n) + i) mod rb_capacity rb = (unat (rb_head rb) + (n + i)) mod rb_capacity rb" for i
    using unat_add_mod [OF ok(1), of "rb_head rb" n] by (metis add.assoc mod_add_left_eq)
  moreover have "rb_head ?rb = rb_head rb + word_of_nat n" "rb_segment ?rb = rb_segment rb" "rb_capacity ?rb = rb_capacity rb"
    by (simp_all add: advance_head_def)
  ultimately show "contents ?rb = drop n (contents rb)"
    by (intro nth_equalityI) (simp_all add: contents_def len less_diff_conv add.commute [of _ n])
qed

lemma pop_slice_contents:
  assumes "rb_ok rb" "n \<le> RingBuffer_len rb"
  shows "Consumer_pop_slice n rb = Return (Some (take n (contents rb)), advance_head (rb_head rb) n rb)"
proof -
  note ok = rb_okD [OF assms(1)]
  let ?cap = "rb_capacity rb" and ?off = "slot_of (rb_head rb) (rb_capacity rb)"
  have off: "?off = unat (rb_head rb) mod ?cap" "?off < ?cap" using tail_slot(2) [OF assms(1)] ok(4) by simp_all
  have "n \<le> ?cap" using assms(2) ok(3) by simp
  from read_wrapped_items [OF ok(2) off(2) this]
  have "read_wrapped ?cap ?off n (rb_segment rb) = Return (map (\<lambda>i. rb_segment rb ! ((unat (rb_head rb) + i) mod ?cap)) [0..<n])"
    unfolding off(1) by (simp add: mod_add_left_eq)
  moreover have "take n (contents rb) = map (\<lambda>i. rb_segment rb ! ((unat (rb_head rb) + i) mod ?cap)) [0..<n]"
    using assms(2) by (simp add: contents_def take_map)
  ultimately show ?thesis using assms(2) by (simp add: Consumer_pop_slice_def read_wrapped_def Let_def split: if_splits)
qed

lemma pop_contents:
  assumes "rb_ok rb"
  shows "Consumer_pop rb = (if contents rb = [] then Return (None, rb)
    else Return (Some (hd (contents rb)), advance_head (rb_head rb) 1 rb))"
proof (cases "contents rb = []")
  case True
  then have "RingBuffer_len rb = 0" using contents_length [of rb] by simp
  then show ?thesis using True by (simp add: Consumer_pop_def RingBuffer_is_empty_def)
next
  case False
  then have len: "1 \<le> RingBuffer_len rb" using contents_length [of rb] by (metis One_nat_def Suc_leI length_greater_0_conv)
  note ok = rb_okD [OF assms]
  let ?off = "slot_of (rb_head rb) (rb_capacity rb)"
  have off: "?off = unat (rb_head rb) mod rb_capacity rb" "?off < rb_capacity rb" using tail_slot(2) [OF assms] ok(4) by simp_all
  have "read_slice ?off 1 (rb_segment rb) = Return [rb_segment rb ! ?off]"
    using off(2) ok(2) by (simp add: read_slice_def take_Suc hd_drop_conv_nth)
  moreover have "hd (contents rb) = rb_segment rb ! ?off"
    using len off(1) by (simp add: contents_def hd_map upt_conv_Cons)
  ultimately show ?thesis using False len by (simp add: Consumer_pop_def RingBuffer_is_empty_def Let_def)
qed

text \<open>\<open>commit_write\<close> appends what is in the slots past the tail, and panics when there are not so many free slots.\<close>

lemma commit_write_contents:
  assumes "rb_ok rb"
  shows "case Producer_commit_write len rb of
      Return rb' \<Rightarrow> RingBuffer_len rb + len \<le> rb_capacity rb \<and> rb_ok rb' \<and>
        contents rb' = contents rb @ map (\<lambda>i. rb_segment rb ! ((slot_of (rb_tail rb) (rb_capacity rb) + i) mod rb_capacity rb)) [0..<len]
    | Panic \<Rightarrow> rb_capacity rb < RingBuffer_len rb + len"
proof (cases "RingBuffer_len rb + len \<le> rb_capacity rb")
  case True
  let ?items = "map (\<lambda>i. rb_segment rb ! ((slot_of (rb_tail rb) (rb_capacity rb) + i) mod rb_capacity rb)) [0..<len]"
  have free: "RingBuffer_free_len rb = Return (rb_capacity rb - RingBuffer_len rb)"
    using rb_okD(3) [OF assms] by (simp add: RingBuffer_free_len_def)
  show ?thesis
    using True contents_advance_tail [OF assms, of ?items] by (simp add: Producer_commit_write_def free assert_that_def)
next
  case False
  then have "Producer_commit_write len rb = Panic"
    using rb_okD(3) [OF assms] by (simp add: Producer_commit_write_def RingBuffer_free_len_def assert_that_def)
  then show ?thesis using False by simp
qed

section \<open>A bounded queue\<close>

text \<open>
  What the buffer promises to one caller: a queue of at most \<open>capacity\<close> items. \<open>RbPushSlice\<close> and
  \<open>RbPopSlice\<close> are all-or-nothing, \<open>RbSkip\<close> and \<open>RbCommitRead\<close> panic when there are too few items.
  \<open>commit_write\<close> publishes items that the caller has put into the segment, which a queue does not show; it is the
  subject of \<open>commit_write_contents\<close>.
\<close>

datatype 'a rb_op = RbPush 'a | RbPushSlice "'a list" | RbPop | RbPopSlice nat | RbSkip nat | RbCommitRead nat | RbDrain | RbClear

datatype 'a rb_answer = Pushed "unit option" | Popped "'a option" | PoppedSlice "'a list option" | Dropped

fun rb_apply :: "'a rb_op \<Rightarrow> 'a RingBuffer \<Rightarrow> ('a rb_answer \<times> 'a RingBuffer) outcome" where
  "rb_apply (RbPush item) rb = and_then (Producer_push item rb) (\<lambda>(r, rb'). Return (Pushed r, rb'))"
| "rb_apply (RbPushSlice items) rb = and_then (Producer_push_slice items rb) (\<lambda>(r, rb'). Return (Pushed r, rb'))"
| "rb_apply RbPop rb = and_then (Consumer_pop rb) (\<lambda>(r, rb'). Return (Popped r, rb'))"
| "rb_apply (RbPopSlice n) rb = and_then (Consumer_pop_slice n rb) (\<lambda>(r, rb'). Return (PoppedSlice r, rb'))"
| "rb_apply (RbSkip n) rb = and_then (Consumer_skip n rb) (\<lambda>rb'. Return (Dropped, rb'))"
| "rb_apply (RbCommitRead n) rb = and_then (Consumer_commit_read n rb) (\<lambda>rb'. Return (Dropped, rb'))"
| "rb_apply RbDrain rb = Return (Dropped, Consumer_clear rb)"
| "rb_apply RbClear rb = Return (Dropped, RingBuffer_clear rb)"

fun fifo_apply :: "'a rb_op \<Rightarrow> nat \<times> 'a list \<Rightarrow> ('a rb_answer \<times> nat \<times> 'a list) outcome" where
  "fifo_apply (RbPush item) (cap, xs) =
     (if length xs < cap then Return (Pushed (Some ()), cap, xs @ [item]) else Return (Pushed None, cap, xs))"
| "fifo_apply (RbPushSlice items) (cap, xs) =
     (if length xs + length items \<le> cap then Return (Pushed (Some ()), cap, xs @ items) else Return (Pushed None, cap, xs))"
| "fifo_apply RbPop (cap, xs) =
     (case xs of [] \<Rightarrow> Return (Popped None, cap, []) | x # ys \<Rightarrow> Return (Popped (Some x), cap, ys))"
| "fifo_apply (RbPopSlice n) (cap, xs) =
     (if n \<le> length xs then Return (PoppedSlice (Some (take n xs)), cap, drop n xs) else Return (PoppedSlice None, cap, xs))"
| "fifo_apply (RbSkip n) (cap, xs) = (if n \<le> length xs then Return (Dropped, cap, drop n xs) else Panic)"
| "fifo_apply (RbCommitRead n) (cap, xs) = (if n \<le> length xs then Return (Dropped, cap, drop n xs) else Panic)"
| "fifo_apply RbDrain (cap, xs) = Return (Dropped, cap, [])"
| "fifo_apply RbClear (cap, xs) = Return (Dropped, cap, [])"

definition rb_queue :: "'a RingBuffer \<Rightarrow> nat \<times> 'a list" where
  "rb_queue rb = (rb_capacity rb, contents rb)"

abbreviation simulates_fifo :: "'a rb_op \<Rightarrow> 'a RingBuffer \<Rightarrow> bool" where
  "simulates_fifo x rb \<equiv> (case rb_apply x rb of
      Return (a, rb') \<Rightarrow> fifo_apply x (rb_queue rb) = Return (a, rb_queue rb') \<and> rb_ok rb'
    | Panic \<Rightarrow> fifo_apply x (rb_queue rb) = Panic)"

lemma push_slice_simulates: "rb_ok rb \<Longrightarrow> simulates_fifo (RbPushSlice items) rb"
proof (cases "RingBuffer_len rb + length items \<le> rb_capacity rb")
  case True
  assume ok: "rb_ok rb"
  obtain rb' where "Producer_push_slice items rb = Return (Some (), rb')" "rb_ok rb'" "contents rb' = contents rb @ items"
    "rb_capacity rb' = rb_capacity rb"
    using push_slice_contents [OF ok True] by metis
  then show ?thesis using True by (simp add: rb_queue_def)
next
  case False
  assume ok: "rb_ok rb"
  then have "Producer_push_slice items rb = Return (None, rb)"
    using False rb_okD(3) [OF ok] by (simp add: Producer_push_slice_def RingBuffer_free_len_def Let_def)
  then show ?thesis using False ok by (simp add: rb_queue_def)
qed

lemma push_simulates: "rb_ok rb \<Longrightarrow> simulates_fifo (RbPush item) rb"
proof -
  assume ok: "rb_ok rb"
  have "fifo_apply (RbPush item) q = fifo_apply (RbPushSlice [item]) q" for q :: "nat \<times> 'a list"
    by (cases q) (simp add: Suc_le_eq)
  moreover have "rb_apply (RbPush item) rb = rb_apply (RbPushSlice [item]) rb" using push_is_push_slice [OF ok] by simp
  ultimately show ?thesis using push_slice_simulates [OF ok, of "[item]"] by (simp only:)
qed

lemma advance_head_queue:
  assumes "rb_ok rb" "n \<le> RingBuffer_len rb"
  shows "rb_queue (advance_head (rb_head rb) n rb) = (rb_capacity rb, drop n (contents rb))"
  using contents_advance_head(1) [OF assms] by (simp add: rb_queue_def advance_head_def)

lemma pop_simulates: "rb_ok rb \<Longrightarrow> simulates_fifo RbPop rb"
proof (cases "contents rb")
  case Nil
  assume "rb_ok rb"
  then show ?thesis using pop_contents [of rb] Nil by (simp add: rb_queue_def)
next
  case (Cons x xs)
  assume ok: "rb_ok rb"
  have len: "1 \<le> RingBuffer_len rb" using Cons contents_length [of rb] by simp
  show ?thesis
    using pop_contents [OF ok] Cons contents_advance_head(2) [OF ok len] advance_head_queue [OF ok len] by (simp add: rb_queue_def)
qed

lemma pop_slice_simulates: "rb_ok rb \<Longrightarrow> simulates_fifo (RbPopSlice n) rb"
proof (cases "n \<le> RingBuffer_len rb")
  case True
  assume ok: "rb_ok rb"
  show ?thesis
    using True pop_slice_contents [OF ok True] contents_advance_head(2) [OF ok True] advance_head_queue [OF ok True]
    by (simp add: rb_queue_def)
next
  case False
  assume "rb_ok rb"
  then show ?thesis using False by (simp add: rb_queue_def Consumer_pop_slice_def)
qed

lemma skip_simulates: "rb_ok rb \<Longrightarrow> simulates_fifo (RbSkip n) rb"
proof (cases "n \<le> RingBuffer_len rb")
  case True
  assume ok: "rb_ok rb"
  show ?thesis
    using True contents_advance_head(2) [OF ok True] advance_head_queue [OF ok True]
    by (simp add: Consumer_skip_def assert_that_def) (simp add: rb_queue_def)
next
  case False
  then show ?thesis by (simp add: rb_queue_def Consumer_skip_def assert_that_def)
qed

lemma commit_read_simulates: "rb_ok rb \<Longrightarrow> simulates_fifo (RbCommitRead n) rb"
proof -
  assume "rb_ok rb"
  then have "simulates_fifo (RbSkip n) rb" by (rule skip_simulates)
  moreover have "rb_apply (RbCommitRead n) rb = rb_apply (RbSkip n) rb" by (simp add: Consumer_commit_read_def Consumer_skip_def)
  moreover have "fifo_apply (RbCommitRead n) q = fifo_apply (RbSkip n) q" for q :: "nat \<times> 'a list" by (cases q) simp
  ultimately show ?thesis by (simp only:)
qed

lemma emptied:
  assumes "rb_ok rb" "rb_tail rb' = rb_head rb'" "rb_capacity rb' = rb_capacity rb" "rb_segment rb' = rb_segment rb"
  shows "rb_ok rb'" "contents rb' = []"
  using assms by (simp_all add: rb_ok_def contents_def RingBuffer_len_def)

interpretation ring_buffer: simulation rb_apply fifo_apply rb_ok rb_queue
proof
  fix rb :: "'a RingBuffer" and x
  assume ok: "rb_ok rb"
  show "simulates_fifo x rb"
  proof (cases x)
    case RbDrain
    then show ?thesis using emptied [OF ok, of "Consumer_clear rb"] by (simp add: rb_queue_def Consumer_clear_def reset_head_def)
  next
    case RbClear
    then show ?thesis using emptied [OF ok, of "RingBuffer_clear rb"] by (simp add: rb_queue_def RingBuffer_clear_def)
  qed (use push_simulates [OF ok] push_slice_simulates [OF ok] pop_simulates [OF ok] pop_slice_simulates [OF ok]
    skip_simulates [OF ok] commit_read_simulates [OF ok] in \<open>simp_all only:\<close>)
qed

text \<open>A new buffer, over a segment of the pages it asked for.\<close>

lemma RingBuffer_new_ok:
  assumes "RingBuffer_new alloc_segment t_size capacity = Return rb" "0 < t_size"
    and "\<And>n seg. alloc_segment n = Some seg \<Longrightarrow> length seg = n * 4096 div t_size"
  shows "rb_ok rb" "rb_queue rb = (capacity, [])"
proof -
  obtain seg where new: "is_power_of_two capacity" "alloc_segment ((capacity * t_size + 4095) div 4096) = Some seg"
    "rb = \<lparr>rb_segment = seg, rb_capacity = capacity, rb_tail = 0, rb_head = 0\<rparr>"
    using assms(1)
    by (auto simp: RingBuffer_new_def Let_def assert_that_def split: if_splits)
  have "capacity * t_size \<le> (capacity * t_size + 4095) div 4096 * 4096" by linarith
  then have "capacity \<le> length seg" using assms(2) assms(3) [OF new(2)] by (simp add: less_eq_div_iff_mult_less_eq)
  then show "rb_ok rb" "rb_queue rb = (capacity, [])"
    using new by (simp_all add: rb_ok_def RingBuffer_len_def rb_queue_def contents_def)
qed

end
