(* ===== verification/Ring_Buffer_Spsc.thy ===== *)
theory Ring_Buffer_Spsc
  imports Ring_Buffer "HOL-Library.Code_Target_Nat"
begin

text \<open>
  A producer and a consumer of one ring buffer that run concurrently, as the two halves \<open>split\<close> returns do.
  Every load or store of a counter and every item that is copied is a step of its own, and the steps of
  the two sides interleave in any order. The \<open>Release\<close> store of a counter and the \<open>Acquire\<close> load of it
  by the other side order the copies around them, so that the steps act on one memory.
\<close>

section \<open>The steps of the two sides\<close>

text \<open>
  The producer between the check of \<open>push_slice\<close> and its store of the tail: the loaded tail, the items and
  how many of them are in the segment. \<open>push\<close> is the case of one item.
\<close>

datatype 'a producer = P_Idle | P_Writing "64 word" "'a list" nat

text \<open>
  The consumer inside \<open>pop_slice\<close> (the loaded head, the items wanted and those read so far; \<open>pop\<close> is the
  case of one item), inside \<open>skip\<close> or \<open>commit_read\<close> and inside \<open>clear\<close>, which has loaded the tail.
\<close>

datatype 'a consumer = C_Idle | C_Reading "64 word" nat "'a list" | C_Skipping "64 word" nat | C_Clearing "64 word"

text \<open>
  The last two fields are a history: the items of the pushes that completed, and what became of the items
  the head has passed, \<open>Some\<close> when they were returned and \<open>None\<close> when they were skipped.
\<close>

record 'a spsc =
  sp_rb :: "'a RingBuffer"
  sp_producer :: "'a producer"
  sp_consumer :: "'a consumer"
  sp_sent :: "'a list"
  sp_received :: "'a option list"

text \<open>The slot of the item \<open>i\<close> of a slice that starts at \<open>offset\<close>, in the first or the second part.\<close>

definition item_slot :: "nat \<Rightarrow> nat \<Rightarrow> nat \<Rightarrow> nat" where
  "item_slot capacity offset i = (if offset + i < capacity then offset + i else offset + i - capacity)"

inductive spsc_step :: "'a spsc \<Rightarrow> 'a spsc \<Rightarrow> bool" where
  push_check: "sp_producer s = P_Idle \<Longrightarrow> RingBuffer_free_len (sp_rb s) = Return free \<Longrightarrow> length items \<le> free \<Longrightarrow>
    spsc_step s (s\<lparr>sp_producer := P_Writing (rb_tail (sp_rb s)) items 0\<rparr>)"
| push_write: "sp_producer s = P_Writing tail items i \<Longrightarrow> i < length items \<Longrightarrow>
    write_slice (item_slot (rb_capacity (sp_rb s)) (slot_of tail (rb_capacity (sp_rb s))) i) [items ! i]
      (rb_segment (sp_rb s)) = Return segment \<Longrightarrow>
    spsc_step s (s\<lparr>sp_rb := (sp_rb s)\<lparr>rb_segment := segment\<rparr>, sp_producer := P_Writing tail items (Suc i)\<rparr>)"
| push_publish: "sp_producer s = P_Writing tail items (length items) \<Longrightarrow>
    spsc_step s (s\<lparr>sp_rb := advance_tail tail (length items) (sp_rb s), sp_producer := P_Idle, sp_sent := sp_sent s @ items\<rparr>)"
| pop_check: "sp_consumer s = C_Idle \<Longrightarrow> n \<le> RingBuffer_len (sp_rb s) \<Longrightarrow>
    spsc_step s (s\<lparr>sp_consumer := C_Reading (rb_head (sp_rb s)) n []\<rparr>)"
| pop_read: "sp_consumer s = C_Reading head n xs \<Longrightarrow> length xs < n \<Longrightarrow>
    read_slice (item_slot (rb_capacity (sp_rb s)) (slot_of head (rb_capacity (sp_rb s))) (length xs)) 1
      (rb_segment (sp_rb s)) = Return x \<Longrightarrow>
    spsc_step s (s\<lparr>sp_consumer := C_Reading head n (xs @ x)\<rparr>)"
| pop_publish: "sp_consumer s = C_Reading head n xs \<Longrightarrow> length xs = n \<Longrightarrow>
    spsc_step s (s\<lparr>sp_rb := advance_head head n (sp_rb s), sp_consumer := C_Idle, sp_received := sp_received s @ map Some xs\<rparr>)"
| skip_check: "sp_consumer s = C_Idle \<Longrightarrow> n \<le> RingBuffer_len (sp_rb s) \<Longrightarrow>
    spsc_step s (s\<lparr>sp_consumer := C_Skipping (rb_head (sp_rb s)) n\<rparr>)"
| skip_publish: "sp_consumer s = C_Skipping head n \<Longrightarrow>
    spsc_step s (s\<lparr>sp_rb := advance_head head n (sp_rb s), sp_consumer := C_Idle, sp_received := sp_received s @ replicate n None\<rparr>)"
| clear_load: "sp_consumer s = C_Idle \<Longrightarrow> spsc_step s (s\<lparr>sp_consumer := C_Clearing (rb_tail (sp_rb s))\<rparr>)"
| clear_store: "sp_consumer s = C_Clearing tail \<Longrightarrow>
    spsc_step s (s\<lparr>sp_rb := (sp_rb s)\<lparr>rb_head := tail\<rparr>, sp_consumer := C_Idle,
      sp_received := sp_received s @ replicate (unat (tail - rb_head (sp_rb s))) None\<rparr>)"

definition spsc_start :: "'a RingBuffer \<Rightarrow> 'a spsc" where
  "spsc_start rb = \<lparr>sp_rb = rb, sp_producer = P_Idle, sp_consumer = C_Idle, sp_sent = [], sp_received = []\<rparr>"

definition spsc_init :: "nat \<Rightarrow> 'a spsc \<Rightarrow> bool" where
  "spsc_init capacity s \<longleftrightarrow> (\<exists>rb. s = spsc_start rb \<and> rb_ok rb \<and> rb_queue rb = (capacity, []))"

section \<open>The invariant\<close>

fun producer_ok :: "'a RingBuffer \<Rightarrow> 'a producer \<Rightarrow> bool" where
  "producer_ok rb P_Idle \<longleftrightarrow> True"
| "producer_ok rb (P_Writing tail items i) \<longleftrightarrow>
     tail = rb_tail rb \<and> RingBuffer_len rb + length items \<le> rb_capacity rb \<and> i \<le> length items \<and>
     (\<forall>j<i. rb_segment rb ! ((slot_of tail (rb_capacity rb) + j) mod rb_capacity rb) = items ! j)"

fun consumer_ok :: "'a RingBuffer \<Rightarrow> 'a consumer \<Rightarrow> bool" where
  "consumer_ok rb C_Idle \<longleftrightarrow> True"
| "consumer_ok rb (C_Reading head n xs) \<longleftrightarrow>
     head = rb_head rb \<and> n \<le> RingBuffer_len rb \<and> length xs \<le> n \<and> xs = take (length xs) (contents rb)"
| "consumer_ok rb (C_Skipping head n) \<longleftrightarrow> head = rb_head rb \<and> n \<le> RingBuffer_len rb"
| "consumer_ok rb (C_Clearing tail) \<longleftrightarrow> unat (tail - rb_head rb) \<le> RingBuffer_len rb"

text \<open>What was received is what was sent, in order, apart from the items that were skipped.\<close>

definition accounts_for :: "'a option list \<Rightarrow> 'a list \<Rightarrow> bool" where
  "accounts_for received xs \<longleftrightarrow> list_all2 (\<lambda>r x. r = None \<or> r = Some x) received xs"

definition history_ok :: "'a spsc \<Rightarrow> bool" where
  "history_ok s \<longleftrightarrow> (\<exists>past. sp_sent s = past @ contents (sp_rb s) \<and> accounts_for (sp_received s) past)"

definition spsc_inv :: "nat \<Rightarrow> 'a spsc \<Rightarrow> bool" where
  "spsc_inv capacity s \<longleftrightarrow> rb_ok (sp_rb s) \<and> rb_capacity (sp_rb s) = capacity \<and>
     producer_ok (sp_rb s) (sp_producer s) \<and> consumer_ok (sp_rb s) (sp_consumer s) \<and> history_ok s"

lemma accounts_for_append: "accounts_for r xs \<Longrightarrow> accounts_for r' xs' \<Longrightarrow> accounts_for (r @ r') (xs @ xs')"
  by (simp add: accounts_for_def list_all2_appendI)

lemma accounts_for_Some: "accounts_for (map Some xs) xs"
  by (simp add: accounts_for_def list_all2_conv_all_nth)

lemma accounts_for_None: "length xs = n \<Longrightarrow> accounts_for (replicate n None) xs"
  by (simp add: accounts_for_def list_all2_conv_all_nth)

lemma item_slot_mod:
  assumes "rb_ok rb" "i < rb_capacity rb"
  shows "item_slot (rb_capacity rb) (slot_of w (rb_capacity rb)) i = (slot_of w (rb_capacity rb) + i) mod rb_capacity rb"
    "item_slot (rb_capacity rb) (slot_of w (rb_capacity rb)) i < length (rb_segment rb)"
proof -
  note ok = rb_okD [OF assms(1)]
  have "slot_of w (rb_capacity rb) < rb_capacity rb" using slot_of_mod [OF ok(1)] ok(4) by simp
  then show eq: "item_slot (rb_capacity rb) (slot_of w (rb_capacity rb)) i = (slot_of w (rb_capacity rb) + i) mod rb_capacity rb"
    using assms(2) by (simp add: item_slot_def mod_wrap)
  have "(slot_of w (rb_capacity rb) + i) mod rb_capacity rb < rb_capacity rb" using ok(4) by simp
  then show "item_slot (rb_capacity rb) (slot_of w (rb_capacity rb)) i < length (rb_segment rb)" using eq ok(2) by simp
qed

text \<open>A store to a free slot leaves the contents alone.\<close>

lemma write_free_slot:
  assumes ok: "rb_ok rb" and "RingBuffer_len rb + i < rb_capacity rb"
    and "write_slice (item_slot (rb_capacity rb) (slot_of (rb_tail rb) (rb_capacity rb)) i) [x] (rb_segment rb) = Return seg"
  shows "rb_ok (rb\<lparr>rb_segment := seg\<rparr>)" "contents (rb\<lparr>rb_segment := seg\<rparr>) = contents rb"
    "seg = (rb_segment rb)[(slot_of (rb_tail rb) (rb_capacity rb) + i) mod rb_capacity rb := x]"
proof -
  let ?k = "(slot_of (rb_tail rb) (rb_capacity rb) + i) mod rb_capacity rb"
  have i: "i < rb_capacity rb" using assms(2) by simp
  have "?k < length (rb_segment rb)" using item_slot_mod [OF ok i] by simp
  then show seg: "seg = (rb_segment rb)[?k := x]"
    using assms(3) unfolding item_slot_mod(1) [OF ok i] by (simp add: write_slice_def upd_conv_take_nth_drop split: if_splits)
  show "rb_ok (rb\<lparr>rb_segment := seg\<rparr>)" using ok seg by (simp add: rb_ok_def RingBuffer_len_def)
  have "?k \<noteq> (unat (rb_head rb) + j) mod rb_capacity rb" if "j < RingBuffer_len rb" for j
    using slots_apart [OF ok that assms(2)] by metis
  then show "contents (rb\<lparr>rb_segment := seg\<rparr>) = contents rb" by (intro contents_same_slots) (simp_all add: seg)
qed

section \<open>Every step keeps the invariant\<close>

lemma consumer_ok_longer:
  assumes "consumer_ok rb c" "rb_head rb' = rb_head rb" "contents rb' = contents rb @ ys"
  shows "consumer_ok rb' c"
proof -
  have "RingBuffer_len rb \<le> RingBuffer_len rb'"
    using contents_length [of rb] contents_length [of rb'] assms(3) by simp
  then show ?thesis using assms by (cases c) auto
qed

lemma producer_ok_shorter:
  assumes "producer_ok rb p" "rb_tail rb' = rb_tail rb" "rb_segment rb' = rb_segment rb" "rb_capacity rb' = rb_capacity rb"
    "RingBuffer_len rb' \<le> RingBuffer_len rb"
  shows "producer_ok rb' p"
  using assms by (cases p) auto

lemma spsc_invD:
  assumes "spsc_inv capacity s"
  shows "rb_ok (sp_rb s)" "rb_capacity (sp_rb s) = capacity" "producer_ok (sp_rb s) (sp_producer s)"
    "consumer_ok (sp_rb s) (sp_consumer s)" "history_ok s"
  using assms by (simp_all add: spsc_inv_def)

lemma inv_push_check:
  assumes "spsc_inv capacity s" "RingBuffer_free_len (sp_rb s) = Return free" "length items \<le> free"
  shows "spsc_inv capacity (s\<lparr>sp_producer := P_Writing (rb_tail (sp_rb s)) items 0\<rparr>)"
  using assms by (auto simp: spsc_inv_def history_ok_def RingBuffer_free_len_def split: if_splits)

lemma inv_push_write:
  assumes "spsc_inv capacity s" "sp_producer s = P_Writing tail items i" "i < length items"
    "write_slice (item_slot (rb_capacity (sp_rb s)) (slot_of tail (rb_capacity (sp_rb s))) i) [items ! i]
      (rb_segment (sp_rb s)) = Return seg"
  shows "spsc_inv capacity (s\<lparr>sp_rb := (sp_rb s)\<lparr>rb_segment := seg\<rparr>, sp_producer := P_Writing tail items (Suc i)\<rparr>)"
proof -
  let ?rb = "sp_rb s" and ?cap = "rb_capacity (sp_rb s)"
  note inv = spsc_invD [OF assms(1)]
  have p: "tail = rb_tail ?rb" "RingBuffer_len ?rb + length items \<le> ?cap"
    "\<forall>j<i. rb_segment ?rb ! ((slot_of tail ?cap + j) mod ?cap) = items ! j"
    using inv(3) assms(2) by auto
  then have i: "RingBuffer_len ?rb + i < ?cap" using assms(3) by simp
  note w = write_free_slot [OF inv(1) i assms(4) [unfolded p(1)]]
  have "(slot_of tail ?cap + i) mod ?cap < length (rb_segment ?rb)"
    using item_slot_mod [OF inv(1), of i tail] i by simp
  moreover have "(slot_of tail ?cap + i) mod ?cap \<noteq> (slot_of tail ?cap + j) mod ?cap" if "j < i" for j
    using mod_add_inj [of "slot_of tail ?cap" i ?cap j] that i by auto
  ultimately have "\<forall>j<Suc i. seg ! ((slot_of tail ?cap + j) mod ?cap) = items ! j"
    using p(3) w(3) p(1) by (auto simp: less_Suc_eq)
  then have "producer_ok (?rb\<lparr>rb_segment := seg\<rparr>) (P_Writing tail items (Suc i))"
    using p assms(3) by (simp add: RingBuffer_len_def)
  moreover have "consumer_ok (?rb\<lparr>rb_segment := seg\<rparr>) (sp_consumer s)"
    by (rule consumer_ok_longer [OF inv(4), where ys = "[]"]) (simp_all add: w(2))
  ultimately show ?thesis using inv w(1,2) by (simp add: spsc_inv_def history_ok_def del: producer_ok.simps consumer_ok.simps)
qed

lemma inv_push_publish:
  assumes "spsc_inv capacity s" "sp_producer s = P_Writing tail items (length items)"
  shows "spsc_inv capacity (s\<lparr>sp_rb := advance_tail tail (length items) (sp_rb s), sp_producer := P_Idle,
    sp_sent := sp_sent s @ items\<rparr>)"
proof -
  let ?rb = "sp_rb s"
  note inv = spsc_invD [OF assms(1)]
  have p: "tail = rb_tail ?rb" "RingBuffer_len ?rb + length items \<le> rb_capacity ?rb"
    "\<And>j. j < length items \<Longrightarrow>
      rb_segment ?rb ! ((slot_of (rb_tail ?rb) (rb_capacity ?rb) + j) mod rb_capacity ?rb) = items ! j"
    using inv(3) assms(2) by auto
  note t = contents_advance_tail [OF inv(1) p(2,3), folded p(1)]
  have "consumer_ok (advance_tail tail (length items) ?rb) (sp_consumer s)"
    by (rule consumer_ok_longer [OF inv(4) _ t(1)]) (simp add: advance_tail_def)
  moreover have "rb_capacity (advance_tail tail (length items) ?rb) = capacity" using inv(2) by (simp add: advance_tail_def)
  ultimately show ?thesis using inv(5) t by (auto simp: spsc_inv_def history_ok_def)
qed

text \<open>The head moves over items that the history accounts for.\<close>

lemma inv_head_moves:
  assumes "spsc_inv capacity s" "n \<le> RingBuffer_len (sp_rb s)" "accounts_for r (take n (contents (sp_rb s)))"
  shows "spsc_inv capacity (s\<lparr>sp_rb := advance_head (rb_head (sp_rb s)) n (sp_rb s), sp_consumer := C_Idle,
    sp_received := sp_received s @ r\<rparr>)"
proof -
  let ?rb = "sp_rb s" and ?rb' = "advance_head (rb_head (sp_rb s)) n (sp_rb s)"
  note inv = spsc_invD [OF assms(1)]
  note h = contents_advance_head [OF inv(1) assms(2)]
  have "producer_ok ?rb' (sp_producer s)"
    by (rule producer_ok_shorter [OF inv(3)]) (simp_all add: len_advance_head [OF assms(2)], simp_all add: advance_head_def)
  moreover have "rb_capacity ?rb' = capacity" using inv(2) by (simp add: advance_head_def)
  moreover obtain past where past: "sp_sent s = past @ contents ?rb" "accounts_for (sp_received s) past"
    using inv(5) by (auto simp: history_ok_def)
  then have "sp_sent s = (past @ take n (contents ?rb)) @ contents ?rb'"
    "accounts_for (sp_received s @ r) (past @ take n (contents ?rb))"
    using h(1) accounts_for_append [OF past(2) assms(3)] by simp_all
  ultimately show ?thesis using h(2) unfolding spsc_inv_def history_ok_def by auto
qed

lemma inv_pop_read:
  assumes "spsc_inv capacity s" "sp_consumer s = C_Reading head n xs" "length xs < n"
    "read_slice (item_slot (rb_capacity (sp_rb s)) (slot_of head (rb_capacity (sp_rb s))) (length xs)) 1
      (rb_segment (sp_rb s)) = Return x"
  shows "spsc_inv capacity (s\<lparr>sp_consumer := C_Reading head n (xs @ x)\<rparr>)"
proof -
  let ?rb = "sp_rb s" and ?cap = "rb_capacity (sp_rb s)"
  note inv = spsc_invD [OF assms(1)]
  have c: "head = rb_head ?rb" "n \<le> RingBuffer_len ?rb" "xs = take (length xs) (contents ?rb)"
    using inv(4) assms(2) by auto
  have len: "length xs < RingBuffer_len ?rb" using c(2) assms(3) by simp
  then have cap: "length xs < ?cap" using rb_okD(3) [OF inv(1)] by simp
  let ?k = "(unat head + length xs) mod ?cap"
  have k: "item_slot ?cap (slot_of head ?cap) (length xs) = ?k" "?k < length (rb_segment ?rb)"
    using item_slot_mod [OF inv(1) cap, of head] slot_of_mod [OF rb_okD(1) [OF inv(1)]] by (simp_all add: mod_add_left_eq)
  then have "x = [rb_segment ?rb ! ?k]"
    using assms(4) by (simp add: read_slice_def take_Suc hd_drop_conv_nth split: if_splits)
  also have "rb_segment ?rb ! ?k = contents ?rb ! length xs" using len c(1) by (simp add: contents_def)
  finally have x: "x = [contents ?rb ! length xs]" .
  have "take (Suc (length xs)) (contents ?rb) = take (length xs) (contents ?rb) @ x"
    using len x by (simp add: take_Suc_conv_app_nth)
  then have "xs @ x = take (length (xs @ x)) (contents ?rb)" using c(3) x by simp
  then show ?thesis using inv c assms(3) x by (simp add: spsc_inv_def history_ok_def)
qed

lemma inv_pop_publish:
  assumes "spsc_inv capacity s" "sp_consumer s = C_Reading head n xs" "length xs = n"
  shows "spsc_inv capacity (s\<lparr>sp_rb := advance_head head n (sp_rb s), sp_consumer := C_Idle,
    sp_received := sp_received s @ map Some xs\<rparr>)"
proof -
  have "head = rb_head (sp_rb s)" "n \<le> RingBuffer_len (sp_rb s)" "xs = take n (contents (sp_rb s))"
    using spsc_invD(4) [OF assms(1)] assms(2,3) by auto
  then show ?thesis using inv_head_moves [OF assms(1), of n "map Some xs"] accounts_for_Some [of xs] by simp
qed

lemma inv_skip_publish:
  assumes "spsc_inv capacity s" "sp_consumer s = C_Skipping head n"
  shows "spsc_inv capacity (s\<lparr>sp_rb := advance_head head n (sp_rb s), sp_consumer := C_Idle,
    sp_received := sp_received s @ replicate n None\<rparr>)"
proof -
  have "head = rb_head (sp_rb s)" "n \<le> RingBuffer_len (sp_rb s)" using spsc_invD(4) [OF assms(1)] assms(2) by auto
  then show ?thesis
    using inv_head_moves [OF assms(1), of n "replicate n None"] accounts_for_None [of "take n (contents (sp_rb s))" n] by simp
qed

lemma inv_clear_store:
  assumes "spsc_inv capacity s" "sp_consumer s = C_Clearing tail"
  shows "spsc_inv capacity (s\<lparr>sp_rb := (sp_rb s)\<lparr>rb_head := tail\<rparr>, sp_consumer := C_Idle,
    sp_received := sp_received s @ replicate (unat (tail - rb_head (sp_rb s))) None\<rparr>)"
proof -
  let ?n = "unat (tail - rb_head (sp_rb s))"
  have n: "?n \<le> RingBuffer_len (sp_rb s)" using spsc_invD(4) [OF assms(1)] assms(2) by simp
  have "(sp_rb s)\<lparr>rb_head := tail\<rparr> = advance_head (rb_head (sp_rb s)) ?n (sp_rb s)" by (simp add: advance_head_def)
  then show ?thesis
    using inv_head_moves [OF assms(1) n, of "replicate ?n None"] accounts_for_None [of "take ?n (contents (sp_rb s))" ?n] n
    by simp
qed

interpretation spsc: step_system "spsc_init capacity" spsc_step "spsc_inv capacity" for capacity
proof
  show "spsc_inv capacity s" if "spsc_init capacity s" for s :: "'a spsc"
    using that by (auto simp: spsc_init_def spsc_start_def spsc_inv_def history_ok_def rb_queue_def accounts_for_def)
  show "spsc_inv capacity t" if "spsc_inv capacity s" "spsc_step s t" for s t :: "'a spsc"
    using that(2)
  proof cases
    case push_check
    then show ?thesis using inv_push_check [OF that(1)] by simp
  next
    case push_write
    then show ?thesis using inv_push_write [OF that(1)] by simp
  next
    case push_publish
    then show ?thesis using inv_push_publish [OF that(1)] by simp
  next
    case pop_read
    then show ?thesis using inv_pop_read [OF that(1)] by simp
  next
    case pop_publish
    then show ?thesis using inv_pop_publish [OF that(1)] by simp
  next
    case skip_publish
    then show ?thesis using inv_skip_publish [OF that(1)] by simp
  next
    case clear_store
    then show ?thesis using inv_clear_store [OF that(1)] by simp
  qed (use that(1) in \<open>simp_all add: spsc_inv_def history_ok_def RingBuffer_len_def\<close>)
qed

section \<open>An operation that is not interrupted\<close>

text \<open>The steps of one side alone, from any point of its operation: none of them panics.\<close>

lemma push_writes:
  assumes "spsc_inv capacity s" "sp_producer s = P_Writing tail items i"
  shows "\<exists>seg. (spsc_step ^^ (length items - i)) s
      (s\<lparr>sp_rb := (sp_rb s)\<lparr>rb_segment := seg\<rparr>, sp_producer := P_Writing tail items (length items)\<rparr>) \<and>
    length seg = length (rb_segment (sp_rb s)) \<and>
    (\<forall>k<length seg. (\<forall>j<length items. k \<noteq> (slot_of tail capacity + j) mod capacity) \<longrightarrow> seg ! k = rb_segment (sp_rb s) ! k)"
  using assms
proof (induction "length items - i" arbitrary: s i)
  case 0
  have "i \<le> length items" using spsc_invD(3) [OF 0(2)] 0(3) by simp
  then have "i = length items" using 0(1) by simp
  moreover have "s\<lparr>sp_rb := sp_rb s, sp_producer := P_Writing tail items i\<rparr> = s" using 0(3) by simp
  ultimately show ?case using 0(3) by (intro exI [of _ "rb_segment (sp_rb s)"]) simp
next
  case (Suc d)
  let ?rb = "sp_rb s" and ?k = "item_slot capacity (slot_of tail capacity) i"
  note inv = spsc_invD [OF Suc.prems(1)]
  have i: "i < length items" using Suc.hyps(2) by simp
  have cap: "i < rb_capacity ?rb" using inv(3) Suc.prems(2) i by simp
  note k = item_slot_mod [OF inv(1) cap, of tail, unfolded inv(2)]
  have w: "write_slice ?k [items ! i] (rb_segment ?rb) = Return ((rb_segment ?rb)[?k := items ! i])"
    using k(2) by (simp add: write_slice_def upd_conv_take_nth_drop)
  let ?t = "s\<lparr>sp_rb := ?rb\<lparr>rb_segment := (rb_segment ?rb)[?k := items ! i]\<rparr>, sp_producer := P_Writing tail items (Suc i)\<rparr>"
  have step: "spsc_step s ?t" by (rule push_write [OF Suc.prems(2) i]) (simp add: inv(2) w)
  have "spsc_inv capacity ?t" by (rule inv_push_write [OF Suc.prems(1,2) i]) (simp add: inv(2) w)
  moreover have "d = length items - Suc i" using Suc.hyps(2) by simp
  ultimately
  obtain seg where seg: "(spsc_step ^^ (length items - Suc i)) ?t
      (s\<lparr>sp_rb := ?rb\<lparr>rb_segment := seg\<rparr>, sp_producer := P_Writing tail items (length items)\<rparr>)"
    "length seg = length (rb_segment ?rb)"
    "\<forall>k<length seg. (\<forall>j<length items. k \<noteq> (slot_of tail capacity + j) mod capacity) \<longrightarrow>
      seg ! k = (rb_segment ?rb)[?k := items ! i] ! k"
    using Suc.hyps(1) [of "Suc i" ?t] by auto
  have "(spsc_step ^^ (length items - i)) s
      (s\<lparr>sp_rb := ?rb\<lparr>rb_segment := seg\<rparr>, sp_producer := P_Writing tail items (length items)\<rparr>)"
    using relpowp_Suc_I2 [of spsc_step, OF step seg(1)] i by (simp add: Suc_diff_Suc)
  moreover have "\<forall>k<length seg. (\<forall>j<length items. k \<noteq> (slot_of tail capacity + j) mod capacity) \<longrightarrow> seg ! k = rb_segment ?rb ! k"
    using seg(3) k(1) i by (metis nth_list_update_neq)
  ultimately show ?case using seg(2) by blast
qed

lemma inv_relpowp: "(spsc_step ^^ n) s t \<Longrightarrow> spsc_inv capacity s \<Longrightarrow> spsc_inv capacity t"
proof (induction n arbitrary: t)
  case (Suc n)
  then show ?case using spsc.invar_step by (auto elim!: relcomppE)
qed simp

lemma push_finishes:
  assumes "spsc_inv capacity s" "sp_producer s = P_Writing tail items i"
  obtains rb' where "(spsc_step ^^ Suc (length items - i)) s
      (s\<lparr>sp_rb := rb', sp_producer := P_Idle, sp_sent := sp_sent s @ items\<rparr>)"
proof -
  obtain seg where seg: "(spsc_step ^^ (length items - i)) s
      (s\<lparr>sp_rb := (sp_rb s)\<lparr>rb_segment := seg\<rparr>, sp_producer := P_Writing tail items (length items)\<rparr>)"
    using push_writes [OF assms] by blast
  from push_publish [of "s\<lparr>sp_rb := (sp_rb s)\<lparr>rb_segment := seg\<rparr>, sp_producer := P_Writing tail items (length items)\<rparr>"]
  have "(spsc_step ^^ Suc (length items - i)) s (s\<lparr>sp_rb := advance_tail tail (length items) ((sp_rb s)\<lparr>rb_segment := seg\<rparr>),
      sp_producer := P_Idle, sp_sent := sp_sent s @ items\<rparr>)"
    by (intro relpowp_Suc_I [OF seg]) simp
  then show thesis by (rule that)
qed

lemma pop_reads:
  assumes "spsc_inv capacity s" "sp_consumer s = C_Reading head n xs"
  shows "(spsc_step ^^ (n - length xs)) s (s\<lparr>sp_consumer := C_Reading head n (take n (contents (sp_rb s)))\<rparr>)"
  using assms
proof (induction "n - length xs" arbitrary: s xs)
  case 0
  have "length xs = n" "xs = take (length xs) (contents (sp_rb s))" using spsc_invD(4) [OF 0(2)] 0(1,3) by auto
  then have "s\<lparr>sp_consumer := C_Reading head n (take n (contents (sp_rb s)))\<rparr> = s" using 0(3) by simp
  then show ?case using 0(1) by simp
next
  case (Suc d)
  let ?rb = "sp_rb s"
  note inv = spsc_invD [OF Suc.prems(1)]
  have xs: "length xs < n" using Suc.hyps(2) by simp
  then have "length xs < rb_capacity ?rb" using inv(4) Suc.prems(2) rb_okD(3) [OF inv(1)] by auto
  note k = item_slot_mod [OF inv(1) this, of head]
  let ?x = "rb_segment ?rb ! item_slot (rb_capacity ?rb) (slot_of head (rb_capacity ?rb)) (length xs)"
  let ?t = "s\<lparr>sp_consumer := C_Reading head n (xs @ [?x])\<rparr>"
  have r: "read_slice (item_slot (rb_capacity ?rb) (slot_of head (rb_capacity ?rb)) (length xs)) 1 (rb_segment ?rb) = Return [?x]"
    using k(2) by (simp add: read_slice_def take_Suc hd_drop_conv_nth)
  have step: "spsc_step s ?t" by (rule pop_read [OF Suc.prems(2) xs r])
  have "spsc_inv capacity ?t" by (rule inv_pop_read [OF Suc.prems(1,2) xs r])
  moreover have "d = n - length (xs @ [?x])" using Suc.hyps(2) by simp
  ultimately have "(spsc_step ^^ (n - Suc (length xs))) ?t (s\<lparr>sp_consumer := C_Reading head n (take n (contents ?rb))\<rparr>)"
    using Suc.hyps(1) [of "xs @ [?x]" ?t] by simp
  then have "(spsc_step ^^ Suc (n - Suc (length xs))) s (s\<lparr>sp_consumer := C_Reading head n (take n (contents ?rb))\<rparr>)"
    by (rule relpowp_Suc_I2 [of spsc_step, OF step])
  then show ?case using xs by (simp add: Suc_diff_Suc)
qed

lemma pop_finishes:
  assumes "spsc_inv capacity s" "sp_consumer s = C_Reading head n xs"
  shows "(spsc_step ^^ Suc (n - length xs)) s (s\<lparr>sp_rb := advance_head head n (sp_rb s), sp_consumer := C_Idle,
    sp_received := sp_received s @ map Some (take n (contents (sp_rb s)))\<rparr>)"
proof -
  let ?t = "s\<lparr>sp_consumer := C_Reading head n (take n (contents (sp_rb s)))\<rparr>"
  have "n \<le> RingBuffer_len (sp_rb s)" using spsc_invD(4) [OF assms(1)] assms(2) by simp
  then have "spsc_step ?t (?t\<lparr>sp_rb := advance_head head n (sp_rb ?t), sp_consumer := C_Idle,
    sp_received := sp_received ?t @ map Some (take n (contents (sp_rb s)))\<rparr>)"
    by (intro pop_publish) simp_all
  then show ?thesis by (intro relpowp_Suc_I [OF pop_reads [OF assms]]) simp
qed

text \<open>A push alone leaves the buffer \<open>push_slice\<close> leaves.\<close>

lemma push_alone:
  assumes "spsc_inv capacity s" "sp_producer s = P_Idle" "Producer_push_slice items (sp_rb s) = Return (Some (), rb')"
  shows "(spsc_step ^^ (length items + 2)) s (s\<lparr>sp_rb := rb', sp_producer := P_Idle, sp_sent := sp_sent s @ items\<rparr>)"
proof -
  let ?rb = "sp_rb s" and ?n = "length items"
  let ?off = "slot_of (rb_tail ?rb) capacity"
  let ?s = "s\<lparr>sp_producer := P_Writing (rb_tail ?rb) items 0\<rparr>"
  note inv = spsc_invD [OF assms(1)]
  note ok = rb_okD [OF inv(1), unfolded inv(2)]
  have free: "RingBuffer_free_len ?rb = Return (capacity - RingBuffer_len ?rb)" using ok(3) inv(2) by (simp add: RingBuffer_free_len_def)
  obtain seg where push: "?n \<le> capacity - RingBuffer_len ?rb" "write_wrapped capacity ?off items (rb_segment ?rb) = Return seg"
    "rb' = advance_tail (rb_tail ?rb) ?n (?rb\<lparr>rb_segment := seg\<rparr>)"
    using assms(3) free by (auto simp: Producer_push_slice_def write_wrapped_def Let_def inv(2) split: if_splits)
  have check: "spsc_step s ?s" "spsc_inv capacity ?s"
    using push_check [OF assms(2) free push(1)] inv_push_check [OF assms(1) free push(1)] by simp_all
  obtain seg' where w: "(spsc_step ^^ ?n) ?s (?s\<lparr>sp_rb := ?rb\<lparr>rb_segment := seg'\<rparr>, sp_producer := P_Writing (rb_tail ?rb) items ?n\<rparr>)"
    "length seg' = length (rb_segment ?rb)"
    "\<forall>k<length seg'. (\<forall>j<length items. k \<noteq> (?off + j) mod capacity) \<longrightarrow> seg' ! k = rb_segment ?rb ! k"
    using push_writes [OF check(2), of "rb_tail ?rb" items 0] by auto
  have "spsc_inv capacity (?s\<lparr>sp_rb := ?rb\<lparr>rb_segment := seg'\<rparr>, sp_producer := P_Writing (rb_tail ?rb) items ?n\<rparr>)"
    by (rule inv_relpowp [OF w(1) check(2)])
  from spsc_invD(3) [OF this] inv(2) have items: "\<forall>j<?n. seg' ! ((?off + j) mod capacity) = items ! j" by simp
  have off: "?off < capacity" using slot_of_mod [OF ok(1)] ok(4) by simp
  have n: "?n \<le> capacity" using push(1) by simp
  obtain seg2 where seg2: "write_wrapped capacity ?off items (rb_segment ?rb) = Return seg2" "length seg2 = length (rb_segment ?rb)"
    "\<And>i. i < ?n \<Longrightarrow> seg2 ! ((?off + i) mod capacity) = items ! i"
    "\<And>i. i < capacity \<Longrightarrow> ?n \<le> i \<Longrightarrow> seg2 ! ((?off + i) mod capacity) = rb_segment ?rb ! ((?off + i) mod capacity)"
    "\<And>j. capacity \<le> j \<Longrightarrow> j < length (rb_segment ?rb) \<Longrightarrow> seg2 ! j = rb_segment ?rb ! j"
    using write_wrapped_nth [OF ok(2) off n] by metis
  have "seg' = seg2"
  proof (rule nth_equalityI)
    show "length seg' = length seg2" using w(2) seg2(2) by simp
    fix k assume k: "k < length seg'"
    have untouched: "seg' ! k = rb_segment ?rb ! k" if "\<forall>j<?n. k \<noteq> (?off + j) mod capacity" using w(3) k that by blast
    show "seg' ! k = seg2 ! k"
    proof (cases "k < capacity")
      case True
      then obtain i where i: "i < capacity" "k = (?off + i) mod capacity" by (rule slot_cases)
      show ?thesis
      proof (cases "i < ?n")
        case True
        then show ?thesis using items seg2(3) i(2) by simp
      next
        case False
        then have "\<forall>j<?n. k \<noteq> (?off + j) mod capacity" unfolding i(2) using mod_add_inj i(1) n
          by (metis less_le_trans)
        then show ?thesis using untouched seg2(4) [OF i(1)] i(2) False by simp
      qed
    next
      case False
      then have "\<forall>j<?n. k \<noteq> (?off + j) mod capacity" using mod_less_divisor [OF ok(4)] by auto
      then show ?thesis using untouched seg2(5) [of k] False k w(2) by simp
    qed
  qed
  then have "seg' = seg" using push(2) seg2(1) by simp
  then have "spsc_step (?s\<lparr>sp_rb := ?rb\<lparr>rb_segment := seg'\<rparr>, sp_producer := P_Writing (rb_tail ?rb) items ?n\<rparr>)
      (s\<lparr>sp_rb := rb', sp_producer := P_Idle, sp_sent := sp_sent s @ items\<rparr>)"
    using push_publish [of "?s\<lparr>sp_rb := ?rb\<lparr>rb_segment := seg'\<rparr>, sp_producer := P_Writing (rb_tail ?rb) items ?n\<rparr>"] push(3) assms(2)
    by simp
  then show ?thesis using relpowp_Suc_I2 [of spsc_step, OF check(1) relpowp_Suc_I [OF w(1)]] by simp
qed

section \<open>Properties\<close>

text \<open>C11. A new ring buffer answers every sequence of pushes, pops, skips and clears as a bounded queue of
  the given capacity does: items come out in the order they went in, a slice goes in or comes out as a
  whole or not at all, and only a skip of more items than there are panics.\<close>

theorem ring_buffer_serves_fifo:
  assumes "RingBuffer_new alloc_segment t_size capacity = Return rb" "0 < t_size"
    and "\<And>n seg. alloc_segment n = Some seg \<Longrightarrow> length seg = n * 4096 div t_size"
  shows "case run_ops rb_apply ops rb of
      Return (answers, rb') \<Rightarrow> run_ops fifo_apply ops (capacity, []) = Return (answers, capacity, contents rb')
    | Panic \<Rightarrow> run_ops fifo_apply ops (capacity, []) = Panic"
proof -
  note new = RingBuffer_new_ok [OF assms]
  have same: "fst (snd r) = cap" if "fifo_apply x (cap, xs) = Return r" for x :: "'a rb_op" and cap xs r
    using that by (cases x) (auto split: if_splits list.splits)
  have "fst (snd r) = cap" if "run_ops fifo_apply ops (cap, xs) = Return r" for cap and xs :: "'a list" and r
    using that by (induction ops arbitrary: xs r) (auto dest: same)
  then show ?thesis
    using ring_buffer.run_simulates [OF new(1), of ops] new(2) by (fastforce simp: rb_queue_def split: outcome.splits)
qed

definition sample_segment :: "nat \<Rightarrow> nat list option" where
  "sample_segment n = Some (replicate (n * 4096 div 2048) 0)"

theorem ring_buffer_serves_fifo_witness:
  "\<exists>rb rb'. RingBuffer_new sample_segment 2048 2 = Return rb \<and>
     run_ops rb_apply [RbPush 5, RbPop, RbPushSlice [6, 7], RbPush 8, RbPopSlice 2] rb =
       Return ([Pushed (Some ()), Popped (Some 5), Pushed (Some ()), Pushed None, PoppedSlice (Some [6, 7])], rb') \<and>
     contents rb' = []"
proof -
  let ?ops = "[RbPush 5, RbPop, RbPushSlice [6, 7], RbPush 8, RbPopSlice 2] :: nat rb_op list"
  let ?rb = "\<lparr>rb_segment = [0, 0], rb_capacity = 2, rb_tail = 0, rb_head = 0\<rparr> :: nat RingBuffer"
  have "is_power_of_two 2" by code_simp
  then have new: "RingBuffer_new sample_segment 2048 2 = Return ?rb"
    by (simp add: RingBuffer_new_def assert_that_def sample_segment_def) (simp add: numeral_2_eq_2)
  have spec: "run_ops fifo_apply ?ops (2, []) =
      Return ([Pushed (Some ()), Popped (Some 5), Pushed (Some ()), Pushed None, PoppedSlice (Some [6, 7])], 2, [])"
    by simp
  show ?thesis
    using ring_buffer_serves_fifo [OF new, of ?ops] new spec
    by (auto simp: sample_segment_def split: outcome.splits)
qed

text \<open>C4. However the steps of a producer and a consumer interleave, the items received are the items sent,
  in the order they were sent and without a duplicate or a gap other than the ones the consumer skipped;
  the items sent and not yet passed by the head are the contents, and they fit the capacity.\<close>

theorem spsc_stream:
  assumes "reachable_from (spsc_init capacity) spsc_step s"
  shows "(\<exists>past. sp_sent s = past @ contents (sp_rb s) \<and> accounts_for (sp_received s) past) \<and>
    length (contents (sp_rb s)) \<le> capacity \<and> length (sp_sent s) \<le> length (sp_received s) + capacity"
proof -
  note inv = spsc_invD [OF spsc.reachable_invar [OF assms]]
  obtain past where past: "sp_sent s = past @ contents (sp_rb s)" "accounts_for (sp_received s) past"
    using inv(5) by (auto simp: history_ok_def)
  moreover have "length (contents (sp_rb s)) \<le> capacity" using rb_okD(3) [OF inv(1)] inv(2) by simp
  moreover have "length (sp_received s) = length past" using past(2) by (auto simp: accounts_for_def dest: list_all2_lengthD)
  ultimately show ?thesis by auto
qed

text \<open>An empty buffer whose counters are about to wrap.\<close>

definition wrapping_rb :: "nat RingBuffer" where
  "wrapping_rb = \<lparr>rb_segment = [0, 0], rb_capacity = 2, rb_tail = - 1, rb_head = - 1\<rparr>"

definition wrapped_rb :: "nat RingBuffer" where
  "wrapped_rb = \<lparr>rb_segment = [8, 7], rb_capacity = 2, rb_tail = 1, rb_head = - 1\<rparr>"

lemma wrapping_init: "reachable_from (spsc_init 2) spsc_step (spsc_start wrapping_rb)"
proof (rule reachable_from.intros)
  have "is_power_of_two 2" by code_simp
  then show "spsc_init 2 (spsc_start wrapping_rb)"
    by (auto simp: spsc_init_def wrapping_rb_def rb_ok_def RingBuffer_len_def rb_queue_def contents_def)
qed

lemma wrapping_push: "Producer_push_slice [7, 8] wrapping_rb = Return (Some (), wrapped_rb)"
  by code_simp

definition wrapped_state :: "nat spsc" where
  "wrapped_state = \<lparr>sp_rb = wrapped_rb, sp_producer = P_Idle, sp_consumer = C_Idle, sp_sent = [7, 8], sp_received = []\<rparr>"

lemma wrapped_reachable: "reachable_from (spsc_init 2) spsc_step wrapped_state"
proof -
  have "(spsc_step ^^ 4) (spsc_start wrapping_rb) wrapped_state"
    using push_alone [OF spsc.reachable_invar [OF wrapping_init], of "[7, 8]" wrapped_rb] wrapping_push
    by (simp add: spsc_start_def wrapped_state_def eval_nat_numeral)
  with wrapping_init show ?thesis by (rule reachable_relpowp)
qed

lemma wrapped_contents: "contents wrapped_rb = [7, 8]"
  by code_simp

theorem spsc_stream_witness: "\<exists>past. sp_sent wrapped_state = past @ [7, 8] \<and> accounts_for (sp_received wrapped_state) past"
  using spsc_stream [OF wrapped_reachable] by (simp add: wrapped_state_def wrapped_contents)

text \<open>C25. Neither side waits for the other. A push that passed its check completes in one step per item left
  and one more, a pop likewise, without a step of the other side, and what they leave is the history
  extended by their items; the check itself cannot underflow, although the other side moves its counter.\<close>

theorem spsc_wait_free:
  assumes "reachable_from (spsc_init capacity) spsc_step s"
  shows "RingBuffer_free_len (sp_rb s) \<noteq> Panic \<and>
    (\<forall>tail items i. sp_producer s = P_Writing tail items i \<longrightarrow> (\<exists>rb'. (spsc_step ^^ Suc (length items - i)) s
       (s\<lparr>sp_rb := rb', sp_producer := P_Idle, sp_sent := sp_sent s @ items\<rparr>))) \<and>
    (\<forall>head n xs. sp_consumer s = C_Reading head n xs \<longrightarrow> (spsc_step ^^ Suc (n - length xs)) s
       (s\<lparr>sp_rb := advance_head head n (sp_rb s), sp_consumer := C_Idle,
         sp_received := sp_received s @ map Some (take n (contents (sp_rb s)))\<rparr>))"
proof (intro conjI allI impI)
  note inv = spsc.reachable_invar [OF assms]
  show "RingBuffer_free_len (sp_rb s) \<noteq> Panic"
    using rb_okD(3) [OF spsc_invD(1) [OF inv]] by (simp add: RingBuffer_free_len_def)
  show "\<exists>rb'. (spsc_step ^^ Suc (length items - i)) s (s\<lparr>sp_rb := rb', sp_producer := P_Idle, sp_sent := sp_sent s @ items\<rparr>)"
    if "sp_producer s = P_Writing tail items i" for tail items i
    using push_finishes [OF inv that] by metis
  show "(spsc_step ^^ Suc (n - length xs)) s (s\<lparr>sp_rb := advance_head head n (sp_rb s), sp_consumer := C_Idle,
      sp_received := sp_received s @ map Some (take n (contents (sp_rb s)))\<rparr>)" if "sp_consumer s = C_Reading head n xs" for head n xs
    using pop_finishes [OF inv that] .
qed

theorem spsc_wait_free_witness:
  "\<exists>s rb'. sp_producer s = P_Writing (- 1) [7, 8 :: nat] 0 \<and> reachable_from (spsc_init 2) spsc_step s \<and>
     (spsc_step ^^ 3) s (s\<lparr>sp_rb := rb', sp_producer := P_Idle, sp_sent := [7, 8]\<rparr>)"
proof -
  let ?s = "(spsc_start wrapping_rb)\<lparr>sp_producer := P_Writing (rb_tail wrapping_rb) [7, 8] 0\<rparr>"
  have "spsc_step (spsc_start wrapping_rb) ?s"
    using push_check [of "spsc_start wrapping_rb" 2 "[7, 8]"]
    by (simp add: spsc_start_def wrapping_rb_def RingBuffer_free_len_def RingBuffer_len_def)
  with wrapping_init have r: "reachable_from (spsc_init 2) spsc_step ?s" by (rule reach_step)
  have p: "sp_producer ?s = P_Writing (- 1) [7, 8] 0" "sp_sent ?s = []" by (simp_all add: wrapping_rb_def spsc_start_def)
  then obtain rb' where "(spsc_step ^^ Suc (length [7, 8 :: nat] - 0)) ?s
      (?s\<lparr>sp_rb := rb', sp_producer := P_Idle, sp_sent := sp_sent ?s @ [7, 8]\<rparr>)"
    using spsc_wait_free [OF r] by blast
  then have "(spsc_step ^^ 3) ?s (?s\<lparr>sp_rb := rb', sp_producer := P_Idle, sp_sent := [7, 8]\<rparr>)"
    unfolding p(2) by (simp add: numeral_3_eq_3)
  then show ?thesis using r p(1) by blast
qed

end
