(* ===== verification/Wait_Queue.thy ===== *)
theory Wait_Queue
  imports Kernel_Prelude "HOL-Library.Word"
begin

text \<open>
  Wait queues, \<open>ostd/src/sync/wait.rs\<close>. A waker is an identity; whether it has been woken since its
  waiter last looked is a flag per waker. The operations here are the parts that run under the lock of the
  queue or as one atomic instruction; the components that wait interleave them.
\<close>

section \<open>The model\<close>

record 'w WaitQueue =
  num_wakers :: "32 word"
  wakers :: "'w list"

definition WaitQueue_new :: "'w WaitQueue" where
  "WaitQueue_new = \<lparr>num_wakers = 0, wakers = []\<rparr>"

definition WaitQueue_is_empty :: "'w WaitQueue \<Rightarrow> bool" where
  "WaitQueue_is_empty self \<longleftrightarrow> num_wakers self = 0"

definition WaitQueue_enqueue :: "'w \<Rightarrow> 'w WaitQueue \<Rightarrow> 'w WaitQueue" where
  "WaitQueue_enqueue waker self = \<lparr>num_wakers = num_wakers self + 1, wakers = wakers self @ [waker]\<rparr>"

text \<open>What \<open>wake_one\<close> and \<open>wake_all\<close> do under the lock: one waker leaves the queue.\<close>

definition WaitQueue_pop :: "'w WaitQueue \<Rightarrow> ('w \<times> 'w WaitQueue) option" where
  "WaitQueue_pop self =
     (case wakers self of
        [] \<Rightarrow> None
      | waker # rest \<Rightarrow> Some (waker, \<lparr>num_wakers = num_wakers self - 1, wakers = rest\<rparr>))"

text \<open>
  A waker: \<open>wake_up\<close> answers whether it is the one that wakes; \<open>close\<close> makes later wake-ups no-ops;
  \<open>do_wait\<close> returns once the flag is set, clearing it.
\<close>

definition Waiter_new_pair :: "'w \<Rightarrow> ('w \<Rightarrow> bool) \<Rightarrow> 'w \<Rightarrow> bool" where
  "Waiter_new_pair waker has_woken = has_woken(waker := False)"

definition Waker_wake_up :: "'w \<Rightarrow> ('w \<Rightarrow> bool) \<Rightarrow> bool \<times> ('w \<Rightarrow> bool)" where
  "Waker_wake_up waker has_woken = (\<not> has_woken waker, has_woken(waker := True))"

definition Waker_do_wait :: "'w \<Rightarrow> ('w \<Rightarrow> bool) \<Rightarrow> ('w \<Rightarrow> bool) option" where
  "Waker_do_wait waker has_woken = (if has_woken waker then Some (has_woken(waker := False)) else None)"

definition Waker_close :: "'w \<Rightarrow> ('w \<Rightarrow> bool) \<Rightarrow> 'w \<Rightarrow> bool" where
  "Waker_close waker has_woken = has_woken(waker := True)"

text \<open>The two loops, not interrupted.\<close>

function wake_loop :: "bool \<Rightarrow> 'w WaitQueue \<Rightarrow> ('w \<Rightarrow> bool) \<Rightarrow> nat \<Rightarrow> nat \<times> 'w WaitQueue \<times> ('w \<Rightarrow> bool)" where
  "wake_loop all self has_woken num_woken =
     (case WaitQueue_pop self of
        None \<Rightarrow> (num_woken, self, has_woken)
      | Some (waker, self) \<Rightarrow>
          let (woke, has_woken) = Waker_wake_up waker has_woken in
          if woke \<and> \<not> all then (num_woken + 1, self, has_woken)
          else wake_loop all self has_woken (if woke then num_woken + 1 else num_woken))"
  by pat_completeness auto
termination
  by (relation "measure (\<lambda>(all, self, has_woken, num_woken). length (wakers self))")
    (auto simp: WaitQueue_pop_def split: list.splits)

declare wake_loop.simps [simp del]

definition WaitQueue_wake_one :: "'w WaitQueue \<Rightarrow> ('w \<Rightarrow> bool) \<Rightarrow> bool \<times> 'w WaitQueue \<times> ('w \<Rightarrow> bool)" where
  "WaitQueue_wake_one self has_woken =
     (if WaitQueue_is_empty self then (False, self, has_woken)
      else let (n, self, has_woken) = wake_loop False self has_woken 0 in (n \<noteq> 0, self, has_woken))"

definition WaitQueue_wake_all :: "'w WaitQueue \<Rightarrow> ('w \<Rightarrow> bool) \<Rightarrow> nat \<times> 'w WaitQueue \<times> ('w \<Rightarrow> bool)" where
  "WaitQueue_wake_all self has_woken =
     (if WaitQueue_is_empty self then (0, self, has_woken) else wake_loop True self has_woken 0)"

section \<open>The queue and its counter\<close>

definition queue_ok :: "'w WaitQueue \<Rightarrow> bool" where
  "queue_ok q \<longleftrightarrow> num_wakers q = word_of_nat (length (wakers q)) \<and> length (wakers q) < 2 ^ 32"

lemma queue_ok_new: "queue_ok WaitQueue_new"
  by (simp add: queue_ok_def WaitQueue_new_def)

lemma is_empty_iff: "queue_ok q \<Longrightarrow> WaitQueue_is_empty q \<longleftrightarrow> wakers q = []"
proof -
  assume "queue_ok q"
  then have q: "num_wakers q = word_of_nat (length (wakers q))" "length (wakers q) < 2 ^ 32" by (simp_all add: queue_ok_def)
  then have "unat (num_wakers q) = length (wakers q)" by (simp add: unsigned_of_nat take_bit_nat_eq_self)
  then show ?thesis unfolding WaitQueue_is_empty_def by (metis length_0_conv unat_eq_zero)
qed

lemma enqueue_ok: "queue_ok q \<Longrightarrow> length (wakers q) < 2 ^ 32 - 1 \<Longrightarrow> queue_ok (WaitQueue_enqueue w q)"
  by (simp add: queue_ok_def WaitQueue_enqueue_def)

lemma pop_ok: "queue_ok q \<Longrightarrow> WaitQueue_pop q = Some (w, q') \<Longrightarrow> queue_ok q' \<and> wakers q = w # wakers q'"
  by (auto simp: queue_ok_def WaitQueue_pop_def split: list.splits)

lemma pop_None: "WaitQueue_pop q = None \<longleftrightarrow> wakers q = []"
  by (simp add: WaitQueue_pop_def split: list.splits)

lemma wakers_enqueue [simp]: "wakers (WaitQueue_enqueue w q) = wakers q @ [w]"
  by (simp add: WaitQueue_enqueue_def)

lemma wake_loop_all:
  "wake_loop True q woken n = (n', q', woken') \<Longrightarrow> wakers q' = [] \<and> woken' = (\<lambda>w. woken w \<or> w \<in> set (wakers q))"
proof (induction True q woken n arbitrary: n' q' woken' rule: wake_loop.induct)
  case (1 self woken n)
  show ?case
  proof (cases "WaitQueue_pop self")
    case None
    then have "wakers self = []" by (simp add: pop_None)
    then show ?thesis using 1(2) None by (auto simp: wake_loop.simps [of _ self])
  next
    case (Some r)
    then obtain w q where r: "WaitQueue_pop self = Some (w, q)" by (cases r) auto
    then have ws: "wakers self = w # wakers q" by (auto simp: WaitQueue_pop_def split: list.splits)
    show ?thesis
      using 1(2) 1(1) [OF r refl] unfolding wake_loop.simps [of True self]
      by (fastforce simp: r Waker_wake_up_def ws Let_def split: if_splits)
  qed
qed

text \<open>\<open>wake_all\<close> empties the queue and leaves every waker that was in it woken.\<close>

lemma wake_all_wakes:
  assumes "queue_ok q" "WaitQueue_wake_all q woken = (n, q', woken')"
  shows "wakers q' = []" "woken' = (\<lambda>w. woken w \<or> w \<in> set (wakers q))"
  using assms is_empty_iff [OF assms(1)] wake_loop_all [of q woken 0 n q' woken']
  by (auto simp: WaitQueue_wake_all_def split: if_splits)

text \<open>\<open>wake_one\<close> wakes the first waker that is not woken yet, if there is one.\<close>

lemma wake_loop_one:
  "wake_loop False q woken n = (n', q', woken') \<Longrightarrow>
   (case dropWhile woken (wakers q) of
      [] \<Rightarrow> n' = n \<and> wakers q' = [] \<and> woken' = woken
    | w # ws \<Rightarrow> n' = n + 1 \<and> wakers q' = ws \<and> woken' = woken(w := True))"
proof (induction "wakers q" arbitrary: q)
  case Nil
  then show ?case by (simp add: wake_loop.simps [of _ q] WaitQueue_pop_def split: list.splits)
next
  case (Cons w ws)
  let ?q = "\<lparr>num_wakers = num_wakers q - 1, wakers = ws\<rparr>"
  have pop: "WaitQueue_pop q = Some (w, ?q)" using Cons.hyps(2) by (simp add: WaitQueue_pop_def flip: Cons.hyps(2))
  show ?case
  proof (cases "woken w")
    case True
    then have "wake_loop False q woken n = wake_loop False ?q woken n"
      by (simp add: wake_loop.simps [of _ q] pop Waker_wake_up_def fun_upd_idem)
    then show ?thesis using Cons.hyps(1) [of ?q] Cons.prems True by (simp flip: Cons.hyps(2))
  next
    case False
    then show ?thesis using Cons.prems by (auto simp: wake_loop.simps [of _ q] pop Waker_wake_up_def simp flip: Cons.hyps(2))
  qed
qed

lemma wake_one_wakes:
  assumes "queue_ok q" "WaitQueue_wake_one q woken = (r, q', woken')"
  shows "case dropWhile woken (wakers q) of
      [] \<Rightarrow> \<not> r \<and> wakers q' = [] \<and> woken' = woken
    | w # ws \<Rightarrow> r \<and> wakers q' = ws \<and> woken' = woken(w := True)"
proof (cases "WaitQueue_is_empty q")
  case True
  then show ?thesis using assms is_empty_iff [OF assms(1)] by (simp add: WaitQueue_wake_one_def)
next
  case False
  obtain n x y where l: "wake_loop False q woken 0 = (n, x, y)" by (metis prod_cases3)
  then show ?thesis using wake_loop_one [OF l] assms(2) False
    by (cases "dropWhile woken (wakers q)") (auto simp: WaitQueue_wake_one_def simp del: dropWhile_eq_Nil_conv)
qed

end
