(* ===== verification/Mutex_Lock.thy ===== *)
theory Mutex_Lock
  imports Wait_Queue
begin

text \<open>
  The sleeping mutex, \<open>ostd/src/sync/mutex.rs\<close>, with the waiting of \<open>WaitQueue::wait_until\<close>. A user is one
  call of \<open>lock\<close> or \<open>try_lock\<close> together with the guard it returns; users take steps of one atomic
  instruction, or of one critical section of the queue's spin lock, in any order.
\<close>

section \<open>The model\<close>

definition Mutex_new :: bool where
  "Mutex_new = False"

definition Mutex_acquire_lock :: "bool \<Rightarrow> bool \<times> bool" where
  "Mutex_acquire_lock lock = (if lock = False then (True, True) else (False, lock))"

definition Mutex_release_lock :: "bool \<Rightarrow> bool" where
  "Mutex_release_lock lock = False"

text \<open>
  Where a user is. In \<open>lock\<close>: before the first attempt, about to enqueue its waker, about to repeat the
  attempt, asleep; with the lock but before its waiter is closed. In \<open>unlock\<close>: the lock is released,
  \<open>wake_one\<close> found wakers and is about to take the first one, and has taken one but not woken it yet.
\<close>

datatype mutex_phase = M_Start | M_Retry | M_Enqueued | M_Waiting | M_Acquired | M_Holding
  | M_Released | M_Scanning | M_Waking nat | M_Done

record mutex_state =
  mx_lock :: bool
  mx_queue :: "nat WaitQueue"
  mx_woken :: "nat \<Rightarrow> bool"
  mx_phase :: "nat \<Rightarrow> mutex_phase"

abbreviation mx_set :: "nat \<Rightarrow> mutex_phase \<Rightarrow> mutex_state \<Rightarrow> mutex_state" where
  "mx_set a p s \<equiv> s\<lparr>mx_phase := (mx_phase s)(a := p)\<rparr>"

inductive mutex_step :: "mutex_state \<Rightarrow> mutex_state \<Rightarrow> bool" where
  lock_first: "mx_phase s a = M_Start \<Longrightarrow> Mutex_acquire_lock (mx_lock s) = (True, lock) \<Longrightarrow>
    mutex_step s (mx_set a M_Holding (s\<lparr>mx_lock := lock\<rparr>))"
| try_lock_fails: "mx_phase s a = M_Start \<Longrightarrow> Mutex_acquire_lock (mx_lock s) = (False, lock) \<Longrightarrow>
    mutex_step s (mx_set a M_Done s)"
| lock_first_fails: "mx_phase s a = M_Start \<Longrightarrow> Mutex_acquire_lock (mx_lock s) = (False, lock) \<Longrightarrow>
    mutex_step s (mx_set a M_Retry (s\<lparr>mx_woken := Waiter_new_pair a (mx_woken s)\<rparr>))"
| enqueues: "mx_phase s a = M_Retry \<Longrightarrow> length (wakers (mx_queue s)) < 2 ^ 32 - 1 \<Longrightarrow>
    mutex_step s (mx_set a M_Enqueued (s\<lparr>mx_queue := WaitQueue_enqueue a (mx_queue s)\<rparr>))"
| lock_again: "mx_phase s a = M_Enqueued \<Longrightarrow> Mutex_acquire_lock (mx_lock s) = (True, lock) \<Longrightarrow>
    mutex_step s (mx_set a M_Acquired (s\<lparr>mx_lock := lock\<rparr>))"
| lock_again_fails: "mx_phase s a = M_Enqueued \<Longrightarrow> Mutex_acquire_lock (mx_lock s) = (False, lock) \<Longrightarrow>
    mutex_step s (mx_set a M_Waiting s)"
| wakes: "mx_phase s a = M_Waiting \<Longrightarrow> Waker_do_wait a (mx_woken s) = Some woken \<Longrightarrow>
    mutex_step s (mx_set a M_Retry (s\<lparr>mx_woken := woken\<rparr>))"
| closes: "mx_phase s a = M_Acquired \<Longrightarrow>
    mutex_step s (mx_set a M_Holding (s\<lparr>mx_woken := Waker_close a (mx_woken s)\<rparr>))"
| unlock: "mx_phase s a = M_Holding \<Longrightarrow>
    mutex_step s (mx_set a M_Released (s\<lparr>mx_lock := Mutex_release_lock (mx_lock s)\<rparr>))"
| wake_one_check: "mx_phase s a = M_Released \<Longrightarrow>
    mutex_step s (mx_set a (if WaitQueue_is_empty (mx_queue s) then M_Done else M_Scanning) s)"
| wake_one_none: "mx_phase s a = M_Scanning \<Longrightarrow> WaitQueue_pop (mx_queue s) = None \<Longrightarrow> mutex_step s (mx_set a M_Done s)"
| wake_one_pop: "mx_phase s a = M_Scanning \<Longrightarrow> WaitQueue_pop (mx_queue s) = Some (w, queue) \<Longrightarrow>
    mutex_step s (mx_set a (M_Waking w) (s\<lparr>mx_queue := queue\<rparr>))"
| wake_one_wake: "mx_phase s a = M_Waking w \<Longrightarrow> Waker_wake_up w (mx_woken s) = (woke, woken) \<Longrightarrow>
    mutex_step s (mx_set a (if woke then M_Done else M_Scanning) (s\<lparr>mx_woken := woken\<rparr>))"

definition mutex_init :: "mutex_state \<Rightarrow> bool" where
  "mutex_init s \<longleftrightarrow> s = \<lparr>mx_lock = Mutex_new, mx_queue = WaitQueue_new, mx_woken = \<lambda>_. False, mx_phase = \<lambda>_. M_Start\<rparr>"

section \<open>The invariant\<close>

definition has_lock :: "mutex_state \<Rightarrow> nat \<Rightarrow> bool" where
  "has_lock s a \<longleftrightarrow> mx_phase s a \<in> {M_Acquired, M_Holding}"

text \<open>The waker is in the queue, or a user has taken it from there and is about to wake it.\<close>

definition reachable_waker :: "mutex_state \<Rightarrow> nat \<Rightarrow> bool" where
  "reachable_waker s a \<longleftrightarrow> a \<in> set (wakers (mx_queue s)) \<or> (\<exists>b. mx_phase s b = M_Waking a)"

definition asleep :: "mutex_state \<Rightarrow> nat \<Rightarrow> bool" where
  "asleep s a \<longleftrightarrow> mx_phase s a = M_Waiting \<and> \<not> mx_woken s a"

text \<open>A user that is going to attempt to lock, or to wake a user up.\<close>

definition active :: "mutex_state \<Rightarrow> nat \<Rightarrow> bool" where
  "active s a \<longleftrightarrow> mx_phase s a \<in> {M_Retry, M_Enqueued, M_Released, M_Scanning} \<or> (\<exists>w. mx_phase s a = M_Waking w) \<or>
     mx_phase s a = M_Waiting \<and> mx_woken s a"

definition mutex_inv :: "mutex_state \<Rightarrow> bool" where
  "mutex_inv s \<longleftrightarrow> queue_ok (mx_queue s) \<and> (mx_lock s \<longleftrightarrow> (\<exists>a. has_lock s a)) \<and>
     (\<forall>a b. has_lock s a \<and> has_lock s b \<longrightarrow> a = b) \<and>
     (\<forall>a. mx_phase s a = M_Start \<longrightarrow> \<not> reachable_waker s a) \<and>
     (\<forall>a. mx_phase s a \<in> {M_Enqueued, M_Waiting} \<and> \<not> mx_woken s a \<longrightarrow> reachable_waker s a) \<and>
     (\<forall>a. reachable_waker s a \<and> \<not> mx_woken s a \<longrightarrow> mx_phase s a \<in> {M_Retry, M_Enqueued, M_Waiting, M_Acquired}) \<and>
     (\<forall>a. \<not> mx_lock s \<and> asleep s a \<longrightarrow> (\<exists>b. active s b))"

lemmas mutex_defs = has_lock_def reachable_waker_def asleep_def active_def

lemma mutex_inv_init: "mutex_init s \<Longrightarrow> mutex_inv s"
  by (auto simp: mutex_init_def mutex_inv_def mutex_defs Mutex_new_def queue_ok_new) (simp add: WaitQueue_new_def)

lemma mutex_invD:
  assumes "mutex_inv s"
  shows "queue_ok (mx_queue s)" "mx_lock s \<longleftrightarrow> (\<exists>a. has_lock s a)" "\<And>a b. has_lock s a \<Longrightarrow> has_lock s b \<Longrightarrow> a = b"
    "\<And>a. mx_phase s a = M_Start \<Longrightarrow> \<not> reachable_waker s a"
    "\<And>a. mx_phase s a \<in> {M_Enqueued, M_Waiting} \<Longrightarrow> \<not> mx_woken s a \<Longrightarrow> reachable_waker s a"
    "\<And>a. reachable_waker s a \<Longrightarrow> \<not> mx_woken s a \<Longrightarrow> mx_phase s a \<in> {M_Retry, M_Enqueued, M_Waiting, M_Acquired}"
    "\<And>a. \<not> mx_lock s \<Longrightarrow> asleep s a \<Longrightarrow> \<exists>b. active s b"
  using assms unfolding mutex_inv_def by blast+

lemma mutex_invI:
  assumes "queue_ok (mx_queue s)" "mx_lock s \<longleftrightarrow> (\<exists>a. has_lock s a)" "\<And>a b. has_lock s a \<Longrightarrow> has_lock s b \<Longrightarrow> a = b"
    "\<And>a. mx_phase s a = M_Start \<Longrightarrow> \<not> reachable_waker s a"
    "\<And>a. mx_phase s a \<in> {M_Enqueued, M_Waiting} \<Longrightarrow> \<not> mx_woken s a \<Longrightarrow> reachable_waker s a"
    "\<And>a. reachable_waker s a \<Longrightarrow> \<not> mx_woken s a \<Longrightarrow> mx_phase s a \<in> {M_Retry, M_Enqueued, M_Waiting, M_Acquired}"
    "\<And>a. \<not> mx_lock s \<Longrightarrow> asleep s a \<Longrightarrow> \<exists>b. active s b"
  shows "mutex_inv s"
  using assms unfolding mutex_inv_def by blast

lemma acquire_iff: "Mutex_acquire_lock l = (r, l') \<longleftrightarrow> r = (\<not> l) \<and> l'"
  by (auto simp: Mutex_acquire_lock_def)

text \<open>Another user's place in the invariant after the user \<open>a\<close> moved.\<close>

lemma has_lock_move: "has_lock (mx_set a q s) x \<longleftrightarrow> (if x = a then q \<in> {M_Acquired, M_Holding} else has_lock s x)"
  by (simp add: has_lock_def)

lemma reachable_waker_move:
  "reachable_waker (mx_set a q s) w \<longleftrightarrow>
     w \<in> set (wakers (mx_queue s)) \<or> q = M_Waking w \<or> (\<exists>b. b \<noteq> a \<and> mx_phase s b = M_Waking w)"
  by (auto simp: reachable_waker_def)

lemma waking_elsewhere:
  "mx_phase s a \<noteq> M_Waking w \<Longrightarrow> (\<exists>b. b \<noteq> a \<and> mx_phase s b = M_Waking w) \<longleftrightarrow> (\<exists>b. mx_phase s b = M_Waking w)"
  by metis

text \<open>The user \<open>a\<close> moves and changes the lock and its own flag, but neither the queue nor whom it wakes.\<close>

lemma mutex_inv_move:
  assumes inv: "mutex_inv s"
    and still: "\<And>w. mx_phase s a \<noteq> M_Waking w" "\<And>w. q \<noteq> M_Waking w" "q \<noteq> M_Start"
    and lock: "lock \<longleftrightarrow> q \<in> {M_Acquired, M_Holding} \<or> (\<exists>x. x \<noteq> a \<and> has_lock s x)"
    and alone: "q \<in> {M_Acquired, M_Holding} \<Longrightarrow> \<not> (\<exists>x. x \<noteq> a \<and> has_lock s x)"
    and waits: "q \<in> {M_Enqueued, M_Waiting} \<Longrightarrow> \<not> v \<Longrightarrow> reachable_waker s a"
    and woken: "reachable_waker s a \<Longrightarrow> \<not> v \<Longrightarrow> q \<in> {M_Retry, M_Enqueued, M_Waiting, M_Acquired}"
    and act: "\<not> lock \<Longrightarrow> q \<in> {M_Retry, M_Released, M_Scanning} \<or> (\<forall>x. asleep s x \<longrightarrow> (\<exists>b. b \<noteq> a \<and> active s b)) \<and> q \<noteq> M_Waiting"
  shows "mutex_inv (mx_set a q (s\<lparr>mx_lock := lock, mx_woken := (mx_woken s)(a := v)\<rparr>))" (is "mutex_inv ?t")
proof (rule mutex_invI)
  note i = mutex_invD [OF inv]
  have h: "has_lock ?t x \<longleftrightarrow> (if x = a then q \<in> {M_Acquired, M_Holding} else has_lock s x)" for x
    by (simp add: has_lock_def)
  have r: "reachable_waker ?t w \<longleftrightarrow> reachable_waker s w" for w
    unfolding reachable_waker_def using still(1,2) by simp metis
  show "queue_ok (mx_queue ?t)" using i(1) by simp
  show "mx_lock ?t \<longleftrightarrow> (\<exists>a. has_lock ?t a)" unfolding h using lock by auto
  show "x = y" if "has_lock ?t x" "has_lock ?t y" for x y
    using that alone i(3) [of x y] unfolding h by (auto split: if_splits)
  show "\<not> reachable_waker ?t x" if "mx_phase ?t x = M_Start" for x
    unfolding r using that still(3) i(4) [of x] by (auto split: if_splits)
  show "reachable_waker ?t x" if "mx_phase ?t x \<in> {M_Enqueued, M_Waiting}" "\<not> mx_woken ?t x" for x
    unfolding r using that waits i(5) [of x] by (cases "x = a") simp_all
  show "mx_phase ?t x \<in> {M_Retry, M_Enqueued, M_Waiting, M_Acquired}" if "reachable_waker ?t x" "\<not> mx_woken ?t x" for x
    using that woken i(6) [of x] unfolding r by (cases "x = a") simp_all
  show "\<exists>b. active ?t b" if nl: "\<not> mx_lock ?t" and sl: "asleep ?t x" for x
  proof (cases "q \<in> {M_Retry, M_Released, M_Scanning}")
    case True
    then have "active ?t a" by (auto simp: active_def)
    then show ?thesis by blast
  next
    case False
    then have act': "\<forall>x. asleep s x \<longrightarrow> (\<exists>b. b \<noteq> a \<and> active s b)" "q \<noteq> M_Waiting" using act nl by auto
    then have "asleep s x" using sl by (auto simp: asleep_def split: if_splits)
    then obtain b where "b \<noteq> a" "active s b" using act'(1) by blast
    then have "active ?t b" by (simp add: active_def)
    then show ?thesis by blast
  qed
qed

lemma same_flag: "s\<lparr>mx_lock := l, mx_woken := (mx_woken s)(a := mx_woken s a)\<rparr> = s\<lparr>mx_lock := l\<rparr>"
  by (simp add: fun_upd_idem)

lemma inv_lock:
  assumes inv: "mutex_inv s" and a: "(mx_phase s a = M_Start \<and> q = M_Holding) \<or> (mx_phase s a = M_Enqueued \<and> q = M_Acquired)"
    and free: "\<not> mx_lock s"
  shows "mutex_inv (mx_set a q (s\<lparr>mx_lock := True\<rparr>))"
proof -
  note i = mutex_invD [OF inv]
  have none: "\<not> has_lock s x" for x using i(2) free by blast
  have "mutex_inv (mx_set a q (s\<lparr>mx_lock := True, mx_woken := (mx_woken s)(a := mx_woken s a)\<rparr>))"
    by (rule mutex_inv_move [OF inv]) (use a none i(4) [of a] in auto)
  then show ?thesis unfolding same_flag .
qed

lemma inv_lock_fails:
  assumes inv: "mutex_inv s" and taken: "mx_lock s"
  shows "mx_phase s a = M_Start \<Longrightarrow> mutex_inv (mx_set a M_Done s)"
    "mx_phase s a = M_Start \<Longrightarrow> mutex_inv (mx_set a M_Retry (s\<lparr>mx_woken := (mx_woken s)(a := False)\<rparr>))"
    "mx_phase s a = M_Enqueued \<Longrightarrow> mutex_inv (mx_set a M_Waiting s)"
proof -
  note i = mutex_invD [OF inv]
  obtain x where x: "has_lock s x" using i(2) taken by blast
  have other: "\<exists>x. x \<noteq> a \<and> has_lock s x" if "mx_phase s a \<in> {M_Start, M_Enqueued}"
    using that x by (intro exI [of _ x]) (auto simp: has_lock_def)
  have id: "s\<lparr>mx_lock := True\<rparr> = s" "s\<lparr>mx_lock := True, mx_woken := w\<rparr> = s\<lparr>mx_woken := w\<rparr>" for w
    using taken by (cases s, simp)+
  show "mutex_inv (mx_set a M_Done s)" if a: "mx_phase s a = M_Start"
  proof -
    have "mutex_inv (mx_set a M_Done (s\<lparr>mx_lock := True, mx_woken := (mx_woken s)(a := mx_woken s a)\<rparr>))"
      by (rule mutex_inv_move [OF inv]) (use a other i(4) [of a] in auto)
    then show ?thesis unfolding id(2) by (simp add: fun_upd_idem)
  qed
  show "mutex_inv (mx_set a M_Retry (s\<lparr>mx_woken := (mx_woken s)(a := False)\<rparr>))" if a: "mx_phase s a = M_Start"
    unfolding id(2) [symmetric] by (rule mutex_inv_move [OF inv]) (use a other in auto)
  show "mutex_inv (mx_set a M_Waiting s)" if a: "mx_phase s a = M_Enqueued"
  proof -
    have "mutex_inv (mx_set a M_Waiting (s\<lparr>mx_lock := True, mx_woken := (mx_woken s)(a := mx_woken s a)\<rparr>))"
      by (rule mutex_inv_move [OF inv]) (use a other i(5) [of a] in auto)
    then show ?thesis unfolding id(2) by (simp add: fun_upd_idem)
  qed
qed

lemma lock_elsewhere: "mutex_inv s \<Longrightarrow> \<not> has_lock s a \<Longrightarrow> mx_lock s \<longleftrightarrow> (\<exists>x. x \<noteq> a \<and> has_lock s x)"
  using mutex_invD(2) [of s] by metis

lemma inv_wakes:
  assumes inv: "mutex_inv s" and a: "mx_phase s a = M_Waiting"
  shows "mutex_inv (mx_set a M_Retry (s\<lparr>mx_woken := (mx_woken s)(a := False)\<rparr>))"
proof -
  have "mx_lock s \<longleftrightarrow> (\<exists>x. x \<noteq> a \<and> has_lock s x)" by (rule lock_elsewhere [OF inv]) (simp add: a has_lock_def)
  then have "mutex_inv (mx_set a M_Retry (s\<lparr>mx_lock := mx_lock s, mx_woken := (mx_woken s)(a := False)\<rparr>))"
    by (intro mutex_inv_move [OF inv]) (use a in auto)
  then show ?thesis by simp
qed

lemma inv_closes:
  assumes inv: "mutex_inv s" and a: "mx_phase s a = M_Acquired"
  shows "mutex_inv (mx_set a M_Holding (s\<lparr>mx_woken := (mx_woken s)(a := True)\<rparr>))"
proof -
  note i = mutex_invD [OF inv]
  have l: "has_lock s a" using a by (simp add: has_lock_def)
  then have "mx_lock s" "\<not> (\<exists>x. x \<noteq> a \<and> has_lock s x)" using i(2) i(3) [of _ a] by blast+
  then have "mutex_inv (mx_set a M_Holding (s\<lparr>mx_lock := mx_lock s, mx_woken := (mx_woken s)(a := True)\<rparr>))"
    by (intro mutex_inv_move [OF inv]) (use a in auto)
  then show ?thesis by simp
qed

lemma inv_unlock:
  assumes inv: "mutex_inv s" and a: "mx_phase s a = M_Holding"
  shows "mutex_inv (mx_set a M_Released (s\<lparr>mx_lock := False\<rparr>))"
proof -
  note i = mutex_invD [OF inv]
  have "has_lock s a" using a by (simp add: has_lock_def)
  then have "\<not> (\<exists>x. x \<noteq> a \<and> has_lock s x)" using i(3) [of _ a] by blast
  then have "mutex_inv (mx_set a M_Released (s\<lparr>mx_lock := False, mx_woken := (mx_woken s)(a := mx_woken s a)\<rparr>))"
    by (intro mutex_inv_move [OF inv]) (use a i(6) [of a] in auto)
  then show ?thesis unfolding same_flag .
qed

text \<open>A user that wakes up others is done: no waker was left, or it goes on.\<close>

lemma inv_waker_moves:
  assumes inv: "mutex_inv s" and a: "mx_phase s a \<in> {M_Released, M_Scanning}" and q: "q \<in> {M_Scanning, M_Done}"
    and none: "q = M_Done \<Longrightarrow> wakers (mx_queue s) = []"
  shows "mutex_inv (mx_set a q s)"
proof -
  note i = mutex_invD [OF inv]
  have l: "mx_lock s \<longleftrightarrow> (\<exists>x. x \<noteq> a \<and> has_lock s x)" by (rule lock_elsewhere [OF inv]) (use a in \<open>auto simp: has_lock_def\<close>)
  have "\<exists>b. b \<noteq> a \<and> active s b" if x: "asleep s x" "q = M_Done" for x
  proof -
    have "reachable_waker s x" using i(5) [of x] x(1) by (simp add: asleep_def)
    then obtain b where b: "mx_phase s b = M_Waking x" using none x(2) by (auto simp: reachable_waker_def)
    then show ?thesis using a by (intro exI [of _ b]) (auto simp: active_def)
  qed
  then have "mutex_inv (mx_set a q (s\<lparr>mx_lock := mx_lock s, mx_woken := (mx_woken s)(a := mx_woken s a)\<rparr>))"
    by (intro mutex_inv_move [OF inv]) (use a q l i(6) [of a] in auto)
  then show ?thesis unfolding same_flag by simp
qed

lemma inv_enqueues:
  assumes inv: "mutex_inv s" and a: "mx_phase s a = M_Retry" and len: "length (wakers (mx_queue s)) < 2 ^ 32 - 1"
  shows "mutex_inv (mx_set a M_Enqueued (s\<lparr>mx_queue := WaitQueue_enqueue a (mx_queue s)\<rparr>))" (is "mutex_inv ?t")
proof (rule mutex_invI)
  note i = mutex_invD [OF inv]
  have h: "has_lock ?t x \<longleftrightarrow> has_lock s x" for x using a by (simp add: has_lock_def)
  have r: "reachable_waker ?t w \<longleftrightarrow> w = a \<or> reachable_waker s w" for w
    unfolding reachable_waker_move using waking_elsewhere [of s a w] a by (simp add: reachable_waker_def)
  show "queue_ok (mx_queue ?t)" using enqueue_ok [OF i(1) len] by simp
  show "mx_lock ?t \<longleftrightarrow> (\<exists>a. has_lock ?t a)" unfolding h using i(2) by simp
  show "x = y" if "has_lock ?t x" "has_lock ?t y" for x y using that i(3) unfolding h by blast
  show "\<not> reachable_waker ?t x" if "mx_phase ?t x = M_Start" for x using that i(4) [of x] unfolding r by (auto split: if_splits)
  show "reachable_waker ?t x" if "mx_phase ?t x \<in> {M_Enqueued, M_Waiting}" "\<not> mx_woken ?t x" for x
    using that i(5) [of x] unfolding r by (cases "x = a") simp_all
  show "mx_phase ?t x \<in> {M_Retry, M_Enqueued, M_Waiting, M_Acquired}" if "reachable_waker ?t x" "\<not> mx_woken ?t x" for x
    using that i(6) [of x] unfolding r by (cases "x = a") simp_all
  have "active ?t a" by (simp add: active_def)
  then show "\<exists>b. active ?t b" for x by blast
qed

lemma inv_pop:
  assumes inv: "mutex_inv s" and a: "mx_phase s a = M_Scanning" and pop: "WaitQueue_pop (mx_queue s) = Some (w, queue)"
  shows "mutex_inv (mx_set a (M_Waking w) (s\<lparr>mx_queue := queue\<rparr>))" (is "mutex_inv ?t")
proof (rule mutex_invI)
  note i = mutex_invD [OF inv]
  note q = pop_ok [OF i(1) pop]
  have h: "has_lock ?t x \<longleftrightarrow> has_lock s x" for x using a by (simp add: has_lock_def)
  have r: "reachable_waker ?t x \<longleftrightarrow> reachable_waker s x" for x
    unfolding reachable_waker_move using waking_elsewhere [of s a x] a q by (auto simp: reachable_waker_def)
  show "queue_ok (mx_queue ?t)" using q by simp
  show "mx_lock ?t \<longleftrightarrow> (\<exists>a. has_lock ?t a)" unfolding h using i(2) by simp
  show "x = y" if "has_lock ?t x" "has_lock ?t y" for x y using that i(3) unfolding h by blast
  show "\<not> reachable_waker ?t x" if "mx_phase ?t x = M_Start" for x using that i(4) [of x] unfolding r by (auto split: if_splits)
  show "reachable_waker ?t x" if "mx_phase ?t x \<in> {M_Enqueued, M_Waiting}" "\<not> mx_woken ?t x" for x
    using that i(5) [of x] unfolding r by (cases "x = a") simp_all
  show "mx_phase ?t x \<in> {M_Retry, M_Enqueued, M_Waiting, M_Acquired}" if "reachable_waker ?t x" "\<not> mx_woken ?t x" for x
    using that i(6) [of x] a unfolding r by (cases "x = a") simp_all
  have "active ?t a" by (simp add: active_def)
  then show "\<exists>b. active ?t b" for x by blast
qed

lemma inv_wake:
  assumes inv: "mutex_inv s" and a: "mx_phase s a = M_Waking w"
  shows "mutex_inv (mx_set a (if mx_woken s w then M_Scanning else M_Done) (s\<lparr>mx_woken := (mx_woken s)(w := True)\<rparr>))"
    (is "mutex_inv ?t")
proof (rule mutex_invI)
  note i = mutex_invD [OF inv]
  have h: "has_lock ?t x \<longleftrightarrow> has_lock s x" for x using a by (simp add: has_lock_def)
  have r: "reachable_waker s x" if "reachable_waker ?t x" for x
    using that by (auto simp: reachable_waker_def split: if_splits)
  have r': "reachable_waker ?t x" if "reachable_waker s x" "x \<noteq> w" for x
    using that a waking_elsewhere [of s a x] unfolding reachable_waker_move by (simp add: reachable_waker_def)
  have w: "reachable_waker s w" using a by (auto simp: reachable_waker_def)
  show "queue_ok (mx_queue ?t)" using i(1) by simp
  show "mx_lock ?t \<longleftrightarrow> (\<exists>a. has_lock ?t a)" unfolding h using i(2) by simp
  show "x = y" if "has_lock ?t x" "has_lock ?t y" for x y using that i(3) unfolding h by blast
  show "\<not> reachable_waker ?t x" if "mx_phase ?t x = M_Start" for x using that i(4) [of x] r by (auto split: if_splits)
  show "reachable_waker ?t x" if "mx_phase ?t x \<in> {M_Enqueued, M_Waiting}" "\<not> mx_woken ?t x" for x
    using that i(5) [of x] r' by (auto split: if_splits)
  show "mx_phase ?t x \<in> {M_Retry, M_Enqueued, M_Waiting, M_Acquired}" if x: "reachable_waker ?t x" "\<not> mx_woken ?t x" for x
  proof -
    have "mx_phase s x \<in> {M_Retry, M_Enqueued, M_Waiting, M_Acquired}" using i(6) [OF r [OF x(1)]] x(2) by (auto split: if_splits)
    then show ?thesis using a by auto
  qed
  show "\<exists>b. active ?t b" if "\<not> mx_lock ?t" for x
  proof (cases "mx_woken s w")
    case True
    then have "active ?t a" by (simp add: active_def)
    then show ?thesis by blast
  next
    case False
    have "\<not> has_lock s w" using i(2) that by auto
    then have "mx_phase s w \<in> {M_Retry, M_Enqueued, M_Waiting}" using i(6) [OF w False] by (auto simp: has_lock_def)
    then have "active ?t w" using a by (auto simp: active_def)
    then show ?thesis by blast
  qed
qed

lemma mutex_inv_step:
  assumes "mutex_inv s" "mutex_step s t"
  shows "mutex_inv t"
  using assms(2)
proof cases
  case lock_first
  then show ?thesis using inv_lock [OF assms(1)] by (simp add: acquire_iff)
next
  case try_lock_fails
  then show ?thesis using inv_lock_fails(1) [OF assms(1)] by (simp add: acquire_iff)
next
  case lock_first_fails
  then show ?thesis using inv_lock_fails(2) [OF assms(1)] by (simp add: acquire_iff Waiter_new_pair_def)
next
  case enqueues
  then show ?thesis using inv_enqueues [OF assms(1)] by simp
next
  case lock_again
  then show ?thesis using inv_lock [OF assms(1)] by (simp add: acquire_iff)
next
  case lock_again_fails
  then show ?thesis using inv_lock_fails(3) [OF assms(1)] by (simp add: acquire_iff)
next
  case wakes
  then show ?thesis using inv_wakes [OF assms(1)] by (auto simp: Waker_do_wait_def split: if_splits)
next
  case closes
  then show ?thesis using inv_closes [OF assms(1)] by (simp add: Waker_close_def)
next
  case unlock
  then show ?thesis using inv_unlock [OF assms(1)] by (simp add: Mutex_release_lock_def)
next
  case (wake_one_check a)
  then show ?thesis
    using inv_waker_moves [OF assms(1), of a M_Done] inv_waker_moves [OF assms(1), of a M_Scanning]
      is_empty_iff [OF mutex_invD(1) [OF assms(1)]] by simp
next
  case wake_one_none
  then show ?thesis using inv_waker_moves [OF assms(1)] by (simp add: pop_None)
next
  case wake_one_pop
  then show ?thesis using inv_pop [OF assms(1)] by simp
next
  case (wake_one_wake a w woke woken)
  then show ?thesis using inv_wake [OF assms(1), of a w] by (auto simp: Waker_wake_up_def)
qed

interpretation mutex: step_system mutex_init mutex_step mutex_inv
  by unfold_locales (fact mutex_inv_init, fact mutex_inv_step)

section \<open>Properties\<close>

text \<open>C22. At most one user holds the mutex, and the flag is set exactly while one does.\<close>

theorem mutex_excludes:
  assumes "reachable_from mutex_init mutex_step s"
  shows "(has_lock s a \<and> has_lock s b \<longrightarrow> a = b) \<and> (mx_lock s \<longleftrightarrow> (\<exists>a. has_lock s a))"
  using mutex_invD(2,3) [OF mutex.reachable_invar [OF assms]] by blast

text \<open>C9. No wake-up is lost: while the mutex is free and a user sleeps on it, some user is about to attempt to
  lock it again or about to wake a sleeping user up.\<close>

theorem mutex_wakes_sleepers:
  assumes "reachable_from mutex_init mutex_step s" "\<not> mx_lock s" "asleep s a"
  shows "\<exists>b. active s b"
  using mutex_invD(7) [OF mutex.reachable_invar [OF assms(1)]] assms(2,3) by blast

text \<open>A run in which user 0 holds the mutex, user 1 goes to sleep on it and user 0 releases it.\<close>

definition sleeper :: "bool \<Rightarrow> (nat \<Rightarrow> mutex_phase) \<Rightarrow> mutex_state" where
  "sleeper lock p = \<lparr>mx_lock = lock, mx_queue = WaitQueue_enqueue 1 WaitQueue_new, mx_woken = \<lambda>_. False, mx_phase = p\<rparr>"

lemma sleeper_reachable:
  "reachable_from mutex_init mutex_step (sleeper False ((\<lambda>_. M_Start)(0 := M_Released, 1 := M_Waiting)))"
proof -
  let ?s0 = "\<lparr>mx_lock = Mutex_new, mx_queue = WaitQueue_new, mx_woken = \<lambda>_. False, mx_phase = \<lambda>_. M_Start\<rparr>"
  let ?s1 = "\<lparr>mx_lock = True, mx_queue = WaitQueue_new, mx_woken = \<lambda>_. False, mx_phase = (\<lambda>_. M_Start)(0 := M_Holding)\<rparr>"
  let ?s2 = "\<lparr>mx_lock = True, mx_queue = WaitQueue_new, mx_woken = \<lambda>_. False, mx_phase = (\<lambda>_. M_Start)(0 := M_Holding, 1 := M_Retry)\<rparr>"
  let ?s3 = "sleeper True ((\<lambda>_. M_Start)(0 := M_Holding, 1 := M_Enqueued))"
  let ?s4 = "sleeper True ((\<lambda>_. M_Start)(0 := M_Holding, 1 := M_Waiting))"
  let ?s5 = "sleeper False ((\<lambda>_. M_Start)(0 := M_Released, 1 := M_Waiting))"
  have "reachable_from mutex_init mutex_step ?s0" by (rule reach_init) (simp add: mutex_init_def)
  moreover have "mutex_step ?s0 ?s1" using lock_first [of ?s0 0 True] by (simp add: acquire_iff Mutex_new_def)
  ultimately have "reachable_from mutex_init mutex_step ?s1" by (rule reach_step)
  moreover have "mutex_step ?s1 ?s2" using lock_first_fails [of ?s1 1 True] by (simp add: acquire_iff Waiter_new_pair_def fun_upd_idem)
  ultimately have "reachable_from mutex_init mutex_step ?s2" by (rule reach_step)
  moreover have "mutex_step ?s2 ?s3" using enqueues [of ?s2 1] by (simp add: WaitQueue_new_def sleeper_def)
  ultimately have "reachable_from mutex_init mutex_step ?s3" by (rule reach_step)
  moreover have "mutex_step ?s3 ?s4" using lock_again_fails [of ?s3 1 True] by (simp add: acquire_iff sleeper_def)
  ultimately have "reachable_from mutex_init mutex_step ?s4" by (rule reach_step)
  moreover have "mutex_step ?s4 ?s5"
    using unlock [of ?s4 0] by (simp add: Mutex_release_lock_def sleeper_def fun_upd_twist)
  ultimately show ?thesis by (rule reach_step)
qed

theorem mutex_excludes_witness:
  "\<not> (\<exists>a. has_lock (sleeper False ((\<lambda>_. M_Start)(0 := M_Released, 1 := M_Waiting))) a)"
  using mutex_excludes [OF sleeper_reachable] by (simp add: sleeper_def)

theorem mutex_wakes_sleepers_witness:
  "\<exists>b. active (sleeper False ((\<lambda>_. M_Start)(0 := M_Released, 1 := M_Waiting))) b"
  using mutex_wakes_sleepers [OF sleeper_reachable, of 1] by (simp add: sleeper_def asleep_def)

end
