(* ===== verification/Rw_Lock.thy ===== *)
theory Rw_Lock
  imports Kernel_Prelude "HOL-Library.Word" "HOL-Library.Code_Target_Nat"
begin

text \<open>
  The spinning reader-writer lock, \<open>ostd/src/sync/rwlock.rs\<close>. The lock is one 64-bit word that every
  operation changes by single atomic instructions. Each atomic instruction is a function on the word; the
  operations that use several of them pass through intermediate states that the other users can see. A
  user of the lock is one attempt to acquire it together with the guard it returns.
\<close>

unbundle bit_operations_syntax

section \<open>The lock word\<close>

definition READER :: "64 word" where "READER = 1"
definition WRITER :: "64 word" where "WRITER = push_bit (64 - 1) 1"
definition UPGRADEABLE_READER :: "64 word" where "UPGRADEABLE_READER = push_bit (64 - 2) 1"
definition BEING_UPGRADED :: "64 word" where "BEING_UPGRADED = push_bit (64 - 3) 1"
definition MAX_READER :: "64 word" where "MAX_READER = push_bit (64 - 4) 1"

lemmas lock_bits = READER_def WRITER_def UPGRADEABLE_READER_def BEING_UPGRADED_def MAX_READER_def

definition RwLock_new :: "64 word" where
  "RwLock_new = 0"

text \<open>
  \<open>try_read\<close>: whether the guard is returned, and the word after \<open>fetch_add\<close>. When it is not, the second
  instruction \<open>RwLock_undo_read\<close> follows.
\<close>

definition RwLock_try_read :: "64 word \<Rightarrow> bool \<times> 64 word" where
  "RwLock_try_read lock = (lock AND (WRITER OR MAX_READER OR BEING_UPGRADED) = 0, lock + READER)"

definition RwLock_undo_read :: "64 word \<Rightarrow> 64 word" where
  "RwLock_undo_read lock = lock - READER"

definition RwLock_try_write :: "64 word \<Rightarrow> bool \<times> 64 word" where
  "RwLock_try_write lock = (if lock = 0 then (True, WRITER) else (False, lock))"

text \<open>\<open>try_upread\<close>: the outcome of its \<open>fetch_or\<close>; after \<open>UpreadUndo\<close>, \<open>RwLock_undo_upread\<close> follows.\<close>

datatype upread_result = UpreadOk | UpreadUndo | UpreadBusy

definition RwLock_try_upread :: "64 word \<Rightarrow> upread_result \<times> 64 word" where
  "RwLock_try_upread lock =
     (let old = lock AND (WRITER OR UPGRADEABLE_READER) in
      (if old = 0 then UpreadOk else if old = WRITER then UpreadUndo else UpreadBusy, lock OR UPGRADEABLE_READER))"

definition RwLock_undo_upread :: "64 word \<Rightarrow> 64 word" where
  "RwLock_undo_upread lock = lock - UPGRADEABLE_READER"

definition RwLockReadGuard_drop :: "64 word \<Rightarrow> 64 word" where
  "RwLockReadGuard_drop lock = lock - READER"

definition RwLockWriteGuard_drop :: "64 word \<Rightarrow> 64 word" where
  "RwLockWriteGuard_drop lock = lock AND NOT WRITER"

definition RwLockUpgradeableGuard_drop :: "64 word \<Rightarrow> 64 word" where
  "RwLockUpgradeableGuard_drop lock = lock - UPGRADEABLE_READER"

text \<open>The first instruction of \<open>upgrade\<close>, and the compare-and-exchange that it repeats.\<close>

definition RwLockUpgradeableGuard_upgrade :: "64 word \<Rightarrow> 64 word" where
  "RwLockUpgradeableGuard_upgrade lock = lock OR BEING_UPGRADED"

definition RwLockUpgradeableGuard_try_upgrade :: "64 word \<Rightarrow> bool \<times> 64 word" where
  "RwLockUpgradeableGuard_try_upgrade lock =
     (if lock = UPGRADEABLE_READER OR BEING_UPGRADED then (True, WRITER OR UPGRADEABLE_READER) else (False, lock))"

section \<open>The users of a lock\<close>

text \<open>
  \<open>ReadUndo\<close> and \<open>UpreadUndoing\<close> are between the two instructions of a failed attempt, \<open>Upgrading\<close> is in
  the loop of \<open>upgrade\<close>, \<open>Upgraded\<close> is after its compare-and-exchange and before the drop of the
  upgradeable guard. \<open>Downgraded\<close> is the mirror image, for the lock that can downgrade.
\<close>

datatype rw_phase = Outside | ReadUndo | Reading | Writing | UpreadUndoing | UpReading | Upgrading | Upgraded | Downgraded

record rw_state =
  rw_lock :: "64 word"
  rw_phase :: "nat \<Rightarrow> rw_phase"

abbreviation rw_set :: "rw_state \<Rightarrow> nat \<Rightarrow> 64 word \<Rightarrow> rw_phase \<Rightarrow> rw_state" where
  "rw_set s a lock p \<equiv> s\<lparr>rw_lock := lock, rw_phase := (rw_phase s)(a := p)\<rparr>"

text \<open>
  The steps of all users, one atomic instruction each. A failed \<open>try_read\<close> holds on to the count until it
  is undone; a user does so with preemption disabled, so that there are never \<open>MAX_READER - 1\<close> of them.
\<close>

definition undoing :: "(nat \<Rightarrow> rw_phase) \<Rightarrow> nat set" where
  "undoing p = {a. p a = ReadUndo}"

inductive rwlock_step :: "rw_state \<Rightarrow> rw_state \<Rightarrow> bool" where
  try_read: "rw_phase s a = Outside \<Longrightarrow> card (undoing (rw_phase s)) < 2 ^ 60 - 1 \<Longrightarrow>
    RwLock_try_read (rw_lock s) = (ok, lock) \<Longrightarrow> rwlock_step s (rw_set s a lock (if ok then Reading else ReadUndo))"
| undo_read: "rw_phase s a = ReadUndo \<Longrightarrow> rwlock_step s (rw_set s a (RwLock_undo_read (rw_lock s)) Outside)"
| drop_read: "rw_phase s a = Reading \<Longrightarrow> rwlock_step s (rw_set s a (RwLockReadGuard_drop (rw_lock s)) Outside)"
| try_write: "rw_phase s a = Outside \<Longrightarrow> RwLock_try_write (rw_lock s) = (ok, lock) \<Longrightarrow>
    rwlock_step s (rw_set s a lock (if ok then Writing else Outside))"
| drop_write: "rw_phase s a = Writing \<Longrightarrow> rwlock_step s (rw_set s a (RwLockWriteGuard_drop (rw_lock s)) Outside)"
| try_upread: "rw_phase s a = Outside \<Longrightarrow> RwLock_try_upread (rw_lock s) = (r, lock) \<Longrightarrow>
    rwlock_step s (rw_set s a lock (case r of UpreadOk \<Rightarrow> UpReading | UpreadUndo \<Rightarrow> UpreadUndoing | UpreadBusy \<Rightarrow> Outside))"
| undo_upread: "rw_phase s a = UpreadUndoing \<Longrightarrow> rwlock_step s (rw_set s a (RwLock_undo_upread (rw_lock s)) Outside)"
| drop_upread: "rw_phase s a = UpReading \<Longrightarrow>
    rwlock_step s (rw_set s a (RwLockUpgradeableGuard_drop (rw_lock s)) Outside)"
| upgrade: "rw_phase s a = UpReading \<Longrightarrow>
    rwlock_step s (rw_set s a (RwLockUpgradeableGuard_upgrade (rw_lock s)) Upgrading)"
| try_upgrade: "rw_phase s a = Upgrading \<Longrightarrow> RwLockUpgradeableGuard_try_upgrade (rw_lock s) = (ok, lock) \<Longrightarrow>
    rwlock_step s (rw_set s a lock (if ok then Upgraded else Upgrading))"
| finish_upgrade: "rw_phase s a = Upgraded \<Longrightarrow>
    rwlock_step s (rw_set s a (RwLockUpgradeableGuard_drop (rw_lock s)) Writing)"

definition rw_init :: "rw_state \<Rightarrow> bool" where
  "rw_init s \<longleftrightarrow> s = \<lparr>rw_lock = RwLock_new, rw_phase = \<lambda>_. Outside\<rparr>"

section \<open>Reading the word\<close>

text \<open>A word with \<open>n\<close> counted readers and the three flags.\<close>

definition encode :: "nat \<Rightarrow> bool \<Rightarrow> bool \<Rightarrow> bool \<Rightarrow> 64 word" where
  "encode n w u b = word_of_nat n + (if w then WRITER else 0) + (if u then UPGRADEABLE_READER else 0) +
     (if b then BEING_UPGRADED else 0)"

definition flags :: "bool \<Rightarrow> bool \<Rightarrow> bool \<Rightarrow> nat" where
  "flags w u b = of_bool b + 2 * of_bool u + 4 * of_bool w"

lemma lock_bits_exp: "READER = 1" "WRITER = 2 ^ 63" "UPGRADEABLE_READER = 2 ^ 62" "BEING_UPGRADED = 2 ^ 61" "MAX_READER = 2 ^ 60"
  by (simp_all add: lock_bits)

lemma unat_encode:
  assumes "n < 2 ^ 61"
  shows "unat (encode n w u b) = n + flags w u b * 2 ^ 61"
proof -
  have "encode n w u b = word_of_nat (n + flags w u b * 2 ^ 61)"
    by (simp add: encode_def flags_def lock_bits_exp)
  moreover have "n + flags w u b * 2 ^ 61 < 2 ^ 64" using assms by (simp add: flags_def)
  moreover have "unat (word_of_nat k :: 64 word) = k" if "k < 2 ^ 64" for k
    using that by (simp add: unsigned_of_nat take_bit_nat_eq_self)
  ultimately show ?thesis by (simp only:)
qed

lemma encode_eq_iff:
  assumes "n < 2 ^ 61" "n' < 2 ^ 61"
  shows "encode n w u b = encode n' w' u' b' \<longleftrightarrow> n = n' \<and> w = w' \<and> u = u' \<and> b = b'"
proof
  assume "encode n w u b = encode n' w' u' b'"
  then have eq: "n + flags w u b * 2 ^ 61 = n' + flags w' u' b' * 2 ^ 61" using unat_encode assms by metis
  have "(n + flags w u b * 2 ^ 61) mod 2 ^ 61 = n" "(n' + flags w' u' b' * 2 ^ 61) mod 2 ^ 61 = n'" using assms by simp_all
  then have "n = n'" using eq by (simp only:)
  then have "flags w u b = flags w' u' b'" using eq by simp
  then show "n = n' \<and> w = w' \<and> u = u' \<and> b = b'" using \<open>n = n'\<close>
    by (cases w; cases u; cases b; cases w'; cases u'; cases b') (simp_all add: flags_def)
qed simp

lemma bit_encode:
  assumes "n < 2 ^ 61"
  shows "bit (encode n w u b) 63 \<longleftrightarrow> w" "bit (encode n w u b) 62 \<longleftrightarrow> u" "bit (encode n w u b) 61 \<longleftrightarrow> b"
    "bit (encode n w u b) 60 \<longleftrightarrow> 2 ^ 60 \<le> n"
proof -
  have bit: "bit (encode n w u b) (i + k) \<longleftrightarrow> odd ((n + flags w u b * 2 ^ 61) div 2 ^ i div 2 ^ k)" if "i + k < 64" for i k
  proof -
    have "bit (encode n w u b) (i + k) \<longleftrightarrow> bit (unat (encode n w u b)) (i + k)" using that by (simp add: bit_unsigned_iff)
    then show ?thesis by (simp add: unat_encode [OF assms] bit_iff_odd power_add div_mult2_eq)
  qed
  have hi: "(n + flags w u b * 2 ^ 61) div 2 ^ 61 = flags w u b" using assms by simp
  show "bit (encode n w u b) 63 \<longleftrightarrow> w" using bit [of 61 2] unfolding hi by (cases w; cases u; cases b) (simp_all add: flags_def)
  show "bit (encode n w u b) 62 \<longleftrightarrow> u" using bit [of 61 1] unfolding hi by (cases w; cases u; cases b) (simp_all add: flags_def)
  show "bit (encode n w u b) 61 \<longleftrightarrow> b" using bit [of 61 0] unfolding hi by (cases w; cases u; cases b) (simp_all add: flags_def)
  have "n + flags w u b * 2 ^ 61 = n + (2 * flags w u b) * 2 ^ 60" by simp
  moreover have "(n + (2 * flags w u b) * 2 ^ 60) div 2 ^ 60 = 2 * flags w u b + n div 2 ^ 60" by (rule div_mult_self1) simp
  ultimately have "(n + flags w u b * 2 ^ 61) div 2 ^ 60 = 2 * flags w u b + n div 2 ^ 60" by (simp only:)
  moreover have "odd (n div 2 ^ 60) \<longleftrightarrow> 2 ^ 60 \<le> n"
  proof (cases "2 ^ 60 \<le> n")
    case True
    then have "n div 2 ^ 60 = 1" using assms by (intro div_nat_eqI) simp_all
    then show ?thesis using True by simp
  qed simp
  ultimately show "bit (encode n w u b) 60 \<longleftrightarrow> 2 ^ 60 \<le> n" using bit [of 60 0] by simp
qed

text \<open>The instructions on an encoded word.\<close>

lemma encode_add_sub:
  "encode n w u b + READER = encode (Suc n) w u b" "encode (Suc n) w u b - READER = encode n w u b"
  "encode n w True b - UPGRADEABLE_READER = encode n w False b"
  by (simp_all add: encode_def READER_def)

lemma or_set: "\<not> bit w k \<Longrightarrow> w OR 2 ^ k = w + (2 ^ k :: 64 word)"
  by (rule disjunctive_add_eq_or [symmetric]) (simp add: and_exp_eq_0_iff_not_bit)

lemma or_absorb: "bit w k \<Longrightarrow> w OR 2 ^ k = (w :: 64 word)"
  by (rule bit_word_eqI) (auto simp: bit_or_iff bit_exp_iff)

lemma and_not_clear: "bit w k \<Longrightarrow> w AND NOT (2 ^ k) = w - (2 ^ k :: 64 word)"
  by (rule disjunctive_diff [symmetric]) (simp add: bit_exp_iff)

lemma and_not_absorb: "\<not> bit w k \<Longrightarrow> w AND NOT (2 ^ k) = (w :: 64 word)"
  by (rule bit_word_eqI) (auto simp: bit_and_iff bit_not_iff bit_exp_iff)

lemma encode_or:
  assumes "n < 2 ^ 61"
  shows "encode n w u b OR UPGRADEABLE_READER = encode n w True b" "encode n w u b OR BEING_UPGRADED = encode n w u True"
    "encode n w u b AND NOT WRITER = encode n False u b"
proof -
  note bit = bit_encode [OF assms]
  show "encode n w u b OR UPGRADEABLE_READER = encode n w True b"
    unfolding lock_bits_exp using bit(2) [of w u b] or_set [of "encode n w u b" 62] or_absorb [of "encode n w u b" 62]
    by (cases u) (simp_all add: encode_def lock_bits_exp)
  show "encode n w u b OR BEING_UPGRADED = encode n w u True"
    unfolding lock_bits_exp using bit(3) [of w u b] or_set [of "encode n w u b" 61] or_absorb [of "encode n w u b" 61]
    by (cases b) (simp_all add: encode_def lock_bits_exp)
  show "encode n w u b AND NOT WRITER = encode n False u b"
    unfolding lock_bits_exp using bit(1) [of w u b] and_not_clear [of "encode n w u b" 63] and_not_absorb [of "encode n w u b" 63]
    by (cases w) (simp_all add: encode_def lock_bits_exp)
qed

lemma encode_consts:
  "0 = encode 0 False False False" "WRITER = encode 0 True False False"
  "UPGRADEABLE_READER = encode 0 False True False"
  "UPGRADEABLE_READER OR BEING_UPGRADED = encode 0 False True True" "WRITER OR UPGRADEABLE_READER = encode 0 True True False"
proof -
  show 1: "0 = encode 0 False False False" "WRITER = encode 0 True False False" "UPGRADEABLE_READER = encode 0 False True False"
    by (simp_all add: encode_def)
  show "UPGRADEABLE_READER OR BEING_UPGRADED = encode 0 False True True" unfolding 1(3) by (rule encode_or) simp
  show "WRITER OR UPGRADEABLE_READER = encode 0 True True False" unfolding 1(2) by (rule encode_or) simp
qed

lemma and_flags_eq_0: "x AND (y OR z) = 0 \<longleftrightarrow> x AND y = 0 \<and> x AND z = (0 :: 64 word)"
  by (auto simp: bit_eq_iff bit_and_iff bit_or_iff)

lemma try_read_encode:
  assumes "n < 2 ^ 61"
  shows "RwLock_try_read (encode n w u b) = (\<not> w \<and> \<not> b \<and> n < 2 ^ 60, encode (Suc n) w u b)"
proof -
  have "encode n w u b AND (WRITER OR MAX_READER OR BEING_UPGRADED) = 0 \<longleftrightarrow> \<not> w \<and> \<not> b \<and> n < 2 ^ 60"
    unfolding and_flags_eq_0 lock_bits_exp and_exp_eq_0_iff_not_bit bit_encode [OF assms] by auto
  then show ?thesis by (simp only: RwLock_try_read_def encode_add_sub)
qed

lemma try_write_encode:
  assumes "n < 2 ^ 61"
  shows "RwLock_try_write (encode n w u b) =
    (if n = 0 \<and> \<not> w \<and> \<not> u \<and> \<not> b then (True, encode 0 True False False) else (False, encode n w u b))"
  using encode_eq_iff [OF assms, of 0 w u b False False False]
  by (simp add: RwLock_try_write_def encode_consts(1) flip: encode_consts(2))

lemma bit_flags: "bit WRITER k \<longleftrightarrow> k = 63" "bit UPGRADEABLE_READER k \<longleftrightarrow> k = 62"
  unfolding lock_bits_exp bit_exp_iff by auto

lemma try_upread_encode:
  assumes "n < 2 ^ 61"
  shows "RwLock_try_upread (encode n w u b) =
    (if u then UpreadBusy else if w then UpreadUndo else UpreadOk, encode n w True b)"
proof -
  have "encode n w u b AND (WRITER OR UPGRADEABLE_READER) = encode 0 w u False"
  proof (rule bit_word_eqI)
    fix k assume "k < LENGTH(64)"
    have c: "encode 0 w u False = (if w then WRITER else 0) OR (if u then UPGRADEABLE_READER else 0)"
      using encode_consts by (cases w; cases u) simp_all
    show "bit (encode n w u b AND (WRITER OR UPGRADEABLE_READER)) k \<longleftrightarrow> bit (encode 0 w u False) k"
      using bit_encode(1,2) [OF assms, of w u b]
      by (auto simp: c bit_flags bit_and_iff bit_or_iff)
  qed
  moreover have "encode 0 w u False = 0 \<longleftrightarrow> \<not> w \<and> \<not> u" "encode 0 w u False = WRITER \<longleftrightarrow> w \<and> \<not> u"
    unfolding encode_consts(1,2) by (auto simp: encode_eq_iff)
  ultimately show ?thesis unfolding RwLock_try_upread_def Let_def encode_or(1) [OF assms] by (simp only:) auto
qed

lemma try_upgrade_encode:
  assumes "n < 2 ^ 61"
  shows "RwLockUpgradeableGuard_try_upgrade (encode n w u b) =
    (if n = 0 \<and> \<not> w \<and> u \<and> b then (True, encode 0 True True False) else (False, encode n w u b))"
  using encode_eq_iff [OF assms, of 0 w u b False True True]
  by (simp add: RwLockUpgradeableGuard_try_upgrade_def encode_consts(4,5))

lemma drop_encode:
  assumes "n < 2 ^ 61"
  shows "RwLock_undo_read (encode (Suc n) w u b) = encode n w u b" "RwLockReadGuard_drop (encode (Suc n) w u b) = encode n w u b"
    "RwLock_undo_upread (encode n w True b) = encode n w False b" "RwLockUpgradeableGuard_drop (encode n w True b) = encode n w False b"
    "RwLockWriteGuard_drop (encode n w u b) = encode n False u b" "RwLockUpgradeableGuard_upgrade (encode n w u b) = encode n w u True"
  using encode_or [OF assms] encode_add_sub
  by (simp_all add: RwLock_undo_read_def RwLockReadGuard_drop_def RwLock_undo_upread_def RwLockUpgradeableGuard_drop_def
    RwLockWriteGuard_drop_def RwLockUpgradeableGuard_upgrade_def)

section \<open>The invariant\<close>

definition users :: "rw_phase set \<Rightarrow> (nat \<Rightarrow> rw_phase) \<Rightarrow> nat set" where
  "users ps p = {a. p a \<in> ps}"

abbreviation "counted \<equiv> users {ReadUndo, Reading}"
abbreviation "writers \<equiv> users {Writing, Upgraded}"
abbreviation "upreaders \<equiv> users {UpreadUndoing, UpReading, Upgrading, Upgraded, Downgraded}"

definition rw_inv :: "rw_state \<Rightarrow> bool" where
  "rw_inv s \<longleftrightarrow> (let p = rw_phase s in
     finite {a. p a \<noteq> Outside} \<and>
     card (users {Reading} p) \<le> 2 ^ 60 \<and> card (undoing p) < 2 ^ 60 \<and>
     rw_lock s = encode (card (counted p)) (writers p \<noteq> {}) (upreaders p \<noteq> {}) (users {Upgrading} p \<noteq> {}) \<and>
     (\<forall>a\<in>writers p. \<forall>b\<in>writers p. a = b) \<and> (\<forall>a\<in>upreaders p. \<forall>b\<in>upreaders p. a = b) \<and>
     (writers p \<noteq> {} \<longrightarrow> users {Reading, UpReading, Upgrading, Downgraded} p = {}))"

lemma users_upd: "users ps (p(a := q)) = (if q \<in> ps then insert a (users ps p) else users ps p - {a})"
  by (auto simp: users_def)

lemma in_users [simp]: "a \<in> users ps p \<longleftrightarrow> p a \<in> ps"
  by (simp add: users_def)

lemma undoing_users: "undoing p = users {ReadUndo} p"
  by (simp add: undoing_def users_def)

lemma finite_users: "finite {a. p a \<noteq> Outside} \<Longrightarrow> Outside \<notin> ps \<Longrightarrow> finite (users ps p)"
  by (erule rev_finite_subset) (auto simp: users_def)

lemma finite_phase_upd: "finite {b. p b \<noteq> Outside} \<Longrightarrow> finite {b. (p(a := q)) b \<noteq> Outside}"
  by (rule finite_subset [of _ "insert a {b. p b \<noteq> Outside}"]) auto

lemma rw_invD:
  assumes "rw_inv s"
  shows "finite {a. rw_phase s a \<noteq> Outside}" "card (users {Reading} (rw_phase s)) \<le> 2 ^ 60" "card (undoing (rw_phase s)) < 2 ^ 60"
    "rw_lock s = encode (card (counted (rw_phase s))) (writers (rw_phase s) \<noteq> {}) (upreaders (rw_phase s) \<noteq> {})
      (users {Upgrading} (rw_phase s) \<noteq> {})"
    "\<And>a b. rw_phase s a \<in> {Writing, Upgraded} \<Longrightarrow> rw_phase s b \<in> {Writing, Upgraded} \<Longrightarrow> a = b"
    "\<And>a b. rw_phase s a \<in> {UpreadUndoing, UpReading, Upgrading, Upgraded, Downgraded} \<Longrightarrow>
      rw_phase s b \<in> {UpreadUndoing, UpReading, Upgrading, Upgraded, Downgraded} \<Longrightarrow> a = b"
    "\<And>a b. rw_phase s a \<in> {Writing, Upgraded} \<Longrightarrow> rw_phase s b \<notin> {Reading, UpReading, Upgrading, Downgraded}"
    "card (counted (rw_phase s)) < 2 ^ 61"
proof -
  let ?p = "rw_phase s"
  show 1: "finite {a. ?p a \<noteq> Outside}" "card (users {Reading} ?p) \<le> 2 ^ 60" "card (undoing ?p) < 2 ^ 60"
    "rw_lock s = encode (card (counted ?p)) (writers ?p \<noteq> {}) (upreaders ?p \<noteq> {}) (users {Upgrading} ?p \<noteq> {})"
    using assms by (simp_all add: rw_inv_def Let_def)
  show "a = b" if "?p a \<in> {Writing, Upgraded}" "?p b \<in> {Writing, Upgraded}" for a b
    using assms that unfolding rw_inv_def Let_def by (metis in_users)
  show "a = b" if "?p a \<in> {UpreadUndoing, UpReading, Upgrading, Upgraded, Downgraded}"
    "?p b \<in> {UpreadUndoing, UpReading, Upgrading, Upgraded, Downgraded}" for a b
    using assms that unfolding rw_inv_def Let_def by (metis in_users)
  show "?p b \<notin> {Reading, UpReading, Upgrading, Downgraded}" if "?p a \<in> {Writing, Upgraded}" for a b
    using assms that unfolding rw_inv_def Let_def by (metis empty_iff in_users)
  have "counted ?p = users {Reading} ?p \<union> undoing ?p" by (auto simp: undoing_def users_def)
  then have "card (counted ?p) \<le> card (users {Reading} ?p) + card (undoing ?p)" by (simp only: card_Un_le)
  then show "card (counted ?p) < 2 ^ 61" using 1(2,3) by simp
qed

lemma unique_upd:
  assumes "\<And>x y. p x \<in> C \<Longrightarrow> p y \<in> C \<Longrightarrow> x = y" "q \<in> C \<Longrightarrow> p a \<in> C \<or> users C p = {}"
    "(p(a := q)) x \<in> C" "(p(a := q)) y \<in> C"
  shows "x = y"
  using assms by (auto simp: users_def split: if_splits)

lemma excludes_upd:
  assumes "\<And>x y. p x \<in> C \<Longrightarrow> p y \<notin> D" "q \<in> C \<Longrightarrow> p a \<in> C \<or> users C p = {} \<and> users D p - {a} = {}"
    "q \<in> D \<Longrightarrow> users C p - {a} = {}" "C \<inter> D = {}" "(p(a := q)) x \<in> C"
  shows "(p(a := q)) y \<notin> D"
proof (cases "x = a")
  case True
  then have q: "q \<in> C" using assms(5) by simp
  show ?thesis
  proof (cases "y = a")
    case True
    then show ?thesis using q assms(4) by auto
  next
    case False
    then show ?thesis using assms(2) [OF q] assms(1) [of a y] by (auto simp: users_def)
  qed
next
  case False
  then have x: "p x \<in> C" "users C p - {a} \<noteq> {}" using assms(5) by (auto simp: users_def)
  then show ?thesis using assms(3) assms(1) [OF x(1), of y] by (cases "y = a") auto
qed

text \<open>One user moves: what is left to show is the new word, the counts and the new user's rights.\<close>

lemma rw_inv_move:
  assumes inv: "rw_inv s"
    and word: "lock = encode (card (counted ((rw_phase s)(a := q)))) (writers ((rw_phase s)(a := q)) \<noteq> {})
      (upreaders ((rw_phase s)(a := q)) \<noteq> {}) (users {Upgrading} ((rw_phase s)(a := q)) \<noteq> {})"
    and reading: "q = Reading \<Longrightarrow> card (counted (rw_phase s)) < 2 ^ 60"
    and undo: "q = ReadUndo \<Longrightarrow> rw_phase s a = ReadUndo \<or> card (undoing (rw_phase s)) < 2 ^ 60 - 1"
    and w: "q \<in> {Writing, Upgraded} \<Longrightarrow> rw_phase s a \<in> {Writing, Upgraded} \<or>
      writers (rw_phase s) = {} \<and> users {Reading, UpReading, Upgrading, Downgraded} (rw_phase s) - {a} = {}"
    and u: "q \<in> {UpreadUndoing, UpReading, Upgrading, Upgraded, Downgraded} \<Longrightarrow>
      rw_phase s a \<in> {UpreadUndoing, UpReading, Upgrading, Upgraded, Downgraded} \<or> upreaders (rw_phase s) = {}"
    and r: "q \<in> {Reading, UpReading, Upgrading, Downgraded} \<Longrightarrow> writers (rw_phase s) - {a} = {}"
  shows "rw_inv (rw_set s a lock q)"
proof -
  let ?p = "rw_phase s" and ?q = "(rw_phase s)(a := q)"
  note i = rw_invD [OF inv]
  have fin: "finite (users {Reading} ?p)" "finite (users {ReadUndo} ?p)" "finite (counted ?p)"
    by (rule finite_users [OF i(1)], simp)+
  have "users {Reading} ?p \<subseteq> counted ?p" by (auto simp: users_def)
  then have le: "card (users {Reading} ?p) \<le> card (counted ?p)" by (rule card_mono [OF fin(3)])
  have 1: "card (users {Reading} ?q) \<le> 2 ^ 60"
    using reading le i(2) card_Diff1_le [of "users {Reading} ?p" a] card_insert_le_m1
    by (cases "q = Reading") (auto simp: users_upd card_insert_if fin)
  have 2: "card (undoing ?q) < 2 ^ 60"
    using undo i(3) card_Diff1_le [of "users {ReadUndo} ?p" a]
    by (cases "q = ReadUndo") (auto simp: undoing_users users_upd card_insert_if fin)
  have w': "?p a \<in> {Writing, Upgraded} \<or> writers ?p = {}" if "q \<in> {Writing, Upgraded}"
    using w [OF that] by argo
  have 3: "x = y" if "?q x \<in> {Writing, Upgraded}" "?q y \<in> {Writing, Upgraded}" for x y
    by (rule unique_upd [OF i(5) w' that])
  have 4: "x = y" if "?q x \<in> {UpreadUndoing, UpReading, Upgrading, Upgraded, Downgraded}"
    "?q y \<in> {UpreadUndoing, UpReading, Upgrading, Upgraded, Downgraded}" for x y
    by (rule unique_upd [OF i(6) u that])
  have 5: "?q y \<notin> {Reading, UpReading, Upgrading, Downgraded}" if "?q x \<in> {Writing, Upgraded}" for x y
    by (rule excludes_upd [OF i(7) w r _ that]) auto
  have 6: "finite {x. ?q x \<noteq> Outside}" by (rule finite_phase_upd [OF i(1)])
  have 7: "users {Reading, UpReading, Upgrading, Downgraded} ?q = {}" if "writers ?q \<noteq> {}"
    using that 5 by (metis all_not_in_conv in_users)
  show ?thesis
    unfolding rw_inv_def Let_def using 1 2 3 4 6 7 word by (simp del: fun_upd_apply)
qed

section \<open>Every step keeps the invariant\<close>

lemma users_same: "p a \<in> C \<longleftrightarrow> q \<in> C \<Longrightarrow> users C (p(a := q)) = users C p"
  by (auto simp: users_def)

lemma users_enter: "q \<in> C \<Longrightarrow> users C (p(a := q)) \<noteq> {}"
  by (auto simp: users_def)

lemma users_leave:
  assumes "\<And>x y. p x \<in> C \<Longrightarrow> p y \<in> C \<Longrightarrow> x = y" "p a \<in> C" "q \<notin> C"
  shows "users C (p(a := q)) = {}" "users C p \<noteq> {}"
  using assms by (auto simp: users_def)

lemma card_users_enter:
  assumes "finite {x. p x \<noteq> Outside}" "Outside \<notin> C" "p a \<notin> C" "q \<in> C"
  shows "card (users C (p(a := q))) = Suc (card (users C p))"
  using finite_users [OF assms(1,2)] assms(3,4) by (simp add: users_upd card_insert_if)

lemma card_users_leave:
  assumes "finite {x. p x \<noteq> Outside}" "Outside \<notin> C" "p a \<in> C" "q \<notin> C"
  shows "card (users C p) = Suc (card (users C (p(a := q))))"
  using card.remove [OF finite_users [OF assms(1,2)], of a] assms(3,4) by (simp add: users_upd)

lemma inv_enter_read:
  assumes inv: "rw_inv s" and a: "rw_phase s a = Outside" "card (undoing (rw_phase s)) < 2 ^ 60 - 1"
    and r: "RwLock_try_read (rw_lock s) = (ok, lock)"
  shows "rw_inv (rw_set s a lock (if ok then Reading else ReadUndo))"
proof -
  let ?p = "rw_phase s" and ?q = "if ok then Reading else ReadUndo"
  note i = rw_invD [OF inv]
  have card: "card (counted (?p(a := ?q))) = Suc (card (counted ?p))"
    by (rule card_users_enter [OF i(1)]) (simp_all add: a(1))
  have ok: "ok \<longleftrightarrow> writers ?p = {} \<and> users {Upgrading} ?p = {} \<and> card (counted ?p) < 2 ^ 60"
    and lock: "lock = encode (Suc (card (counted ?p))) (writers ?p \<noteq> {}) (upreaders ?p \<noteq> {}) (users {Upgrading} ?p \<noteq> {})"
    using r unfolding i(4) try_read_encode [OF i(8)] by auto
  have same: "writers (?p(a := ?q)) = writers ?p" "upreaders (?p(a := ?q)) = upreaders ?p"
    "users {Upgrading} (?p(a := ?q)) = users {Upgrading} ?p"
    by (rule users_same, simp add: a(1))+
  show ?thesis
    by (rule rw_inv_move [OF inv]) (use lock card same ok a(2) in \<open>simp_all split: if_splits\<close>)
qed

lemma inv_leave_read:
  assumes inv: "rw_inv s" and a: "rw_phase s a \<in> {ReadUndo, Reading}"
  shows "rw_inv (rw_set s a (rw_lock s - READER) Outside)"
proof -
  let ?p = "rw_phase s"
  note i = rw_invD [OF inv]
  have card: "card (counted ?p) = Suc (card (counted (?p(a := Outside))))"
    by (rule card_users_leave [OF i(1)]) (use a in simp_all)
  have same: "writers (?p(a := Outside)) = writers ?p" "upreaders (?p(a := Outside)) = upreaders ?p"
    "users {Upgrading} (?p(a := Outside)) = users {Upgrading} ?p"
    by (rule users_same, use a in force)+
  show ?thesis
    by (rule rw_inv_move [OF inv]) (simp_all add: i(4) card encode_add_sub same)
qed

lemma inv_try_write:
  assumes inv: "rw_inv s" and a: "rw_phase s a = Outside" and r: "RwLock_try_write (rw_lock s) = (ok, lock)"
  shows "rw_inv (rw_set s a lock (if ok then Writing else Outside))"
proof (cases ok)
  case False
  then have "lock = rw_lock s" using r by (simp add: RwLock_try_write_def split: if_splits)
  then have "rw_set s a lock (if ok then Writing else Outside) = s" using False a by (simp add: fun_upd_idem)
  then show ?thesis using inv by simp
next
  case True
  let ?p = "rw_phase s"
  note i = rw_invD [OF inv]
  have n: "card (counted ?p) = 0" "writers ?p = {}" "upreaders ?p = {}" "users {Upgrading} ?p = {}"
    "lock = encode 0 True False False"
    using r True unfolding i(4) try_write_encode [OF i(8)] by (auto split: if_splits)
  have same: "counted (?p(a := Writing)) = counted ?p" "upreaders (?p(a := Writing)) = upreaders ?p"
    "users {Upgrading} (?p(a := Writing)) = users {Upgrading} ?p"
    by (rule users_same, simp add: a)+
  have "finite (counted ?p)" by (rule finite_users [OF i(1)]) simp
  then have "counted ?p = {}" using n(1) by simp
  then have none: "users {Reading, UpReading, Upgrading, Downgraded} ?p = {}" using n(3) by (auto simp: users_def)
  show ?thesis
    by (rule rw_inv_move [OF inv]) (use True n same users_enter [of Writing "{Writing, Upgraded}" ?p a] none in simp_all)
qed

lemma inv_drop_write:
  assumes inv: "rw_inv s" and a: "rw_phase s a = Writing"
  shows "rw_inv (rw_set s a (rw_lock s AND NOT WRITER) Outside)"
proof -
  let ?p = "rw_phase s"
  note i = rw_invD [OF inv]
  have same: "counted (?p(a := Outside)) = counted ?p" "upreaders (?p(a := Outside)) = upreaders ?p"
    "users {Upgrading} (?p(a := Outside)) = users {Upgrading} ?p"
    by (rule users_same, simp add: a)+
  have "writers (?p(a := Outside)) = {}" by (rule users_leave(1) [OF i(5)]) (simp_all add: a)
  then show ?thesis
    by (intro rw_inv_move [OF inv]) (use same encode_or(3) [OF i(8)] in \<open>simp_all add: i(4)\<close>)
qed

lemma inv_try_upread:
  assumes inv: "rw_inv s" and a: "rw_phase s a = Outside" and r: "RwLock_try_upread (rw_lock s) = (r, lock)"
  shows "rw_inv (rw_set s a lock (case r of UpreadOk \<Rightarrow> UpReading | UpreadUndo \<Rightarrow> UpreadUndoing | UpreadBusy \<Rightarrow> Outside))"
    (is "rw_inv (rw_set s a lock ?q)")
proof -
  let ?p = "rw_phase s"
  note i = rw_invD [OF inv]
  have res: "r = (if upreaders ?p \<noteq> {} then UpreadBusy else if writers ?p \<noteq> {} then UpreadUndo else UpreadOk)"
    and lock: "lock = encode (card (counted ?p)) (writers ?p \<noteq> {}) True (users {Upgrading} ?p \<noteq> {})"
    using r unfolding i(4) try_upread_encode [OF i(8)] by auto
  have same: "counted (?p(a := ?q)) = counted ?p" "writers (?p(a := ?q)) = writers ?p"
    "users {Upgrading} (?p(a := ?q)) = users {Upgrading} ?p"
    by (rule users_same, cases r, simp_all add: a)+
  have up: "upreaders (?p(a := ?q)) \<noteq> {}"
  proof (cases r)
    case UpreadBusy
    then have "upreaders (?p(a := ?q)) = upreaders ?p" by (intro users_same) (simp add: a)
    then show ?thesis using res UpreadBusy by (simp split: if_splits)
  qed (rule users_enter, simp)+
  show ?thesis
    by (rule rw_inv_move [OF inv]) (use res lock same up in \<open>simp_all split: if_splits\<close>)
qed

text \<open>The owner of the upgradeable flag gives it up, staying a writer or leaving.\<close>

lemma inv_clear_upread:
  assumes inv: "rw_inv s"
    and a: "(rw_phase s a \<in> {UpreadUndoing, UpReading} \<and> q = Outside) \<or> (rw_phase s a = Upgraded \<and> q = Writing)"
  shows "rw_inv (rw_set s a (rw_lock s - UPGRADEABLE_READER) q)"
proof -
  let ?p = "rw_phase s"
  note i = rw_invD [OF inv]
  have same: "counted (?p(a := q)) = counted ?p" "writers (?p(a := q)) = writers ?p"
    "users {Upgrading} (?p(a := q)) = users {Upgrading} ?p"
    by (rule users_same, use a in force)+
  have "?p a \<in> {UpreadUndoing, UpReading, Upgrading, Upgraded, Downgraded}"
    "q \<notin> {UpreadUndoing, UpReading, Upgrading, Upgraded, Downgraded}" using a by auto
  note up = users_leave [of ?p, OF i(6) this]
  show ?thesis
    by (rule rw_inv_move [OF inv]) (use a same up in \<open>auto simp: i(4) encode_add_sub\<close>)
qed

lemma inv_upgrade:
  assumes inv: "rw_inv s" and a: "rw_phase s a = UpReading"
  shows "rw_inv (rw_set s a (rw_lock s OR BEING_UPGRADED) Upgrading)"
proof -
  let ?p = "rw_phase s"
  note i = rw_invD [OF inv]
  have same: "counted (?p(a := Upgrading)) = counted ?p" "writers (?p(a := Upgrading)) = writers ?p"
    "upreaders (?p(a := Upgrading)) = upreaders ?p"
    by (rule users_same, simp add: a)+
  have "writers ?p = {}" using i(7) [of _ a] a by (auto simp: users_def)
  then show ?thesis
    by (intro rw_inv_move [OF inv])
      (use a same encode_or(2) [OF i(8)] users_enter [of Upgrading "{Upgrading}" ?p a] in \<open>simp_all add: i(4)\<close>)
qed

lemma inv_try_upgrade:
  assumes inv: "rw_inv s" and a: "rw_phase s a = Upgrading" and r: "RwLockUpgradeableGuard_try_upgrade (rw_lock s) = (ok, lock)"
  shows "rw_inv (rw_set s a lock (if ok then Upgraded else Upgrading))"
proof (cases ok)
  case False
  then have "lock = rw_lock s" using r by (simp add: RwLockUpgradeableGuard_try_upgrade_def split: if_splits)
  then have "rw_set s a lock (if ok then Upgraded else Upgrading) = s" using False a by (simp add: fun_upd_idem)
  then show ?thesis using inv by simp
next
  case True
  let ?p = "rw_phase s"
  note i = rw_invD [OF inv]
  have n: "card (counted ?p) = 0" "writers ?p = {}" "lock = encode 0 True True False"
    using r True unfolding i(4) try_upgrade_encode [OF i(8)] by (auto split: if_splits)
  have same: "counted (?p(a := Upgraded)) = counted ?p" by (rule users_same) (simp add: a)
  have "users {Upgrading} (?p(a := Upgraded)) = {}"
    by (rule users_leave(1)) (use i(6) a in auto)
  moreover have "finite (counted ?p)" by (rule finite_users [OF i(1)]) simp
  then have "counted ?p = {}" using n(1) by simp
  moreover have "x = a" if "?p x \<in> {UpReading, Upgrading, Downgraded}" for x using i(6) [of x a] that a by auto
  ultimately have none: "users {Upgrading} (?p(a := Upgraded)) = {}" "users {Reading, UpReading, Upgrading, Downgraded} ?p - {a} = {}"
    by (auto simp: users_def)
  show ?thesis
    by (rule rw_inv_move [OF inv])
      (use True a n same none users_enter [of Upgraded "{Writing, Upgraded}" ?p a]
        users_enter [of Upgraded "{UpreadUndoing, UpReading, Upgrading, Upgraded, Downgraded}" ?p a] in simp_all)
qed

lemma rw_inv_init: "rw_init s \<Longrightarrow> rw_inv s"
  by (simp add: rw_init_def rw_inv_def users_def undoing_def RwLock_new_def encode_def)

lemma rw_inv_step:
  assumes "rw_inv s" "rwlock_step s t"
  shows "rw_inv t"
  using assms(2)
proof cases
  case try_read
  then show ?thesis using inv_enter_read [OF assms(1)] by simp
next
  case undo_read
  then show ?thesis using inv_leave_read [OF assms(1)] by (simp add: RwLock_undo_read_def)
next
  case drop_read
  then show ?thesis using inv_leave_read [OF assms(1)] by (simp add: RwLockReadGuard_drop_def)
next
  case try_write
  then show ?thesis using inv_try_write [OF assms(1)] by simp
next
  case drop_write
  then show ?thesis using inv_drop_write [OF assms(1)] by (simp add: RwLockWriteGuard_drop_def)
next
  case try_upread
  then show ?thesis using inv_try_upread [OF assms(1)] by simp
next
  case undo_upread
  then show ?thesis using inv_clear_upread [OF assms(1)] by (simp add: RwLock_undo_upread_def)
next
  case drop_upread
  then show ?thesis using inv_clear_upread [OF assms(1)] by (simp add: RwLockUpgradeableGuard_drop_def)
next
  case upgrade
  then show ?thesis using inv_upgrade [OF assms(1)] by (simp add: RwLockUpgradeableGuard_upgrade_def)
next
  case try_upgrade
  then show ?thesis using inv_try_upgrade [OF assms(1)] by simp
next
  case finish_upgrade
  then show ?thesis using inv_clear_upread [OF assms(1)] by (simp add: RwLockUpgradeableGuard_drop_def)
qed

interpretation rwlock: step_system rw_init rwlock_step rw_inv
  by unfold_locales (fact rw_inv_init, fact rw_inv_step)

section \<open>Properties\<close>

text \<open>C6. In every reachable state a writer excludes every other guard, and there is at most one upgradeable
  guard beside the readers.\<close>

theorem rwlock_excludes:
  assumes "reachable_from rw_init rwlock_step s" "a \<noteq> b"
  shows "(rw_phase s a = Writing \<longrightarrow> rw_phase s b \<notin> {Reading, Writing, UpReading, Upgrading, Upgraded}) \<and>
    (rw_phase s a \<in> {UpReading, Upgrading} \<longrightarrow> rw_phase s b \<notin> {Writing, UpReading, Upgrading})"
proof -
  note i = rw_invD [OF rwlock.reachable_invar [OF assms(1)]]
  show ?thesis using i(5) [of a b] i(6) [of a b] i(7) [of a b] i(7) [of b a] assms(2) by auto
qed

text \<open>C23. The lock word is always well formed: its value is the number of users that hold the lock for reading
  or are undoing an attempt, which never reaches the flags, plus a flag for the writer, for the owner of the
  upgradeable flag and for an upgrade in progress.\<close>

theorem rwlock_word_well_formed:
  assumes "reachable_from rw_init rwlock_step s"
  shows "unat (rw_lock s) = card (counted (rw_phase s)) +
      2 ^ 63 * of_bool (writers (rw_phase s) \<noteq> {}) + 2 ^ 62 * of_bool (upreaders (rw_phase s) \<noteq> {}) +
      2 ^ 61 * of_bool (users {Upgrading} (rw_phase s) \<noteq> {}) \<and>
    card (counted (rw_phase s)) < 2 ^ 61"
proof -
  note i = rw_invD [OF rwlock.reachable_invar [OF assms]]
  show ?thesis using unat_encode [OF i(8)] i(4,8) by (simp add: flags_def algebra_simps)
qed

text \<open>C24. Attempts that have to succeed do: when no user is inside, each of the three attempts gets its guard;
  when no user holds the lock for writing and no upgrade is in progress, a reader gets in unless there are
  \<open>MAX_READER\<close> users counted; and an upgrade succeeds as soon as no user is counted.\<close>

theorem rwlock_attempts_succeed:
  assumes "reachable_from rw_init rwlock_step s"
  shows "((\<forall>a. rw_phase s a = Outside) \<longrightarrow>
      fst (RwLock_try_read (rw_lock s)) \<and> fst (RwLock_try_write (rw_lock s)) \<and> fst (RwLock_try_upread (rw_lock s)) = UpreadOk) \<and>
    (writers (rw_phase s) = {} \<and> users {Upgrading} (rw_phase s) = {} \<and> card (counted (rw_phase s)) < 2 ^ 60 \<longrightarrow>
      fst (RwLock_try_read (rw_lock s))) \<and>
    (counted (rw_phase s) = {} \<and> rw_phase s a = Upgrading \<longrightarrow> fst (RwLockUpgradeableGuard_try_upgrade (rw_lock s)))"
proof (intro conjI impI)
  note i = rw_invD [OF rwlock.reachable_invar [OF assms]]
  note word = try_read_encode [OF i(8)] try_write_encode [OF i(8)] try_upread_encode [OF i(8)] try_upgrade_encode [OF i(8)]
  show "fst (RwLock_try_read (rw_lock s))" "fst (RwLock_try_write (rw_lock s))" "fst (RwLock_try_upread (rw_lock s)) = UpreadOk"
    if "\<forall>a. rw_phase s a = Outside"
    unfolding i(4) word using that by (simp_all add: users_def)
  show "fst (RwLock_try_read (rw_lock s))"
    if "writers (rw_phase s) = {} \<and> users {Upgrading} (rw_phase s) = {} \<and> card (counted (rw_phase s)) < 2 ^ 60"
    unfolding i(4) word using that by simp
  show "fst (RwLockUpgradeableGuard_try_upgrade (rw_lock s))" if a: "counted (rw_phase s) = {} \<and> rw_phase s a = Upgrading"
  proof -
    have "writers (rw_phase s) = {}" using i(7) [of _ a] a by (auto simp: users_def)
    moreover have "a \<in> upreaders (rw_phase s)" "a \<in> users {Upgrading} (rw_phase s)" using a by simp_all
    ultimately show ?thesis unfolding i(4) word using a by auto
  qed
qed

text \<open>A run of three users: a reader, and a user that becomes an upgradeable reader and starts an upgrade.\<close>

definition upgrade_run :: rw_state where
  "upgrade_run = \<lparr>rw_lock = UPGRADEABLE_READER OR BEING_UPGRADED, rw_phase = (\<lambda>_. Outside)(1 := Upgrading)\<rparr>"

lemma upgrade_run_reachable: "reachable_from rw_init rwlock_step upgrade_run"
proof -
  let ?s0 = "\<lparr>rw_lock = RwLock_new, rw_phase = \<lambda>_. Outside\<rparr>"
  let ?s1 = "\<lparr>rw_lock = UPGRADEABLE_READER, rw_phase = (\<lambda>_. Outside)(1 := UpReading)\<rparr>"
  have "reachable_from rw_init rwlock_step ?s0" by (rule reach_init) (simp add: rw_init_def)
  moreover have "RwLock_try_upread RwLock_new = (UpreadOk, UPGRADEABLE_READER)"
    using try_upread_encode [of 0 False False False] by (simp add: RwLock_new_def flip: encode_consts(1,3))
  then have "rwlock_step ?s0 ?s1" using try_upread [of ?s0 1 UpreadOk UPGRADEABLE_READER] by simp
  ultimately have "reachable_from rw_init rwlock_step ?s1" by (rule reach_step)
  moreover have "rwlock_step ?s1 upgrade_run"
    using upgrade [of ?s1 1] by (simp add: upgrade_run_def RwLockUpgradeableGuard_upgrade_def)
  ultimately show ?thesis by (rule reach_step)
qed

theorem rwlock_excludes_witness: "rw_phase upgrade_run 1 = Upgrading \<and> rw_phase upgrade_run 2 \<notin> {Writing, UpReading, Upgrading}"
  using rwlock_excludes [OF upgrade_run_reachable, of 1 2] by (simp add: upgrade_run_def)

theorem rwlock_word_well_formed_witness: "unat (rw_lock upgrade_run) = 2 ^ 62 + 2 ^ 61"
proof -
  have "counted (rw_phase upgrade_run) = {}" "writers (rw_phase upgrade_run) = {}" "upreaders (rw_phase upgrade_run) = {1}"
    "users {Upgrading} (rw_phase upgrade_run) = {1}"
    by (auto simp: users_def upgrade_run_def)
  then show ?thesis using rwlock_word_well_formed [OF upgrade_run_reachable] by simp
qed

theorem rwlock_attempts_succeed_witness: "fst (RwLockUpgradeableGuard_try_upgrade (rw_lock upgrade_run))"
proof -
  have "counted (rw_phase upgrade_run) = {} \<and> rw_phase upgrade_run 1 = Upgrading" by (auto simp: users_def upgrade_run_def)
  then show ?thesis using rwlock_attempts_succeed [OF upgrade_run_reachable, of 1] by simp
qed

end
