(* ===== verification/Rw_Mutex.thy ===== *)
theory Rw_Mutex
  imports Rw_Lock Wait_Queue
begin

text \<open>
  The sleeping reader-writer lock, \<open>ostd/src/sync/rwmutex.rs\<close>. Its word has the layout of the spinning lock
  and its constants have the same values; its operations also wake up the users that sleep in its queue, and
  a write guard can be downgraded. As for the mutex, a user is one call with the guard it returns, and takes
  steps of one atomic instruction or of one critical section of the queue.
\<close>

section \<open>The instructions on the word\<close>

definition RwMutex_new :: "64 word" where
  "RwMutex_new = 0"

definition RwMutex_try_read :: "64 word \<Rightarrow> bool \<times> 64 word" where
  "RwMutex_try_read lock = (lock AND (WRITER OR BEING_UPGRADED OR MAX_READER) = 0, lock + READER)"

definition RwMutex_undo_read :: "64 word \<Rightarrow> 64 word" where
  "RwMutex_undo_read lock = lock - READER"

definition RwMutex_try_write :: "64 word \<Rightarrow> bool \<times> 64 word" where
  "RwMutex_try_write lock = (if lock = 0 then (True, WRITER) else (False, lock))"

definition RwMutex_try_upread :: "64 word \<Rightarrow> upread_result \<times> 64 word" where
  "RwMutex_try_upread lock =
     (let old = lock AND (WRITER OR UPGRADEABLE_READER) in
      (if old = 0 then UpreadOk else if old = WRITER then UpreadUndo else UpreadBusy, lock OR UPGRADEABLE_READER))"

definition RwMutex_undo_upread :: "64 word \<Rightarrow> 64 word" where
  "RwMutex_undo_upread lock = lock - UPGRADEABLE_READER"

text \<open>The drops, with whether \<open>wake_one\<close> (reader) or \<open>wake_all\<close> (upgradeable reader) follows; it always
  follows the drop of a write guard.\<close>

definition RwMutexReadGuard_drop :: "64 word \<Rightarrow> bool \<times> 64 word" where
  "RwMutexReadGuard_drop lock = (lock = READER, lock - READER)"

definition RwMutexWriteGuard_drop :: "64 word \<Rightarrow> 64 word" where
  "RwMutexWriteGuard_drop lock = lock AND NOT WRITER"

definition RwMutexUpgradeableGuard_drop :: "64 word \<Rightarrow> bool \<times> 64 word" where
  "RwMutexUpgradeableGuard_drop lock = (lock = UPGRADEABLE_READER, lock - UPGRADEABLE_READER)"

definition RwMutexWriteGuard_try_downgrade :: "64 word \<Rightarrow> bool \<times> 64 word" where
  "RwMutexWriteGuard_try_downgrade lock = (if lock = WRITER then (True, UPGRADEABLE_READER) else (False, lock))"

definition RwMutexUpgradeableGuard_upgrade :: "64 word \<Rightarrow> 64 word" where
  "RwMutexUpgradeableGuard_upgrade lock = lock OR BEING_UPGRADED"

definition RwMutexUpgradeableGuard_try_upgrade :: "64 word \<Rightarrow> bool \<times> 64 word" where
  "RwMutexUpgradeableGuard_try_upgrade lock =
     (if lock = UPGRADEABLE_READER OR BEING_UPGRADED then (True, WRITER OR UPGRADEABLE_READER) else (False, lock))"

section \<open>The users of the lock\<close>

datatype rw_kind = WantRead | WantWrite | WantUpread

text \<open>An attempt of a \<open>try_\<close> function, the first attempt of a blocking call, or one after enqueueing.\<close>

datatype attempt = Once | First | Again

text \<open>
  \<open>RM_Closing\<close> has its guard but has not closed its waiter. \<open>RM_Release\<close>, \<open>RM_Scanning\<close> and \<open>RM_Waking\<close> are
  inside \<open>wake_one\<close> or, with the flag set, \<open>wake_all\<close>; what the user holds meanwhile and afterwards is the
  phase they carry.
\<close>

datatype rm_phase = RM_Start | RM_Retry rw_kind | RM_Enqueued rw_kind | RM_Waiting rw_kind
  | RM_ReadUndo attempt | RM_UpreadUndo attempt | RM_Closing rw_phase | RM_Guard rw_phase
  | RM_Release bool rw_phase | RM_Scanning bool rw_phase | RM_Waking bool nat rw_phase | RM_Done

record rm_state =
  rm_lock :: "64 word"
  rm_queue :: "nat WaitQueue"
  rm_woken :: "nat \<Rightarrow> bool"
  rm_phase :: "nat \<Rightarrow> rm_phase"

abbreviation rm_set :: "nat \<Rightarrow> rm_phase \<Rightarrow> rm_state \<Rightarrow> rm_state" where
  "rm_set a p s \<equiv> s\<lparr>rm_phase := (rm_phase s)(a := p)\<rparr>"

definition attempts :: "rm_phase \<Rightarrow> rw_kind \<Rightarrow> attempt \<Rightarrow> bool" where
  "attempts p k att \<longleftrightarrow> p = RM_Start \<and> att \<noteq> Again \<or> p = RM_Enqueued k \<and> att = Again"

text \<open>After a failed attempt: give up, create a waiter and enqueue it, or wait.\<close>

definition rm_fail :: "nat \<Rightarrow> rw_kind \<Rightarrow> attempt \<Rightarrow> rm_state \<Rightarrow> rm_state" where
  "rm_fail a k att s =
     (case att of
        Once \<Rightarrow> rm_set a RM_Done s
      | First \<Rightarrow> rm_set a (RM_Retry k) (s\<lparr>rm_woken := Waiter_new_pair a (rm_woken s)\<rparr>)
      | Again \<Rightarrow> rm_set a (RM_Waiting k) s)"

definition rm_got :: "attempt \<Rightarrow> rw_phase \<Rightarrow> rm_phase" where
  "rm_got att g = (if att = Again then RM_Closing g else RM_Guard g)"

definition rm_after :: "rw_phase \<Rightarrow> rm_phase" where
  "rm_after g = (if g = Outside then RM_Done else RM_Guard g)"

text \<open>What a user does to the word: the phase of the spinning lock it corresponds to.\<close>

fun held :: "rm_phase \<Rightarrow> rw_phase" where
  "held (RM_ReadUndo att) = ReadUndo"
| "held (RM_UpreadUndo att) = UpreadUndoing"
| "held (RM_Closing g) = g"
| "held (RM_Guard g) = g"
| "held (RM_Release all g) = g"
| "held (RM_Scanning all g) = g"
| "held (RM_Waking all w g) = g"
| "held _ = Outside"

inductive rm_step :: "rm_state \<Rightarrow> rm_state \<Rightarrow> bool" where
  read: "attempts (rm_phase s a) WantRead att \<Longrightarrow> card (undoing (held \<circ> rm_phase s)) < 2 ^ 60 - 1 \<Longrightarrow>
    RwMutex_try_read (rm_lock s) = (ok, lock) \<Longrightarrow>
    rm_step s (rm_set a (if ok then rm_got att Reading else RM_ReadUndo att) (s\<lparr>rm_lock := lock\<rparr>))"
| read_undo: "rm_phase s a = RM_ReadUndo att \<Longrightarrow>
    rm_step s (rm_fail a WantRead att (s\<lparr>rm_lock := RwMutex_undo_read (rm_lock s)\<rparr>))"
| write_ok: "attempts (rm_phase s a) WantWrite att \<Longrightarrow> RwMutex_try_write (rm_lock s) = (True, lock) \<Longrightarrow>
    rm_step s (rm_set a (rm_got att Writing) (s\<lparr>rm_lock := lock\<rparr>))"
| write_fails: "attempts (rm_phase s a) WantWrite att \<Longrightarrow> RwMutex_try_write (rm_lock s) = (False, lock) \<Longrightarrow>
    rm_step s (rm_fail a WantWrite att s)"
| upread: "attempts (rm_phase s a) WantUpread att \<Longrightarrow> RwMutex_try_upread (rm_lock s) = (UpreadOk, lock) \<Longrightarrow>
    rm_step s (rm_set a (rm_got att UpReading) (s\<lparr>rm_lock := lock\<rparr>))"
| upread_fails: "attempts (rm_phase s a) WantUpread att \<Longrightarrow> RwMutex_try_upread (rm_lock s) = (UpreadUndo, lock) \<Longrightarrow>
    rm_step s (rm_set a (RM_UpreadUndo att) (s\<lparr>rm_lock := lock\<rparr>))"
| upread_busy: "attempts (rm_phase s a) WantUpread att \<Longrightarrow> RwMutex_try_upread (rm_lock s) = (UpreadBusy, lock) \<Longrightarrow>
    rm_step s (rm_fail a WantUpread att (s\<lparr>rm_lock := lock\<rparr>))"
| upread_undo: "rm_phase s a = RM_UpreadUndo att \<Longrightarrow>
    rm_step s (rm_fail a WantUpread att (s\<lparr>rm_lock := RwMutex_undo_upread (rm_lock s)\<rparr>))"
| enqueue: "rm_phase s a = RM_Retry k \<Longrightarrow> length (wakers (rm_queue s)) < 2 ^ 32 - 1 \<Longrightarrow>
    rm_step s (rm_set a (RM_Enqueued k) (s\<lparr>rm_queue := WaitQueue_enqueue a (rm_queue s)\<rparr>))"
| wakes: "rm_phase s a = RM_Waiting k \<Longrightarrow> Waker_do_wait a (rm_woken s) = Some woken \<Longrightarrow>
    rm_step s (rm_set a (RM_Retry k) (s\<lparr>rm_woken := woken\<rparr>))"
| closes: "rm_phase s a = RM_Closing g \<Longrightarrow>
    rm_step s (rm_set a (RM_Guard g) (s\<lparr>rm_woken := Waker_close a (rm_woken s)\<rparr>))"
| drop_read: "rm_phase s a = RM_Guard Reading \<Longrightarrow> RwMutexReadGuard_drop (rm_lock s) = (wake, lock) \<Longrightarrow>
    rm_step s (rm_set a (if wake then RM_Release False Outside else RM_Done) (s\<lparr>rm_lock := lock\<rparr>))"
| drop_write: "rm_phase s a = RM_Guard Writing \<Longrightarrow>
    rm_step s (rm_set a (RM_Release True Outside) (s\<lparr>rm_lock := RwMutexWriteGuard_drop (rm_lock s)\<rparr>))"
| drop_upread: "rm_phase s a = RM_Guard UpReading \<Longrightarrow> RwMutexUpgradeableGuard_drop (rm_lock s) = (wake, lock) \<Longrightarrow>
    rm_step s (rm_set a (if wake then RM_Release True Outside else RM_Done) (s\<lparr>rm_lock := lock\<rparr>))"
| upgrade: "rm_phase s a = RM_Guard UpReading \<Longrightarrow>
    rm_step s (rm_set a (RM_Guard Upgrading) (s\<lparr>rm_lock := RwMutexUpgradeableGuard_upgrade (rm_lock s)\<rparr>))"
| try_upgrade: "rm_phase s a = RM_Guard Upgrading \<Longrightarrow> RwMutexUpgradeableGuard_try_upgrade (rm_lock s) = (ok, lock) \<Longrightarrow>
    rm_step s (rm_set a (RM_Guard (if ok then Upgraded else Upgrading)) (s\<lparr>rm_lock := lock\<rparr>))"
| upgraded: "rm_phase s a = RM_Guard Upgraded \<Longrightarrow> RwMutexUpgradeableGuard_drop (rm_lock s) = (wake, lock) \<Longrightarrow>
    rm_step s (rm_set a (if wake then RM_Release True Writing else RM_Guard Writing) (s\<lparr>rm_lock := lock\<rparr>))"
| try_downgrade: "rm_phase s a = RM_Guard Writing \<Longrightarrow> RwMutexWriteGuard_try_downgrade (rm_lock s) = (ok, lock) \<Longrightarrow>
    rm_step s (rm_set a (RM_Guard (if ok then Downgraded else Writing)) (s\<lparr>rm_lock := lock\<rparr>))"
| downgraded: "rm_phase s a = RM_Guard Downgraded \<Longrightarrow>
    rm_step s (rm_set a (RM_Release True UpReading) (s\<lparr>rm_lock := RwMutexWriteGuard_drop (rm_lock s)\<rparr>))"
| wake_check: "rm_phase s a = RM_Release all g \<Longrightarrow>
    rm_step s (rm_set a (if WaitQueue_is_empty (rm_queue s) then rm_after g else RM_Scanning all g) s)"
| wake_none: "rm_phase s a = RM_Scanning all g \<Longrightarrow> WaitQueue_pop (rm_queue s) = None \<Longrightarrow> rm_step s (rm_set a (rm_after g) s)"
| wake_pop: "rm_phase s a = RM_Scanning all g \<Longrightarrow> WaitQueue_pop (rm_queue s) = Some (w, queue) \<Longrightarrow>
    rm_step s (rm_set a (RM_Waking all w g) (s\<lparr>rm_queue := queue\<rparr>))"
| wake: "rm_phase s a = RM_Waking all w g \<Longrightarrow> Waker_wake_up w (rm_woken s) = (woke, woken) \<Longrightarrow>
    rm_step s (rm_set a (if woke \<and> \<not> all then rm_after g else RM_Scanning all g) (s\<lparr>rm_woken := woken\<rparr>))"

definition rm_start :: rm_state where
  "rm_start = \<lparr>rm_lock = RwMutex_new, rm_queue = WaitQueue_new, rm_woken = \<lambda>_. False, rm_phase = \<lambda>_. RM_Start\<rparr>"

definition rm_init :: "rm_state \<Rightarrow> bool" where
  "rm_init s \<longleftrightarrow> s = rm_start"

section \<open>The word follows the protocol of the spinning lock\<close>

text \<open>The steps of the spinning lock and the two of a downgrade.\<close>

inductive rw_protocol :: "rw_state \<Rightarrow> rw_state \<Rightarrow> bool" where
  spinning: "rwlock_step s t \<Longrightarrow> rw_protocol s t"
| downgrades: "rw_phase s a = Writing \<Longrightarrow> RwMutexWriteGuard_try_downgrade (rw_lock s) = (ok, lock) \<Longrightarrow>
    rw_protocol s (rw_set s a lock (if ok then Downgraded else Writing))"
| downgrade_ends: "rw_phase s a = Downgraded \<Longrightarrow> rw_protocol s (rw_set s a (RwMutexWriteGuard_drop (rw_lock s)) UpReading)"

definition rm_word :: "rm_state \<Rightarrow> rw_state" where
  "rm_word s = \<lparr>rw_lock = rm_lock s, rw_phase = held \<circ> rm_phase s\<rparr>"

lemma rw_inv_downgrades:
  assumes inv: "rw_inv s" and a: "rw_phase s a = Writing" and r: "RwMutexWriteGuard_try_downgrade (rw_lock s) = (ok, lock)"
  shows "rw_inv (rw_set s a lock (if ok then Downgraded else Writing))"
proof (cases ok)
  case False
  then have "lock = rw_lock s" using r by (simp add: RwMutexWriteGuard_try_downgrade_def split: if_splits)
  then have "rw_set s a lock (if ok then Downgraded else Writing) = s" using False a by (simp add: fun_upd_idem)
  then show ?thesis using inv by simp
next
  case True
  let ?p = "rw_phase s"
  note i = rw_invD [OF inv]
  have "encode (card (counted ?p)) (writers ?p \<noteq> {}) (upreaders ?p \<noteq> {}) (users {Upgrading} ?p \<noteq> {}) = encode 0 True False False"
    and lock: "lock = encode 0 False True False"
    using r True unfolding i(4) encode_consts(2,3) by (auto simp: RwMutexWriteGuard_try_downgrade_def encode_consts(2,3) split: if_splits)
  then have n: "card (counted ?p) = 0" "upreaders ?p = {}" "users {Upgrading} ?p = {}"
    using encode_eq_iff [OF i(8), of 0] by auto
  have same: "counted (?p(a := Downgraded)) = counted ?p" "users {Upgrading} (?p(a := Downgraded)) = users {Upgrading} ?p"
    by (rule users_same, simp add: a)+
  have w: "writers (?p(a := Downgraded)) = {}" by (rule users_leave(1) [OF i(5)]) (simp_all add: a)
  have "writers ?p - {a} = {}" using i(5) [of _ a] a by (auto simp: users_def)
  then show ?thesis
    by (intro rw_inv_move [OF inv])
      (use True lock n same w users_enter [of Downgraded "{UpreadUndoing, UpReading, Upgrading, Upgraded, Downgraded}" ?p a] in simp_all)
qed

lemma rw_inv_downgrade_ends:
  assumes inv: "rw_inv s" and a: "rw_phase s a = Downgraded"
  shows "rw_inv (rw_set s a (RwMutexWriteGuard_drop (rw_lock s)) UpReading)"
proof -
  let ?p = "rw_phase s"
  note i = rw_invD [OF inv]
  have same: "counted (?p(a := UpReading)) = counted ?p" "users {Upgrading} (?p(a := UpReading)) = users {Upgrading} ?p"
    "writers (?p(a := UpReading)) = writers ?p" "upreaders (?p(a := UpReading)) = upreaders ?p"
    by (rule users_same, simp add: a)+
  have "writers ?p = {}" using i(7) [of _ a] a by (auto simp: users_def)
  then show ?thesis
    by (intro rw_inv_move [OF inv]) (use a same encode_or(3) [OF i(8)] in \<open>simp_all add: i(4) RwMutexWriteGuard_drop_def\<close>)
qed

lemma rw_inv_protocol: "rw_inv s \<Longrightarrow> rw_protocol s t \<Longrightarrow> rw_inv t"
  by (erule rw_protocol.cases) (simp_all add: rw_inv_step rw_inv_downgrades rw_inv_downgrade_ends)

lemma held_got [simp]: "held (rm_got att g) = g" "held (rm_after g) = g"
  by (simp_all add: rm_got_def rm_after_def)

lemma held_attempts: "attempts p k att \<Longrightarrow> held p = Outside"
  by (auto simp: attempts_def)

lemma rm_word_set [simp]:
  "rm_word (s\<lparr>rm_phase := p\<rparr>) = (rm_word s)\<lparr>rw_phase := held \<circ> p\<rparr>" "held \<circ> f(a := q) = (held \<circ> f)(a := held q)"
  "rw_lock (rm_word s) = rm_lock s" "rw_phase (rm_word s) = held \<circ> rm_phase s"
  "rm_word (s\<lparr>rm_lock := l\<rparr>) = (rm_word s)\<lparr>rw_lock := l\<rparr>" "rm_word (s\<lparr>rm_woken := woken\<rparr>) = rm_word s"
  "rm_word (s\<lparr>rm_queue := queue\<rparr>) = rm_word s"
  by (simp_all add: rm_word_def fun_upd_comp)

lemma rm_word_fail: "rm_word (rm_fail a k att s) = (rm_word s)\<lparr>rw_phase := (held \<circ> rm_phase s)(a := Outside)\<rparr>"
  by (cases att) (simp_all add: rm_fail_def)

lemma stays: "held (rm_phase s a) = p \<Longrightarrow> (rm_word s)\<lparr>rw_phase := (held \<circ> rm_phase s)(a := p)\<rparr> = rm_word s"
  by (simp add: fun_upd_idem rm_word_def)

text \<open>The instructions are those of the spinning lock.\<close>

lemma same_instructions:
  "RwMutex_try_read = RwLock_try_read" "RwMutex_undo_read = RwLock_undo_read" "RwMutex_try_write = RwLock_try_write"
  "RwMutex_try_upread = RwLock_try_upread" "RwMutex_undo_upread = RwLock_undo_upread"
  "RwMutexWriteGuard_drop = RwLockWriteGuard_drop" "RwMutexUpgradeableGuard_upgrade = RwLockUpgradeableGuard_upgrade"
  "RwMutexUpgradeableGuard_try_upgrade = RwLockUpgradeableGuard_try_upgrade"
  "snd (RwMutexReadGuard_drop l) = RwLockReadGuard_drop l" "snd (RwMutexUpgradeableGuard_drop l) = RwLockUpgradeableGuard_drop l"
  by (auto simp: fun_eq_iff RwMutex_try_read_def RwLock_try_read_def RwMutex_undo_read_def RwLock_undo_read_def
    RwMutex_try_write_def RwLock_try_write_def RwMutex_try_upread_def RwLock_try_upread_def RwMutex_undo_upread_def
    RwLock_undo_upread_def RwMutexWriteGuard_drop_def RwLockWriteGuard_drop_def RwMutexUpgradeableGuard_upgrade_def
    RwLockUpgradeableGuard_upgrade_def RwMutexUpgradeableGuard_try_upgrade_def RwLockUpgradeableGuard_try_upgrade_def
    RwMutexReadGuard_drop_def RwLockReadGuard_drop_def RwMutexUpgradeableGuard_drop_def RwLockUpgradeableGuard_drop_def or.commute [of BEING_UPGRADED])

lemma rm_step_protocol:
  assumes "rm_step s t"
  shows "rw_protocol (rm_word s) (rm_word t) \<or> rm_word t = rm_word s"
  using assms
proof cases
  case (read a att ok lock)
  have "rwlock_step (rm_word s) (rw_set (rm_word s) a lock (if ok then Reading else ReadUndo))"
    by (rule try_read) (use read held_attempts in \<open>auto simp: rm_word_def same_instructions\<close>)
  then show ?thesis using read by (auto intro: spinning)
next
  case (read_undo a att)
  have "rwlock_step (rm_word s) (rw_set (rm_word s) a (RwLock_undo_read (rw_lock (rm_word s))) Outside)"
    by (rule Rw_Lock.undo_read) (use read_undo in simp)
  then show ?thesis using read_undo by (auto intro: spinning simp: rm_word_fail same_instructions)
next
  case (write_ok a att lock)
  have "rwlock_step (rm_word s) (rw_set (rm_word s) a lock (if True then Writing else Outside))"
    by (rule try_write) (use write_ok held_attempts in \<open>auto simp: same_instructions\<close>)
  then show ?thesis using write_ok by (auto intro: spinning)
next
  case (write_fails a att lock)
  then show ?thesis using held_attempts [OF write_fails(2)] stays [of s a Outside] by (simp add: rm_word_fail)
next
  case (upread a att lock)
  have "rwlock_step (rm_word s) (rw_set (rm_word s) a lock (case UpreadOk of UpreadOk \<Rightarrow> UpReading | UpreadUndo \<Rightarrow> UpreadUndoing | UpreadBusy \<Rightarrow> Outside))"
    by (rule try_upread) (use upread held_attempts in \<open>auto simp: same_instructions\<close>)
  then show ?thesis using upread by (auto intro: spinning)
next
  case (upread_fails a att lock)
  have "rwlock_step (rm_word s) (rw_set (rm_word s) a lock (case UpreadUndo of UpreadOk \<Rightarrow> UpReading | UpreadUndo \<Rightarrow> UpreadUndoing | UpreadBusy \<Rightarrow> Outside))"
    by (rule try_upread) (use upread_fails held_attempts in \<open>auto simp: same_instructions\<close>)
  then show ?thesis using upread_fails by (auto intro: spinning)
next
  case (upread_busy a att lock)
  have "rwlock_step (rm_word s) (rw_set (rm_word s) a lock (case UpreadBusy of UpreadOk \<Rightarrow> UpReading | UpreadUndo \<Rightarrow> UpreadUndoing | UpreadBusy \<Rightarrow> Outside))"
    by (rule try_upread) (use upread_busy held_attempts in \<open>auto simp: same_instructions\<close>)
  then show ?thesis using upread_busy by (auto intro: spinning simp: rm_word_fail)
next
  case (upread_undo a att)
  have "rwlock_step (rm_word s) (rw_set (rm_word s) a (RwLock_undo_upread (rw_lock (rm_word s))) Outside)"
    by (rule Rw_Lock.undo_upread) (use upread_undo in simp)
  then show ?thesis using upread_undo by (auto intro: spinning simp: rm_word_fail same_instructions)
next
  case (drop_read a wake lock)
  have "rwlock_step (rm_word s) (rw_set (rm_word s) a (RwLockReadGuard_drop (rw_lock (rm_word s))) Outside)"
    by (rule Rw_Lock.drop_read) (use drop_read in simp)
  moreover have "lock = RwLockReadGuard_drop (rm_lock s)" using drop_read(3) same_instructions(9) [of "rm_lock s"] by simp
  ultimately show ?thesis using drop_read by (auto intro: spinning)
next
  case (drop_write a)
  have "rwlock_step (rm_word s) (rw_set (rm_word s) a (RwLockWriteGuard_drop (rw_lock (rm_word s))) Outside)"
    by (rule Rw_Lock.drop_write) (use drop_write in simp)
  then show ?thesis using drop_write by (auto intro: spinning simp: same_instructions)
next
  case (drop_upread a wake lock)
  have "rwlock_step (rm_word s) (rw_set (rm_word s) a (RwLockUpgradeableGuard_drop (rw_lock (rm_word s))) Outside)"
    by (rule Rw_Lock.drop_upread) (use drop_upread in simp)
  moreover have "lock = RwLockUpgradeableGuard_drop (rm_lock s)" using drop_upread(3) same_instructions(10) [of "rm_lock s"] by simp
  ultimately show ?thesis using drop_upread by (auto intro: spinning)
next
  case (upgrade a)
  have "rwlock_step (rm_word s) (rw_set (rm_word s) a (RwLockUpgradeableGuard_upgrade (rw_lock (rm_word s))) Upgrading)"
    by (rule Rw_Lock.upgrade) (use upgrade in simp)
  then show ?thesis using upgrade by (auto intro: spinning simp: same_instructions)
next
  case (try_upgrade a ok lock)
  have "rwlock_step (rm_word s) (rw_set (rm_word s) a lock (if ok then Upgraded else Upgrading))"
    by (rule Rw_Lock.try_upgrade) (use try_upgrade in \<open>auto simp: same_instructions\<close>)
  then show ?thesis using try_upgrade by (auto intro: spinning)
next
  case (upgraded a wake lock)
  have "rwlock_step (rm_word s) (rw_set (rm_word s) a (RwLockUpgradeableGuard_drop (rw_lock (rm_word s))) Writing)"
    by (rule finish_upgrade) (use upgraded in simp)
  moreover have "lock = RwLockUpgradeableGuard_drop (rm_lock s)" using upgraded(3) same_instructions(10) [of "rm_lock s"] by simp
  ultimately show ?thesis using upgraded by (auto intro: spinning)
next
  case (try_downgrade a ok lock)
  have "rw_protocol (rm_word s) (rw_set (rm_word s) a lock (if ok then Downgraded else Writing))"
    by (rule downgrades) (use try_downgrade in simp_all)
  then show ?thesis using try_downgrade by auto
next
  case (downgraded a)
  have "rw_protocol (rm_word s) (rw_set (rm_word s) a (RwMutexWriteGuard_drop (rw_lock (rm_word s))) UpReading)"
    by (rule downgrade_ends) (use downgraded in simp)
  then show ?thesis using downgraded by simp
qed (use stays in \<open>auto simp: stays\<close>)

interpretation rwmutex: step_system rm_init rm_step "\<lambda>s. rw_inv (rm_word s)"
proof
  show "rw_inv (rm_word s)" if "rm_init s" for s
    using rw_inv_init [of "rm_word s"] that
    by (simp add: rm_init_def rm_start_def rw_init_def rm_word_def RwMutex_new_def RwLock_new_def comp_def)
  show "rw_inv (rm_word t)" if "rw_inv (rm_word s)" "rm_step s t" for s t
    using rm_step_protocol [OF that(2)] rw_inv_protocol [OF that(1)] that(1) by auto
qed

section \<open>Properties\<close>

text \<open>C5. In every reachable state a write guard excludes every other guard, and there is at most one upgradeable
  guard; upgrades and downgrades included.\<close>

theorem rwmutex_excludes:
  assumes "reachable_from rm_init rm_step s" "a \<noteq> b"
  shows "(held (rm_phase s a) = Writing \<longrightarrow> held (rm_phase s b) \<notin> {Reading, Writing, UpReading, Upgrading, Upgraded, Downgraded}) \<and>
    (held (rm_phase s a) \<in> {UpReading, Upgrading, Downgraded} \<longrightarrow> held (rm_phase s b) \<notin> {Writing, UpReading, Upgrading, Downgraded})"
proof -
  note i = rw_invD [OF rwmutex.reachable_invar [OF assms(1)]]
  show ?thesis using i(5) [of a b] i(6) [of a b] i(7) [of a b] i(7) [of b a] assms(2) by auto
qed

text \<open>A run of a writer 2, a second writer 3 that waits and a user 4 of \<open>try_read\<close>.\<close>

definition three_users :: "64 word \<Rightarrow> nat WaitQueue \<Rightarrow> bool \<Rightarrow> rm_phase \<Rightarrow> rm_phase \<Rightarrow> rm_phase \<Rightarrow> rm_state" where
  "three_users lock queue woken p0 p1 p2 =
     \<lparr>rm_lock = lock, rm_queue = queue, rm_woken = (\<lambda>_. False)(3 := woken), rm_phase = (\<lambda>_. RM_Start)(2 := p0, 3 := p1, 4 := p2)\<rparr>"

abbreviation "waiting_3 \<equiv> WaitQueue_enqueue 3 WaitQueue_new"

lemma three_users_set:
  "(three_users l w v p0 p1 p2)\<lparr>rm_phase := (rm_phase (three_users l w v p0 p1 p2))(2 := q)\<rparr> = three_users l w v q p1 p2"
  "(three_users l w v p0 p1 p2)\<lparr>rm_lock := l', rm_phase := (rm_phase (three_users l w v p0 p1 p2))(2 := q)\<rparr> = three_users l' w v q p1 p2"
  "(three_users l w v p0 p1 p2)\<lparr>rm_queue := w', rm_phase := (rm_phase (three_users l w v p0 p1 p2))(2 := q)\<rparr> = three_users l w' v q p1 p2"
  "(three_users l w v p0 p1 p2)\<lparr>rm_woken := (rm_woken (three_users l w v p0 p1 p2))(3 := v'), rm_phase := (rm_phase (three_users l w v p0 p1 p2))(2 := q)\<rparr> = three_users l w v' q p1 p2"
  "(three_users l w v p0 p1 p2)\<lparr>rm_phase := (rm_phase (three_users l w v p0 p1 p2))(3 := q)\<rparr> = three_users l w v p0 q p2"
  "(three_users l w v p0 p1 p2)\<lparr>rm_lock := l', rm_phase := (rm_phase (three_users l w v p0 p1 p2))(3 := q)\<rparr> = three_users l' w v p0 q p2"
  "(three_users l w v p0 p1 p2)\<lparr>rm_queue := w', rm_phase := (rm_phase (three_users l w v p0 p1 p2))(3 := q)\<rparr> = three_users l w' v p0 q p2"
  "(three_users l w v p0 p1 p2)\<lparr>rm_woken := (rm_woken (three_users l w v p0 p1 p2))(3 := v'), rm_phase := (rm_phase (three_users l w v p0 p1 p2))(3 := q)\<rparr> = three_users l w v' p0 q p2"
  "(three_users l w v p0 p1 p2)\<lparr>rm_phase := (rm_phase (three_users l w v p0 p1 p2))(4 := q)\<rparr> = three_users l w v p0 p1 q"
  "(three_users l w v p0 p1 p2)\<lparr>rm_lock := l', rm_phase := (rm_phase (three_users l w v p0 p1 p2))(4 := q)\<rparr> = three_users l' w v p0 p1 q"
  "(three_users l w v p0 p1 p2)\<lparr>rm_queue := w', rm_phase := (rm_phase (three_users l w v p0 p1 p2))(4 := q)\<rparr> = three_users l w' v p0 p1 q"
  "(three_users l w v p0 p1 p2)\<lparr>rm_woken := (rm_woken (three_users l w v p0 p1 p2))(3 := v'), rm_phase := (rm_phase (three_users l w v p0 p1 p2))(4 := q)\<rparr> = three_users l w v' p0 p1 q"
  by (auto simp: three_users_def fun_eq_iff)

lemma three_users_get:
  "rm_phase (three_users l w v p0 p1 p2) 2 = p0" "rm_phase (three_users l w v p0 p1 p2) 3 = p1"
  "rm_phase (three_users l w v p0 p1 p2) 4 = p2" "rm_lock (three_users l w v p0 p1 p2) = l"
  "rm_queue (three_users l w v p0 p1 p2) = w" "rm_woken (three_users l w v p0 p1 p2) 3 = v"
  by (simp_all add: three_users_def)

lemma run_words:
  "RwMutex_try_write (encode 0 False False False) = (True, encode 0 True False False)"
  "RwMutex_try_write (encode 0 True False False) = (False, encode 0 True False False)"
  "RwMutex_try_write (encode (Suc 0) False False False) = (False, encode (Suc 0) False False False)"
  "RwMutex_try_read (encode 0 True False False) = (False, encode (Suc 0) True False False)"
  "RwMutexWriteGuard_drop (encode (Suc 0) True False False) = encode (Suc 0) False False False"
  "RwMutex_undo_read (encode (Suc 0) False False False) = encode 0 False False False"
  using drop_encode(1) [of 0 False False False] drop_encode(5) [of "Suc 0" True False False]
  by (simp_all add: same_instructions try_write_encode try_read_encode)

lemma pop_waiting_3: "WaitQueue_pop waiting_3 = Some (3, WaitQueue_new)" "\<not> WaitQueue_is_empty waiting_3"
  "WaitQueue_pop WaitQueue_new = None"
  by (simp_all add: WaitQueue_pop_def WaitQueue_enqueue_def WaitQueue_new_def WaitQueue_is_empty_def)

definition lost_wakeup :: rm_state where
  "lost_wakeup = three_users 0 waiting_3 False RM_Done (RM_Waiting WantWrite) RM_Done"

abbreviation "writer_in p1 p2 \<equiv> three_users (encode 0 True False False) WaitQueue_new False (RM_Guard Writing) p1 p2"
abbreviation "writer_waited p1 p2 \<equiv> three_users (encode 0 True False False) waiting_3 False (RM_Guard Writing) p1 p2"

text \<open>Writer 2 enters; writer 3 fails, enqueues its waker, fails again and sleeps.\<close>

lemma first_steps:
  "rm_init (three_users (encode 0 False False False) WaitQueue_new False RM_Start RM_Start RM_Start)"
  "rm_step (three_users (encode 0 False False False) WaitQueue_new False RM_Start RM_Start RM_Start) (writer_in RM_Start RM_Start)"
  "rm_step (writer_in RM_Start RM_Start) (writer_in (RM_Retry WantWrite) RM_Start)"
  "rm_step (writer_in (RM_Retry WantWrite) RM_Start) (writer_waited (RM_Enqueued WantWrite) RM_Start)"
  "rm_step (writer_waited (RM_Enqueued WantWrite) RM_Start) (writer_waited (RM_Waiting WantWrite) RM_Start)"
proof -
  let ?W = "encode 0 True False False"
  let ?s0 = "three_users (encode 0 False False False) WaitQueue_new False RM_Start RM_Start RM_Start"
  show "rm_init ?s0"
    by (simp add: rm_init_def rm_start_def three_users_def RwMutex_new_def fun_eq_iff flip: encode_consts(1))
  show "rm_step ?s0 (writer_in RM_Start RM_Start)"
    using write_ok [of ?s0 2 First ?W] by (simp add: three_users_get three_users_set run_words attempts_def rm_got_def)
  show "rm_step (writer_in RM_Start RM_Start) (writer_in (RM_Retry WantWrite) RM_Start)"
    using write_fails [of "writer_in RM_Start RM_Start" 3 First ?W]
    by (simp add: three_users_get three_users_set run_words attempts_def rm_fail_def Waiter_new_pair_def)
  show "rm_step (writer_in (RM_Retry WantWrite) RM_Start) (writer_waited (RM_Enqueued WantWrite) RM_Start)"
    using enqueue [of "writer_in (RM_Retry WantWrite) RM_Start" 3 WantWrite]
    by (simp add: three_users_get three_users_set WaitQueue_new_def)
  show "rm_step (writer_waited (RM_Enqueued WantWrite) RM_Start) (writer_waited (RM_Waiting WantWrite) RM_Start)"
    using write_fails [of "writer_waited (RM_Enqueued WantWrite) RM_Start" 3 Again ?W]
    by (simp add: three_users_get three_users_set run_words attempts_def rm_fail_def)
qed

lemma first_half:
  "reachable_from rm_init rm_step
     (three_users (encode (Suc 0) True False False) waiting_3 False (RM_Guard Writing) (RM_Waiting WantWrite) (RM_ReadUndo Once))"
proof -
  let ?s4 = "writer_waited (RM_Waiting WantWrite) RM_Start"
  have "reachable_from rm_init rm_step ?s4"
    by (intro reach_step [where step = rm_step, OF _ first_steps(5)] reach_step [where step = rm_step, OF _ first_steps(4)]
      reach_step [where step = rm_step, OF _ first_steps(3)] reach_step [where step = rm_step, OF _ first_steps(2)] reach_init first_steps(1))
  moreover have "undoing (held \<circ> rm_phase ?s4) = {}" by (auto simp: undoing_def three_users_def)
  then have "rm_step ?s4 (three_users (encode (Suc 0) True False False) waiting_3 False (RM_Guard Writing) (RM_Waiting WantWrite) (RM_ReadUndo Once))"
    using read [of ?s4 4 Once False "encode (Suc 0) True False False"]
    by (simp add: three_users_get three_users_set run_words attempts_def)
  ultimately show ?thesis by (rule reach_step)
qed

lemma second_half:
  "reachable_from rm_init rm_step
     (three_users (encode (Suc 0) False False False) WaitQueue_new True RM_Done (RM_Waiting WantWrite) (RM_ReadUndo Once))"
proof -
  let ?R = "encode (Suc 0) False False False"
  let ?s5 = "three_users (encode (Suc 0) True False False) waiting_3 False (RM_Guard Writing) (RM_Waiting WantWrite) (RM_ReadUndo Once)"
  let ?s6 = "three_users ?R waiting_3 False (RM_Release True Outside) (RM_Waiting WantWrite) (RM_ReadUndo Once)"
  let ?s7 = "three_users ?R waiting_3 False (RM_Scanning True Outside) (RM_Waiting WantWrite) (RM_ReadUndo Once)"
  let ?s8 = "three_users ?R WaitQueue_new False (RM_Waking True 3 Outside) (RM_Waiting WantWrite) (RM_ReadUndo Once)"
  let ?s9 = "three_users ?R WaitQueue_new True (RM_Scanning True Outside) (RM_Waiting WantWrite) (RM_ReadUndo Once)"
  have "rm_step ?s5 ?s6" using drop_write [of ?s5 2] by (simp add: three_users_get three_users_set run_words)
  with first_half have "reachable_from rm_init rm_step ?s6" by (rule reach_step)
  moreover have "rm_step ?s6 ?s7" using wake_check [of ?s6 2 True Outside] by (simp add: three_users_get three_users_set pop_waiting_3)
  ultimately have "reachable_from rm_init rm_step ?s7" by (rule reach_step)
  moreover have "rm_step ?s7 ?s8" using wake_pop [of ?s7 2 True Outside 3 WaitQueue_new]
    by (simp add: three_users_get three_users_set pop_waiting_3)
  ultimately have "reachable_from rm_init rm_step ?s8" by (rule reach_step)
  moreover have "rm_step ?s8 ?s9" using wake [of ?s8 2 True 3 Outside True]
    by (simp add: three_users_get three_users_set Waker_wake_up_def)
  ultimately have "reachable_from rm_init rm_step ?s9" by (rule reach_step)
  moreover have "rm_step ?s9 (three_users ?R WaitQueue_new True RM_Done (RM_Waiting WantWrite) (RM_ReadUndo Once))"
    using wake_none [of ?s9 2 True Outside] by (simp add: three_users_get three_users_set pop_waiting_3 rm_after_def)
  ultimately show ?thesis by (rule reach_step)
qed

text \<open>C18. A wake-up can be lost: the lock can be free, with every other user done, while a writer sleeps in the
  queue. The writer is woken up while a failed \<open>try_read\<close> has not yet undone its increment, finds the word
  not zero and goes to sleep again; undoing the increment wakes up nobody.\<close>

theorem rwmutex_loses_wakeup:
  "reachable_from rm_init rm_step lost_wakeup \<and> rm_lock lost_wakeup = 0 \<and>
   rm_phase lost_wakeup 3 = RM_Waiting WantWrite \<and> \<not> rm_woken lost_wakeup 3 \<and>
   rm_phase lost_wakeup ` (- {3}) \<subseteq> {RM_Start, RM_Done}"
proof -
  let ?R = "encode (Suc 0) False False False"
  let ?s10 = "three_users ?R WaitQueue_new True RM_Done (RM_Waiting WantWrite) (RM_ReadUndo Once)"
  let ?s11 = "three_users ?R WaitQueue_new False RM_Done (RM_Retry WantWrite) (RM_ReadUndo Once)"
  let ?s12 = "three_users ?R waiting_3 False RM_Done (RM_Enqueued WantWrite) (RM_ReadUndo Once)"
  let ?s13 = "three_users ?R waiting_3 False RM_Done (RM_Waiting WantWrite) (RM_ReadUndo Once)"
  have "rm_step ?s10 ?s11" using wakes [of ?s10 3 WantWrite] by (simp add: three_users_get three_users_set Waker_do_wait_def)
  with second_half have "reachable_from rm_init rm_step ?s11" by (rule reach_step)
  moreover have "rm_step ?s11 ?s12" using enqueue [of ?s11 3 WantWrite]
    by (simp add: three_users_get three_users_set WaitQueue_new_def)
  ultimately have "reachable_from rm_init rm_step ?s12" by (rule reach_step)
  moreover have "rm_step ?s12 ?s13" using write_fails [of ?s12 3 Again ?R]
    by (simp add: three_users_get three_users_set run_words attempts_def rm_fail_def)
  ultimately have "reachable_from rm_init rm_step ?s13" by (rule reach_step)
  moreover have "rm_step ?s13 lost_wakeup" using read_undo [of ?s13 4 Once]
    by (simp add: three_users_get three_users_set run_words rm_fail_def lost_wakeup_def encode_consts(1))
  ultimately have "reachable_from rm_init rm_step lost_wakeup" by (rule reach_step)
  then show ?thesis by (auto simp: lost_wakeup_def three_users_def)
qed

text \<open>The state of the run in which writer 2 is inside, writer 3 sleeps and user 4 has incremented the word.\<close>

definition writer_inside :: rm_state where
  "writer_inside = three_users (encode (Suc 0) True False False) waiting_3 False (RM_Guard Writing) (RM_Waiting WantWrite) (RM_ReadUndo Once)"

theorem rwmutex_excludes_witness:
  "reachable_from rm_init rm_step writer_inside \<and> held (rm_phase writer_inside 2) = Writing \<and>
   (\<lambda>b. held (rm_phase writer_inside b)) ` (- {2}) \<inter> {Reading, Writing, UpReading, Upgrading, Upgraded, Downgraded} = {}"
proof -
  have r: "reachable_from rm_init rm_step writer_inside" using first_half by (simp only: writer_inside_def)
  have w: "held (rm_phase writer_inside 2) = Writing" by (simp add: writer_inside_def three_users_get)
  have ex: "held (rm_phase writer_inside b) \<notin> {Reading, Writing, UpReading, Upgrading, Upgraded, Downgraded}" if "2 \<noteq> b" for b
    using rwmutex_excludes [OF r that] w by blast
  have "(\<lambda>b. held (rm_phase writer_inside b)) ` (- {2}) \<inter> {Reading, Writing, UpReading, Upgrading, Upgraded, Downgraded} = {}"
  proof (rule equals0I)
    fix x assume "x \<in> (\<lambda>b. held (rm_phase writer_inside b)) ` (- {2}) \<inter> {Reading, Writing, UpReading, Upgrading, Upgraded, Downgraded}"
    then obtain b where b: "b \<in> - {2}" "x = held (rm_phase writer_inside b)"
      and x: "x \<in> {Reading, Writing, UpReading, Upgrading, Upgraded, Downgraded}" by (elim IntE imageE)
    from b(1) have "2 \<noteq> b" by simp
    from ex [OF this] x show False unfolding b(2) by (rule notE)
  qed
  with r w show ?thesis by blast
qed

end
