(* ===== verification/Rw_Mutex_Wakeups.thy ===== *)
theory Rw_Mutex_Wakeups
  imports Rw_Mutex
begin

text \<open>
  The wake-ups of the sleeping reader-writer lock when it is used through its blocking calls only: no user
  sleeps on a free lock without another one being about to attempt or to wake. A failed attempt of a blocking
  call also holds on to the word for a moment, but is followed by another attempt.
\<close>

section \<open>The invariant\<close>

definition taken :: "rm_state \<Rightarrow> nat \<Rightarrow> bool" where
  "taken s a \<longleftrightarrow> (\<exists>b all g. rm_phase s b = RM_Waking all a g)"

definition in_reach :: "rm_state \<Rightarrow> nat \<Rightarrow> bool" where
  "in_reach s a \<longleftrightarrow> a \<in> set (wakers (rm_queue s)) \<or> taken s a"

text \<open>Users whose waker does not exist yet, is enqueued, and may be woken to some effect.\<close>

fun fresh_user :: "rm_phase \<Rightarrow> bool" where
  "fresh_user RM_Start \<longleftrightarrow> True"
| "fresh_user (RM_ReadUndo att) \<longleftrightarrow> att \<noteq> Again"
| "fresh_user (RM_UpreadUndo att) \<longleftrightarrow> att \<noteq> Again"
| "fresh_user _ \<longleftrightarrow> False"

fun undoes_again :: "rm_phase \<Rightarrow> bool" where
  "undoes_again (RM_ReadUndo att) \<longleftrightarrow> att = Again"
| "undoes_again (RM_UpreadUndo att) \<longleftrightarrow> att = Again"
| "undoes_again _ \<longleftrightarrow> False"

fun waits :: "rm_phase \<Rightarrow> bool" where
  "waits (RM_Enqueued k) \<longleftrightarrow> True"
| "waits (RM_Waiting k) \<longleftrightarrow> True"
| "waits p \<longleftrightarrow> undoes_again p"

fun listens :: "rm_phase \<Rightarrow> bool" where
  "listens (RM_Retry k) \<longleftrightarrow> True"
| "listens (RM_Closing g) \<longleftrightarrow> g \<noteq> Outside"
| "listens p \<longleftrightarrow> waits p"

text \<open>Users that will call \<open>wake_all\<close> or are inside it.\<close>

fun wakes_all :: "rm_phase \<Rightarrow> bool" where
  "wakes_all (RM_Closing g) \<longleftrightarrow> g \<in> {Writing, Upgrading, Upgraded, Downgraded}"
| "wakes_all (RM_Guard g) \<longleftrightarrow> g \<in> {Writing, Upgrading, Upgraded, Downgraded}"
| "wakes_all (RM_Release all g) \<longleftrightarrow> all \<or> g \<in> {Writing, Upgrading, Upgraded, Downgraded}"
| "wakes_all (RM_Scanning all g) \<longleftrightarrow> all \<or> g \<in> {Writing, Upgrading, Upgraded, Downgraded}"
| "wakes_all (RM_Waking all w g) \<longleftrightarrow> all \<or> g \<in> {Writing, Upgrading, Upgraded, Downgraded}"
| "wakes_all _ \<longleftrightarrow> False"

text \<open>Users about to attempt or to wake, and users asleep; the flag is that of the user's waker.\<close>

fun acts :: "rm_phase \<Rightarrow> bool \<Rightarrow> bool" where
  "acts (RM_Retry k) v \<longleftrightarrow> True"
| "acts (RM_Enqueued k) v \<longleftrightarrow> True"
| "acts (RM_Release all g) v \<longleftrightarrow> True"
| "acts (RM_Scanning all g) v \<longleftrightarrow> True"
| "acts (RM_Waking all w g) v \<longleftrightarrow> True"
| "acts (RM_Waiting k) v \<longleftrightarrow> v"
| "acts _ v \<longleftrightarrow> False"

fun sleeps :: "rm_phase \<Rightarrow> bool \<Rightarrow> bool" where
  "sleeps (RM_Waiting k) v \<longleftrightarrow> \<not> v"
| "sleeps _ v \<longleftrightarrow> False"

abbreviation "acting s a \<equiv> acts (rm_phase s a) (rm_woken s a)"
abbreviation "sleeping s a \<equiv> sleeps (rm_phase s a) (rm_woken s a)"

definition wait_inv :: "rm_state \<Rightarrow> bool" where
  "wait_inv s \<longleftrightarrow> queue_ok (rm_queue s) \<and>
     (\<forall>a. fresh_user (rm_phase s a) \<longrightarrow> \<not> in_reach s a) \<and>
     (\<forall>a. waits (rm_phase s a) \<and> \<not> rm_woken s a \<longrightarrow> in_reach s a) \<and>
     (\<forall>a. in_reach s a \<and> \<not> rm_woken s a \<longrightarrow> listens (rm_phase s a)) \<and>
     (\<forall>a. undoes_again (rm_phase s a) \<and> \<not> rm_woken s a \<longrightarrow> taken s a \<or> (\<exists>b. wakes_all (rm_phase s b))) \<and>
     (\<forall>a. rm_lock s = 0 \<and> sleeping s a \<longrightarrow> (\<exists>b. acting s b))"

lemma wait_invD:
  assumes "wait_inv s"
  shows "queue_ok (rm_queue s)" "\<And>a. fresh_user (rm_phase s a) \<Longrightarrow> \<not> in_reach s a"
    "\<And>a. waits (rm_phase s a) \<Longrightarrow> \<not> rm_woken s a \<Longrightarrow> in_reach s a"
    "\<And>a. in_reach s a \<Longrightarrow> \<not> rm_woken s a \<Longrightarrow> listens (rm_phase s a)"
    "\<And>a. undoes_again (rm_phase s a) \<Longrightarrow> \<not> rm_woken s a \<Longrightarrow> taken s a \<or> (\<exists>b. wakes_all (rm_phase s b))"
    "\<And>a. rm_lock s = 0 \<Longrightarrow> sleeping s a \<Longrightarrow> \<exists>b. acting s b"
  using assms unfolding wait_inv_def by blast+

lemma wait_invI:
  assumes "queue_ok (rm_queue s)" "\<And>a. fresh_user (rm_phase s a) \<Longrightarrow> \<not> in_reach s a"
    "\<And>a. waits (rm_phase s a) \<Longrightarrow> \<not> rm_woken s a \<Longrightarrow> in_reach s a"
    "\<And>a. in_reach s a \<Longrightarrow> \<not> rm_woken s a \<Longrightarrow> listens (rm_phase s a)"
    "\<And>a. undoes_again (rm_phase s a) \<Longrightarrow> \<not> rm_woken s a \<Longrightarrow> taken s a \<or> (\<exists>b. wakes_all (rm_phase s b))"
    "\<And>a. rm_lock s = 0 \<Longrightarrow> sleeping s a \<Longrightarrow> \<exists>b. acting s b"
  shows "wait_inv s"
  using assms unfolding wait_inv_def by blast

lemma sleeps_waits: "sleeps p v \<Longrightarrow> waits p \<and> \<not> v"
  by (cases p) auto

lemma undoes_waits: "undoes_again p \<Longrightarrow> waits p"
  by (cases p) auto

lemma waking_user [simp]: "\<not> waits (RM_Waking all w g)" "\<not> listens (RM_Waking all w g)" "\<not> fresh_user (RM_Waking all w g)"
  by simp_all

lemma taken_move: "taken (rm_set a q s) w \<longleftrightarrow> (\<exists>all g. q = RM_Waking all w g) \<or> (\<exists>b all g. b \<noteq> a \<and> rm_phase s b = RM_Waking all w g)"
  by (auto simp: taken_def)

lemma taken_same [simp]: "taken (s\<lparr>rm_lock := l\<rparr>) w = taken s w" "taken (s\<lparr>rm_queue := q\<rparr>) w = taken s w" "taken (s\<lparr>rm_woken := f\<rparr>) w = taken s w"
  by (simp_all add: taken_def)

lemma taken_elsewhere:
  "(\<And>all g. rm_phase s a \<noteq> RM_Waking all w g) \<Longrightarrow>
    (\<exists>b all g. b \<noteq> a \<and> rm_phase s b = RM_Waking all w g) \<longleftrightarrow> taken s w"
  unfolding taken_def by metis

text \<open>A user in reach of nobody but the wakers that already took it: the queue is empty.\<close>

lemma taken_when_empty:
  assumes "wait_inv s" "wakers (rm_queue s) = []" "waits (rm_phase s x)" "\<not> rm_woken s x"
  shows "taken s x"
  using wait_invD(3) [OF assms(1,3,4)] assms(2) by (simp add: in_reach_def)

text \<open>One user moves and changes the word and its own flag, but neither the queue nor whom it wakes.\<close>

lemma wait_inv_move:
  assumes inv: "wait_inv s"
    and still: "\<And>all w g. rm_phase s a \<noteq> RM_Waking all w g" "\<And>all w g. q \<noteq> RM_Waking all w g"
    and fresh: "fresh_user q \<Longrightarrow> \<not> in_reach s a"
    and waiting: "waits q \<Longrightarrow> \<not> v \<Longrightarrow> in_reach s a"
    and listening: "in_reach s a \<Longrightarrow> \<not> v \<Longrightarrow> listens q"
    and undo: "undoes_again q \<Longrightarrow> \<not> v \<Longrightarrow> taken s a \<or> (\<exists>b. b \<noteq> a \<and> wakes_all (rm_phase s b))"
    and all: "wakes_all (rm_phase s a) \<Longrightarrow> wakes_all q \<or> wakers (rm_queue s) = []"
    and act: "lock = 0 \<Longrightarrow> acts q v \<or> (\<exists>b. b \<noteq> a \<and> acting s b) \<or> \<not> sleeps q v \<and> (\<forall>x. sleeping s x \<longrightarrow> (\<exists>b. b \<noteq> a \<and> acting s b))"
  shows "wait_inv (rm_set a q (s\<lparr>rm_lock := lock, rm_woken := (rm_woken s)(a := v)\<rparr>))" (is "wait_inv ?t")
proof (rule wait_invI)
  note i = wait_invD [OF inv]
  have tk: "taken ?t w \<longleftrightarrow> taken s w" for w
    unfolding taken_move using still taken_elsewhere [of s a w] by simp
  have r: "in_reach ?t w \<longleftrightarrow> in_reach s w" for w unfolding in_reach_def tk by simp
  show "queue_ok (rm_queue ?t)" using i(1) by simp
  show "\<not> in_reach ?t x" if "fresh_user (rm_phase ?t x)" for x
    unfolding r using that fresh i(2) [of x] by (cases "x = a") simp_all
  show "in_reach ?t x" if "waits (rm_phase ?t x)" "\<not> rm_woken ?t x" for x
    unfolding r using that waiting i(3) [of x] by (cases "x = a") simp_all
  show "listens (rm_phase ?t x)" if "in_reach ?t x" "\<not> rm_woken ?t x" for x
    using that listening i(4) [of x] unfolding r by (cases "x = a") simp_all
  show "taken ?t x \<or> (\<exists>b. wakes_all (rm_phase ?t b))" if x: "undoes_again (rm_phase ?t x)" "\<not> rm_woken ?t x" for x
  proof (cases "taken s x \<or> (\<exists>b. b \<noteq> a \<and> wakes_all (rm_phase s b))")
    case True
    then show ?thesis unfolding tk by (auto intro: exI)
  next
    case False
    then have "x \<noteq> a" using undo x by auto
    then have x': "undoes_again (rm_phase s x)" "\<not> rm_woken s x" using x by simp_all
    then have "wakes_all (rm_phase s a)" using i(5) [of x] False by metis
    then consider "wakes_all q" | "wakers (rm_queue s) = []" using all by blast
    then show ?thesis
    proof cases
      case 1
      then show ?thesis by (intro disjI2 exI [of _ a]) simp
    next
      case 2
      then show ?thesis unfolding tk using taken_when_empty [OF inv 2 undoes_waits [OF x'(1)] x'(2)] by blast
    qed
  qed
  show "\<exists>b. acting ?t b" if nl: "rm_lock ?t = 0" and sl: "sleeping ?t x" for x
  proof -
    have other: "\<exists>b. acting ?t b" if "b \<noteq> a" "acting s b" for b using that by (intro exI [of _ b]) simp
    consider "acts q v" | "\<exists>b. b \<noteq> a \<and> acting s b" | "\<not> sleeps q v" "\<forall>x. sleeping s x \<longrightarrow> (\<exists>b. b \<noteq> a \<and> acting s b)"
      using act nl by auto
    then show ?thesis
    proof cases
      case 1
      then show ?thesis by (intro exI [of _ a]) simp
    next
      case 2
      then show ?thesis using other by blast
    next
      case 3
      then have "x \<noteq> a" "sleeping s x" using sl by (auto split: if_splits)
      then show ?thesis using 3(2) other by blast
    qed
  qed
qed

section \<open>Who holds the word\<close>

lemma word_zero:
  assumes "rw_inv (rm_word s)" "rm_lock s = 0"
  shows "held (rm_phase s a) = Outside"
proof -
  let ?p = "held \<circ> rm_phase s"
  note i = rw_invD [OF assms(1), simplified]
  have "encode (card (counted ?p)) (writers ?p \<noteq> {}) (upreaders ?p \<noteq> {}) (users {Upgrading} ?p \<noteq> {}) = encode 0 False False False"
    using i(4) assms(2) encode_consts(1) by simp
  moreover have "card (counted ?p) < 2 ^ 61" using rw_invD(8) [OF assms(1)] by simp
  ultimately have n: "card (counted ?p) = 0" "writers ?p = {}" "upreaders ?p = {}" using encode_eq_iff [of _ 0] by auto
  have "finite (counted ?p)" using rw_invD(1) [OF assms(1)] by (intro finite_users) simp_all
  then have "counted ?p = {}" using n(1) by simp
  then show ?thesis using n(2,3) by (cases "?p a") (auto simp: users_def)
qed

lemma read_fails_why:
  assumes "rw_inv (rm_word s)" "RwMutex_try_read (rm_lock s) = (False, lock)" "card (counted (held \<circ> rm_phase s)) < 2 ^ 60"
  obtains b where "held (rm_phase s b) \<in> {Writing, Upgrading, Upgraded, Downgraded}"
proof -
  let ?p = "held \<circ> rm_phase s"
  have l: "rm_lock s = encode (card (counted ?p)) (writers ?p \<noteq> {}) (upreaders ?p \<noteq> {}) (users {Upgrading} ?p \<noteq> {})"
    and n: "card (counted ?p) < 2 ^ 61" using rw_invD(4,8) [OF assms(1)] by simp_all
  have "writers ?p \<noteq> {} \<or> users {Upgrading} ?p \<noteq> {}"
    using assms(2,3) unfolding l same_instructions try_read_encode [OF n] by auto
  then show thesis using that by (auto simp: users_def)
qed

lemma upread_fails_why:
  assumes "rw_inv (rm_word s)" "RwMutex_try_upread (rm_lock s) = (r, lock)"
  shows "r = UpreadUndo \<Longrightarrow> \<exists>b. held (rm_phase s b) \<in> {Writing, Upgrading, Upgraded, Downgraded}"
    "r = UpreadBusy \<Longrightarrow> \<exists>b. held (rm_phase s b) \<noteq> Outside"
proof -
  let ?p = "held \<circ> rm_phase s"
  have l: "rm_lock s = encode (card (counted ?p)) (writers ?p \<noteq> {}) (upreaders ?p \<noteq> {}) (users {Upgrading} ?p \<noteq> {})"
    and n: "card (counted ?p) < 2 ^ 61" using rw_invD(4,8) [OF assms(1)] by simp_all
  have r: "r = (if upreaders ?p \<noteq> {} then UpreadBusy else if writers ?p \<noteq> {} then UpreadUndo else UpreadOk)"
    using assms(2) unfolding l same_instructions try_upread_encode [OF n] by auto
  show "\<exists>b. held (rm_phase s b) \<in> {Writing, Upgrading, Upgraded, Downgraded}" if "r = UpreadUndo"
    using that unfolding r by (auto simp: users_def split: if_splits)
  have "held (rm_phase s b) \<noteq> Outside" if "b \<in> upreaders ?p" for b using that by auto
  then show "\<exists>b. held (rm_phase s b) \<noteq> Outside" if "r = UpreadBusy" using that unfolding r by (auto split: if_splits)
qed

lemma held_wakes_all: "held p \<in> {Writing, Upgrading, Upgraded, Downgraded} \<Longrightarrow> wakes_all p"
  by (cases p) auto

lemma wakes_all_cases: "wakes_all p \<Longrightarrow> held p \<noteq> Outside \<or> acts p v"
  by (cases p) auto

section \<open>Every step keeps the invariant\<close>

lemma attempts_cases:
  assumes "attempts p k att"
  shows "att \<noteq> Again \<Longrightarrow> fresh_user p" "att = Again \<Longrightarrow> waits p" "p \<noteq> RM_Waking all w g" "\<not> wakes_all p" "held p = Outside"
  using assms by (auto simp: attempts_def)

lemma inv_fail:
  assumes inv: "wait_inv s" and p: "att \<noteq> Again \<Longrightarrow> fresh_user (rm_phase s a)" "att = Again \<Longrightarrow> waits (rm_phase s a)"
    and act: "lock = 0 \<Longrightarrow> att = First \<or> att = Again \<and> (rm_woken s a \<or> (\<exists>b. b \<noteq> a \<and> acting s b))"
  shows "wait_inv (rm_fail a k att (s\<lparr>rm_lock := lock\<rparr>))"
proof -
  note i = wait_invD [OF inv]
  have still: "rm_phase s a \<noteq> RM_Waking all w g" "\<not> wakes_all (rm_phase s a)" for all w g
    using p by (cases "att = Again"; cases "rm_phase s a"; simp)+
  have idem: "s\<lparr>rm_lock := lock\<rparr> = s\<lparr>rm_lock := lock, rm_woken := (rm_woken s)(a := rm_woken s a)\<rparr>" by simp
  show ?thesis
  proof (cases att)
    case Once
    have "wait_inv (rm_set a RM_Done (s\<lparr>rm_lock := lock, rm_woken := (rm_woken s)(a := rm_woken s a)\<rparr>))"
      by (rule wait_inv_move [OF inv]) (use still p Once act i(2) [of a] in auto)
    then show ?thesis using Once by (simp add: rm_fail_def)
  next
    case First
    have "wait_inv (rm_set a (RM_Retry k) (s\<lparr>rm_lock := lock, rm_woken := (rm_woken s)(a := False)\<rparr>))"
      by (rule wait_inv_move [OF inv]) (use still in auto)
    then show ?thesis using First by (simp add: rm_fail_def Waiter_new_pair_def)
  next
    case Again
    have "wait_inv (rm_set a (RM_Waiting k) (s\<lparr>rm_lock := lock, rm_woken := (rm_woken s)(a := rm_woken s a)\<rparr>))"
      by (rule wait_inv_move [OF inv]) (use still p Again act i(3) [of a] in auto)
    then show ?thesis using Again by (simp add: rm_fail_def)
  qed
qed

lemma inv_got:
  assumes inv: "wait_inv s" and a: "attempts (rm_phase s a) k att" "g \<noteq> Outside" "lock \<noteq> 0"
  shows "wait_inv (rm_set a (rm_got att g) (s\<lparr>rm_lock := lock\<rparr>))"
proof -
  note i = wait_invD [OF inv] and p = attempts_cases [OF a(1)]
  have "wait_inv (rm_set a (rm_got att g) (s\<lparr>rm_lock := lock, rm_woken := (rm_woken s)(a := rm_woken s a)\<rparr>))"
    by (rule wait_inv_move [OF inv]) (use p a i(2) [of a] in \<open>auto simp: rm_got_def split: if_splits\<close>)
  then show ?thesis by simp
qed

lemma inv_undoing:
  assumes inv: "wait_inv s" and a: "attempts (rm_phase s a) k att" "q = RM_ReadUndo att \<or> q = RM_UpreadUndo att" "lock \<noteq> 0"
    and b: "held (rm_phase s b) \<in> {Writing, Upgrading, Upgraded, Downgraded}"
  shows "wait_inv (rm_set a q (s\<lparr>rm_lock := lock\<rparr>))"
proof -
  note i = wait_invD [OF inv] and p = attempts_cases [OF a(1)]
  have "b \<noteq> a" using b p(5) by auto
  then have "\<exists>b. b \<noteq> a \<and> wakes_all (rm_phase s b)" using held_wakes_all [OF b] by blast
  then have "wait_inv (rm_set a q (s\<lparr>rm_lock := lock, rm_woken := (rm_woken s)(a := rm_woken s a)\<rparr>))"
    by (cases "att = Again"; intro wait_inv_move [OF inv]; use p a i(2,3) [of a] in auto)
  then show ?thesis by simp
qed

fun after_guard :: "rm_phase \<Rightarrow> bool" where
  "after_guard (RM_Guard g) \<longleftrightarrow> True"
| "after_guard (RM_Release all g) \<longleftrightarrow> True"
| "after_guard RM_Done \<longleftrightarrow> True"
| "after_guard _ \<longleftrightarrow> False"

lemma inv_holder:
  assumes inv: "wait_inv s" and a: "rm_phase s a = RM_Guard g"
    and q: "after_guard q"
    and all: "wakes_all (RM_Guard g) \<Longrightarrow> wakes_all q" and act: "lock = 0 \<Longrightarrow> acts q (rm_woken s a)"
  shows "wait_inv (rm_set a q (s\<lparr>rm_lock := lock\<rparr>))"
proof -
  note i = wait_invD [OF inv]
  have "wait_inv (rm_set a q (s\<lparr>rm_lock := lock, rm_woken := (rm_woken s)(a := rm_woken s a)\<rparr>))"
    by (rule wait_inv_move [OF inv]) (use a q all act i(4) [of a] in \<open>auto elim: after_guard.elims\<close>)
  then show ?thesis by simp
qed

lemma inv_wakes_up:
  assumes inv: "wait_inv s" and a: "rm_phase s a = RM_Waiting k"
  shows "wait_inv (rm_set a (RM_Retry k) (s\<lparr>rm_woken := (rm_woken s)(a := False)\<rparr>))"
proof -
  have "wait_inv (rm_set a (RM_Retry k) (s\<lparr>rm_lock := rm_lock s, rm_woken := (rm_woken s)(a := False)\<rparr>))"
    by (rule wait_inv_move [OF inv]) (use a in auto)
  then show ?thesis by simp
qed

lemma inv_closes_waiter:
  assumes inv: "wait_inv s" and a: "rm_phase s a = RM_Closing g"
  shows "wait_inv (rm_set a (RM_Guard g) (s\<lparr>rm_woken := (rm_woken s)(a := True)\<rparr>))"
proof -
  have "\<exists>b. b \<noteq> a \<and> acting s b" if x: "sleeping s x" "rm_lock s = 0" for x
  proof -
    obtain b where b: "acting s b" using wait_invD(6) [OF inv x(2,1)] by blast
    then have "b \<noteq> a" using a by auto
    then show ?thesis using b by blast
  qed
  then have "wait_inv (rm_set a (RM_Guard g) (s\<lparr>rm_lock := rm_lock s, rm_woken := (rm_woken s)(a := True)\<rparr>))"
    by (intro wait_inv_move [OF inv]) (use a in auto)
  then show ?thesis by simp
qed

lemma inv_scans:
  assumes inv: "wait_inv s" and a: "rm_phase s a = RM_Release all g \<or> rm_phase s a = RM_Scanning all g"
    and q: "q = RM_Scanning all g \<or> q = rm_after g \<and> wakers (rm_queue s) = []"
  shows "wait_inv (rm_set a q s)"
proof -
  note i = wait_invD [OF inv]
  have "\<exists>b. b \<noteq> a \<and> acting s b" if x: "sleeping s x" "wakers (rm_queue s) = []" for x
  proof -
    have "taken s x" using taken_when_empty [OF inv x(2)] sleeps_waits [OF x(1)] by blast
    then obtain b where b: "\<exists>all g. rm_phase s b = RM_Waking all x g" by (auto simp: taken_def)
    then show ?thesis using a by (intro exI [of _ b]) auto
  qed
  then have "wait_inv (rm_set a q (s\<lparr>rm_lock := rm_lock s, rm_woken := (rm_woken s)(a := rm_woken s a)\<rparr>))"
    by (intro wait_inv_move [OF inv]) (use a q i(4) [of a] in \<open>auto simp: rm_after_def split: if_splits\<close>)
  then show ?thesis by simp
qed

lemma inv_enqueued:
  assumes inv: "wait_inv s" and a: "rm_phase s a = RM_Retry k" and len: "length (wakers (rm_queue s)) < 2 ^ 32 - 1"
  shows "wait_inv (rm_set a (RM_Enqueued k) (s\<lparr>rm_queue := WaitQueue_enqueue a (rm_queue s)\<rparr>))" (is "wait_inv ?t")
proof (rule wait_invI)
  note i = wait_invD [OF inv]
  have tk: "taken ?t w \<longleftrightarrow> taken s w" for w unfolding taken_move using a taken_elsewhere [of s a w] by simp
  have r: "in_reach ?t w \<longleftrightarrow> w = a \<or> in_reach s w" for w unfolding in_reach_def tk by auto
  show "queue_ok (rm_queue ?t)" using enqueue_ok [OF i(1) len] by simp
  show "\<not> in_reach ?t x" if "fresh_user (rm_phase ?t x)" for x using that i(2) [of x] unfolding r by (cases "x = a") simp_all
  show "in_reach ?t x" if "waits (rm_phase ?t x)" "\<not> rm_woken ?t x" for x
    using that i(3) [of x] unfolding r by (cases "x = a") simp_all
  show "listens (rm_phase ?t x)" if "in_reach ?t x" "\<not> rm_woken ?t x" for x
    using that i(4) [of x] unfolding r by (cases "x = a") simp_all
  show "taken ?t x \<or> (\<exists>b. wakes_all (rm_phase ?t b))" if x: "undoes_again (rm_phase ?t x)" "\<not> rm_woken ?t x" for x
  proof -
    have "x \<noteq> a" using x by auto
    then have "taken s x \<or> (\<exists>b. wakes_all (rm_phase s b))" using x i(5) [of x] by simp
    moreover have "b \<noteq> a" if "wakes_all (rm_phase s b)" for b using that a by auto
    ultimately show ?thesis unfolding tk by auto
  qed
  have "acting ?t a" by simp
  then show "\<exists>b. acting ?t b" for x by blast
qed

lemma inv_popped:
  assumes inv: "wait_inv s" and a: "rm_phase s a = RM_Scanning all g" and pop: "WaitQueue_pop (rm_queue s) = Some (w, queue)"
  shows "wait_inv (rm_set a (RM_Waking all w g) (s\<lparr>rm_queue := queue\<rparr>))" (is "wait_inv ?t")
proof (rule wait_invI)
  note i = wait_invD [OF inv] and q = pop_ok [OF wait_invD(1) [OF inv] pop]
  have tk: "taken ?t x \<longleftrightarrow> x = w \<or> taken s x" for x unfolding taken_move using a taken_elsewhere [of s a x] by auto
  have r: "in_reach ?t x \<longleftrightarrow> in_reach s x" for x unfolding in_reach_def tk using q by auto
  show "queue_ok (rm_queue ?t)" using q by simp
  show "\<not> in_reach ?t x" if "fresh_user (rm_phase ?t x)" for x using that i(2) [of x] unfolding r by (cases "x = a") simp_all
  show "in_reach ?t x" if "waits (rm_phase ?t x)" "\<not> rm_woken ?t x" for x
    using that i(3) [of x] unfolding r by (cases "x = a") simp_all
  show "listens (rm_phase ?t x)" if "in_reach ?t x" "\<not> rm_woken ?t x" for x
    using that a i(4) [of x] unfolding r by (cases "x = a") simp_all
  show "taken ?t x \<or> (\<exists>b. wakes_all (rm_phase ?t b))" if x: "undoes_again (rm_phase ?t x)" "\<not> rm_woken ?t x" for x
  proof -
    have "x \<noteq> a" using x by auto
    then have "taken s x \<or> (\<exists>b. wakes_all (rm_phase s b))" using x i(5) [of x] by simp
    moreover have "wakes_all (rm_phase ?t b)" if "wakes_all (rm_phase s b)" for b using that a by (cases "b = a") simp_all
    ultimately show ?thesis unfolding tk by blast
  qed
  have "acting ?t a" by simp
  then show "\<exists>b. acting ?t b" for x by blast
qed

lemma inv_woke:
  assumes inv: "wait_inv s" and word: "rw_inv (rm_word s)" and a: "rm_phase s a = RM_Waking all w g"
  shows "wait_inv (rm_set a (if \<not> rm_woken s w \<and> \<not> all then rm_after g else RM_Scanning all g)
    (s\<lparr>rm_woken := (rm_woken s)(w := True)\<rparr>))" (is "wait_inv (rm_set a ?q _)" is "wait_inv ?t")
proof (rule wait_invI)
  note i = wait_invD [OF inv]
  have q: "?q \<noteq> RM_Waking al x h" "\<not> waits ?q" "\<not> fresh_user ?q" for al x h by (simp_all add: rm_after_def)
  have tk: "taken s x" if "taken ?t x" for x using that q unfolding taken_move by (auto simp: taken_def)
  have tk': "taken ?t x" if "taken s x" "x \<noteq> w" for x
    unfolding taken_move using that a taken_elsewhere [of s a x] by simp
  have r: "in_reach s x" if "in_reach ?t x" for x using that tk unfolding in_reach_def by auto
  have r': "in_reach ?t x" if "in_reach s x" "x \<noteq> w" for x using that tk' unfolding in_reach_def by auto
  have w: "in_reach s w" using a by (auto simp: in_reach_def taken_def)
  show "queue_ok (rm_queue ?t)" using i(1) by simp
  show "\<not> in_reach ?t x" if "fresh_user (rm_phase ?t x)" for x using that i(2) [of x] r [of x] q(3) by (cases "x = a") auto
  show "in_reach ?t x" if "waits (rm_phase ?t x)" "\<not> rm_woken ?t x" for x
    using that i(3) [of x] r' [of x] q(2) by (cases "x = a") (auto split: if_splits)
  show "listens (rm_phase ?t x)" if x: "in_reach ?t x" "\<not> rm_woken ?t x" for x
  proof -
    have "listens (rm_phase s x)" using i(4) [OF r [OF x(1)]] x(2) by (auto split: if_splits)
    then show ?thesis using a by (cases "x = a") simp_all
  qed
  show "taken ?t x \<or> (\<exists>b. wakes_all (rm_phase ?t b))" if x: "undoes_again (rm_phase ?t x)" "\<not> rm_woken ?t x" for x
  proof -
    have "x \<noteq> w" "x \<noteq> a" using x q(2) undoes_waits by (auto split: if_splits)
    then have "taken s x \<or> (\<exists>b. wakes_all (rm_phase s b))" using x i(5) [of x] by simp
    moreover have "wakes_all (rm_phase ?t b)" if "wakes_all (rm_phase s b)" for b
      using that a by (cases "b = a") (auto simp: rm_after_def)
    ultimately show ?thesis using tk' [of x] \<open>x \<noteq> w\<close> by blast
  qed
  show "\<exists>b. acting ?t b" if l: "rm_lock ?t = 0" for x
  proof (cases "\<not> rm_woken s w \<and> \<not> all")
    case False
    then have "acting ?t a" by auto
    then show ?thesis by blast
  next
    case True
    have "listens (rm_phase s w)" "held (rm_phase s w) = Outside" using i(4) [OF w] True word_zero [OF word, of w] l by simp_all
    then have "acting ?t w" using a by (cases "rm_phase s w") auto
    then show ?thesis by blast
  qed
qed

section \<open>The blocking calls\<close>

text \<open>No user is undoing an attempt of \<open>try_read\<close> or \<open>try_upread\<close>, and at most \<open>MAX_READER\<close> users are counted.\<close>

definition blocking :: "rm_state \<Rightarrow> bool" where
  "blocking s \<longleftrightarrow> (\<forall>a. rm_phase s a \<notin> {RM_ReadUndo Once, RM_UpreadUndo Once}) \<and> card (counted (held \<circ> rm_phase s)) \<le> 2 ^ 60"

definition blocking_step :: "rm_state \<Rightarrow> rm_state \<Rightarrow> bool" where
  "blocking_step s t \<longleftrightarrow> rm_step s t \<and> blocking t"

definition rm_inv :: "rm_state \<Rightarrow> bool" where
  "rm_inv s \<longleftrightarrow> rw_inv (rm_word s) \<and> blocking s \<and> wait_inv s"

text \<open>An undone attempt of a blocking call that makes the word zero: its user was woken, or somebody is at it.\<close>

lemma undo_acts:
  assumes inv: "wait_inv s" and a: "undoes_again (rm_phase s a)"
    and zero: "\<And>b. b \<noteq> a \<Longrightarrow> held (rm_phase s b) = Outside"
  shows "rm_woken s a \<or> (\<exists>b. b \<noteq> a \<and> acting s b)"
proof (cases "rm_woken s a")
  case False
  consider "taken s a" | b where "wakes_all (rm_phase s b)" using wait_invD(5) [OF inv a False] by blast
  then show ?thesis
  proof cases
    case 1
    then obtain b where b: "\<exists>all g. rm_phase s b = RM_Waking all a g" by (auto simp: taken_def)
    then have "b \<noteq> a" using a by auto
    then show ?thesis using b by auto
  next
    case (2 b)
    then have "b \<noteq> a" using a by (cases "rm_phase s a") auto
    then show ?thesis using wakes_all_cases [OF 2] zero by blast
  qed
qed simp

lemma wait_inv_step:
  assumes inv: "rm_inv s" and step: "rm_step s t" "blocking t"
  shows "wait_inv t"
proof -
  have word: "rw_inv (rm_word s)" and bl: "blocking s" and w: "wait_inv s" using inv by (simp_all add: rm_inv_def)
  have word': "rw_inv (rm_word t)" by (rule rwmutex.invar_step [OF word step(1)])
  have zero: "held (rm_phase t b) = Outside" if "rm_lock t = 0" for b by (rule word_zero [OF word' that])
  show ?thesis
    using step(1)
  proof cases
    case (read a att ok lock)
    have "held (rm_phase t a) \<noteq> Outside" using read by simp
    then have nz: "lock \<noteq> 0" using zero [of a] read by auto
    show ?thesis
    proof (cases ok)
      case True
      then show ?thesis using read inv_got [OF w read(2) _ nz, of Reading] by simp
    next
      case False
      have "card (counted (held \<circ> rm_phase s)) < 2 ^ 60"
      proof -
        have "card (counted ((held \<circ> rm_phase s)(a := ReadUndo))) = Suc (card (counted (held \<circ> rm_phase s)))"
          by (rule card_users_enter) (use rw_invD(1) [OF word] attempts_cases(5) [OF read(2)] in simp_all)
        then show ?thesis using step(2) read False by (simp add: blocking_def)
      qed
      then obtain b where "held (rm_phase s b) \<in> {Writing, Upgrading, Upgraded, Downgraded}"
        using read_fails_why [OF word, of lock] read(4) False by metis
      then show ?thesis using read False inv_undoing [OF w read(2) _ nz] by simp
    qed
  next
    case (read_undo a att)
    have "att = First \<or> att = Again \<and> (rm_woken s a \<or> (\<exists>b. b \<noteq> a \<and> acting s b))"
      if "RwMutex_undo_read (rm_lock s) = 0"
    proof (cases "att = Again")
      case True
      have "held (rm_phase s b) = Outside" if "b \<noteq> a" for b
        using zero [of b] that read_undo True \<open>RwMutex_undo_read (rm_lock s) = 0\<close> by (simp add: rm_fail_def)
      then show ?thesis using undo_acts [OF w] read_undo True by simp
    next
      case False
      then show ?thesis using bl read_undo by (cases att) (auto simp: blocking_def)
    qed
    then show ?thesis using read_undo inv_fail [OF w] by simp
  next
    case (write_ok a att lock)
    have "lock \<noteq> 0" using zero [of a] write_ok by auto
    then show ?thesis using write_ok inv_got [OF w write_ok(2)] by simp
  next
    case (write_fails a att lock)
    have "rm_lock s \<noteq> 0" using write_fails by (auto simp: RwMutex_try_write_def)
    then have "wait_inv (rm_fail a WantWrite att (s\<lparr>rm_lock := rm_lock s\<rparr>))"
      using attempts_cases [OF write_fails(2)] by (intro inv_fail [OF w]) auto
    then show ?thesis using write_fails by simp
  next
    case (upread a att lock)
    have "lock \<noteq> 0" using zero [of a] upread by auto
    then show ?thesis using upread inv_got [OF w upread(2)] by simp
  next
    case (upread_fails a att lock)
    have nz: "lock \<noteq> 0" using zero [of a] upread_fails by auto
    show ?thesis using upread_fails upread_fails_why(1) [OF word upread_fails(3)] inv_undoing [OF w upread_fails(2) _ nz] by auto
  next
    case (upread_busy a att lock)
    obtain b where b: "held (rm_phase s b) \<noteq> Outside" using upread_fails_why(2) [OF word upread_busy(3)] by blast
    then have "b \<noteq> a" using attempts_cases(5) [OF upread_busy(2)] by auto
    then have "held (rm_phase t b) \<noteq> Outside" using b upread_busy by (cases att) (simp_all add: rm_fail_def)
    then have "lock \<noteq> 0" using zero [of b] upread_busy by (cases att) (auto simp: rm_fail_def)
    then show ?thesis using upread_busy attempts_cases [OF upread_busy(2)] inv_fail [OF w] by simp
  next
    case (upread_undo a att)
    have "att = First \<or> att = Again \<and> (rm_woken s a \<or> (\<exists>b. b \<noteq> a \<and> acting s b))"
      if "RwMutex_undo_upread (rm_lock s) = 0"
    proof (cases "att = Again")
      case True
      have "held (rm_phase s b) = Outside" if "b \<noteq> a" for b
        using zero [of b] that upread_undo True \<open>RwMutex_undo_upread (rm_lock s) = 0\<close> by (simp add: rm_fail_def)
      then show ?thesis using undo_acts [OF w] upread_undo True by simp
    next
      case False
      then show ?thesis using bl upread_undo by (cases att) (auto simp: blocking_def)
    qed
    then show ?thesis using upread_undo inv_fail [OF w] by simp
  next
    case enqueue
    then show ?thesis using inv_enqueued [OF w] by simp
  next
    case wakes
    then show ?thesis using inv_wakes_up [OF w] by (auto simp: Waker_do_wait_def split: if_splits)
  next
    case closes
    then show ?thesis using inv_closes_waiter [OF w] by (simp add: Waker_close_def)
  next
    case (drop_read a wake lock)
    then show ?thesis using inv_holder [OF w drop_read(2), of "if wake then RM_Release False Outside else RM_Done" lock] by (auto simp: RwMutexReadGuard_drop_def)
  next
    case (drop_write a)
    then show ?thesis using inv_holder [OF w drop_write(2), of "RM_Release True Outside"] by auto
  next
    case (drop_upread a wake lock)
    then show ?thesis using inv_holder [OF w drop_upread(2), of "if wake then RM_Release True Outside else RM_Done" lock] by (auto simp: RwMutexUpgradeableGuard_drop_def)
  next
    case (upgrade a)
    then show ?thesis using zero [of a] inv_holder [OF w upgrade(2), of "RM_Guard Upgrading"] by auto
  next
    case (try_upgrade a ok lock)
    moreover have "lock \<noteq> 0" using zero [of a] try_upgrade by (auto split: if_splits)
    ultimately show ?thesis using inv_holder [OF w try_upgrade(2), of "RM_Guard (if ok then Upgraded else Upgrading)" lock] by auto
  next
    case (upgraded a wake lock)
    moreover have "lock \<noteq> 0" using zero [of a] upgraded by (auto split: if_splits)
    ultimately show ?thesis using inv_holder [OF w upgraded(2), of "if wake then RM_Release True Writing else RM_Guard Writing" lock] by auto
  next
    case (try_downgrade a ok lock)
    moreover have "lock \<noteq> 0" using zero [of a] try_downgrade by (auto split: if_splits)
    ultimately show ?thesis using inv_holder [OF w try_downgrade(2), of "RM_Guard (if ok then Downgraded else Writing)" lock] by auto
  next
    case (downgraded a)
    then show ?thesis using inv_holder [OF w downgraded(2), of "RM_Release True UpReading"] by auto
  next
    case (wake_check a all g)
    then show ?thesis using inv_scans [OF w] is_empty_iff [OF wait_invD(1) [OF w]] by simp
  next
    case (wake_none a all g)
    then show ?thesis using inv_scans [OF w] by (simp add: pop_None)
  next
    case wake_pop
    then show ?thesis using inv_popped [OF w] by simp
  next
    case (wake a all w' g woke woken)
    then show ?thesis using inv_woke [OF w word, of a all w' g] by (auto simp: Waker_wake_up_def)
  qed
qed

interpretation blocking_calls: step_system rm_init blocking_step rm_inv
proof
  show "rm_inv s" if "rm_init s" for s
  proof -
    have s: "s = rm_start" using that by (simp add: rm_init_def)
    have "counted (held \<circ> rm_phase s) = {}" by (auto simp: users_def s rm_start_def)
    moreover have "wait_inv s"
      by (rule wait_invI) (simp_all add: s rm_start_def queue_ok_new in_reach_def taken_def, simp_all add: WaitQueue_new_def)
    ultimately show ?thesis using rwmutex.invar_init [OF that] by (simp add: rm_inv_def blocking_def s rm_start_def)
  qed
  show "rm_inv t" if "rm_inv s" "blocking_step s t" for s t
    using that wait_inv_step [of s t] rwmutex.invar_step [of s t] by (simp add: rm_inv_def blocking_step_def)
qed

text \<open>C17. With blocking calls no wake-up of the reader-writer lock is lost: while the lock is free and a user
  sleeps on it, some user is about to attempt to lock it again or about to wake sleeping users up.\<close>

theorem rwmutex_wakes_blocked:
  assumes "reachable_from rm_init blocking_step s" "rm_lock s = 0" "rm_phase s a = RM_Waiting k" "\<not> rm_woken s a"
  shows "\<exists>b. acting s b"
  using blocking_calls.reachable_invar [OF assms(1)] wait_invD(6) [of s a] assms(2-4) by (simp add: rm_inv_def)

lemma blocking_step_three_users:
  assumes "rm_step s (three_users l q v p0 p1 RM_Start)" "held p0 \<notin> {ReadUndo, Reading, UpreadUndoing}"
    "held p1 \<notin> {ReadUndo, Reading, UpreadUndoing}"
  shows "blocking_step s (three_users l q v p0 p1 RM_Start)"
proof -
  let ?t = "three_users l q v p0 p1 RM_Start"
  have t: "held (rm_phase ?t a) \<notin> {ReadUndo, Reading, UpreadUndoing}" for a using assms(2,3) by (auto simp: three_users_def)
  then have "counted (held \<circ> rm_phase ?t) = {}" by (auto simp: users_def)
  moreover have "rm_phase ?t a \<notin> {RM_ReadUndo Once, RM_UpreadUndo Once}" for a using t [of a] by auto
  ultimately show ?thesis using assms(1) by (simp add: blocking_step_def blocking_def)
qed

definition released_run :: rm_state where
  "released_run = three_users 0 waiting_3 False (RM_Release True Outside) (RM_Waiting WantWrite) RM_Start"

lemma released_run_reachable: "reachable_from rm_init blocking_step released_run"
proof -
  let ?s4 = "writer_waited (RM_Waiting WantWrite) RM_Start"
  note moves = first_steps(2,3,4,5) [THEN blocking_step_three_users, simplified]
  note start = reach_init [where init = rm_init and step = blocking_step]
  note go = reach_step [where init = rm_init and step = blocking_step]
  have "reachable_from rm_init blocking_step ?s4"
    by (intro start [OF first_steps(1)] go [OF _ moves(4)] go [OF _ moves(3)] go [OF _ moves(2)] go [OF _ moves(1)])
  moreover have "RwMutexWriteGuard_drop (encode 0 True False False) = 0"
    using drop_encode(5) [of 0 True False False] by (simp add: same_instructions encode_consts(1))
  then have "rm_step ?s4 released_run"
    using drop_write [of ?s4 2] by (simp add: three_users_get three_users_set released_run_def)
  then have "blocking_step ?s4 released_run"
    unfolding released_run_def by (rule blocking_step_three_users) simp_all
  ultimately show ?thesis by (rule reach_step)
qed

theorem rwmutex_wakes_blocked_witness: "\<exists>b. acting released_run b"
  using rwmutex_wakes_blocked [OF released_run_reachable, of 3 WantWrite] by (simp add: released_run_def three_users_def)

end
