(* ===== verification/Spec2Isabelle.thy ===== *)
theory Spec2Isabelle
  imports Id_Alloc Sparse_Id_Alloc File_Locks Cred_Invariants Frame_Properties Ring_Buffer_Spsc Mutex_Lock Rw_Mutex_Wakeups
begin

text \<open>
  A verification development for parts of the Asterinas kernel, a Rust operating system kernel with the Linux system
  call interface. Paths are relative to \<open>src/\<close>.

  \<^bold>\<open>The program and its parts.\<close> The kernel is built on OSTD (\<open>ostd/\<close>), which owns the unsafe code: page frames, tasks,
  interrupts and synchronisation. Frames come from the frame allocator crate (\<open>osdk/deps/frame-allocator/\<close>) that OSTD
  calls through the trait \<open>GlobalFrameAllocator\<close>. The kernel proper (\<open>kernel/core/\<close>) and its libraries (\<open>kernel/libs/\<close>)
  are safe Rust on top of OSTD. The components modelled here are those whose correctness is a matter of data structures,
  protocols and permissions and not of the hardware: they hand out resources (frames, identifiers), order concurrent
  accesses (locks, wait queues, ring buffers, file range locks) and decide what a thread may do (credentials).

  \<^bold>\<open>How the model is written.\<close> A struct is a record with its fields, an enum a datatype, a method a function named after
  the type and the method that returns the changed record. A function that can panic returns an \<open>outcome\<close> (\<open>Return\<close> or
  \<open>Panic\<close>); a function that returns \<open>Result\<close> returns a sum with the error number on the left. Words whose bits or
  wrap-around matter (lock words, ring counters, capability sets, user-space arguments, the free-size counter) are \<open>word\<close>
  values of their width; sizes, addresses and identifiers are naturals, with the overflow checks of the source written
  out. Where the frame allocator relies on the overflow checks of the compiler (\<open>lesser_order_of\<close>, the address in
  \<open>split_to_chunks\<close>) an overflow is a panic; a build without these checks wraps instead. Code that runs under a spin lock or with interrupts disabled is one step; lock-free code takes one step for each
  atomic instruction. Concurrent components are step relations whose invariants are proved through the locale
  \<open>step_system\<close>. Memory orderings weaker than sequential consistency are not modelled: an \<open>Acquire\<close> load that reads from
  a \<open>Release\<close> store is taken to order what is around them, which is how the code uses them.

  \<^bold>\<open>The theories.\<close>
  \<^item> \<open>Kernel_Prelude\<close>: outcomes, error numbers, slice operations by index, reachability with the locale \<open>step_system\<close>,
    and the locale \<open>simulation\<close> for implementations that answer every sequence of operations as a specification does.
    \<open>BTree_Map\<close>: the ordered map of the standard library as its sorted contents.
  \<^item> \<open>Id_Allocator\<close>: the contract of identifier allocators, as the locales \<open>id_allocator\<close> and \<open>strict_id_allocator\<close>.
    \<open>Id_Alloc\<close> (\<open>ostd/libs/id-alloc/src/lib.rs\<close>) and \<open>Sparse_Id_Alloc\<close> (\<open>kernel/libs/sparse-id-alloc/src/lib.rs\<close>)
    implement it: every allocation answers with the smallest free identifier, \<open>alloc_consecutive\<close> with the lowest run that
    fits. Below, the two are shown to answer alike.
  \<^item> \<open>File_Range\<close>, \<open>Range_Lock\<close> (\<open>kernel/core/src/fs/vfs/range_lock/\<close>) and \<open>File_Locks\<close> (the range-lock methods of
    \<open>kernel/core/src/fs/file/inode_handle.rs\<close> and the \<open>struct flock\<close> conversions of \<open>kernel/core/src/syscall/fcntl.rs\<close>):
    the list of locks of an inode refines the map from owners and offsets to lock types, write locks exclude, a blocked
    request is woken when its conflicts are gone, and the user-space structure survives a round trip.
  \<^item> \<open>Cap_Set\<close>, \<open>File_Capabilities\<close>, \<open>Credentials\<close> (\<open>kernel/core/src/process/credentials/\<close>), \<open>Cred_Syscalls\<close>
    (\<open>kernel/core/src/syscall/\<close>: the \<open>set*id\<close> calls, \<open>capset\<close>, \<open>prctl\<close>, the credentials of \<open>execve\<close>) and
    \<open>Cred_Invariants\<close>: over every sequence of calls the capability sets stay consistent, privileges do not grow where they
    must not, and locked secure bits stay locked; the parser of file capabilities accepts exactly the valid attributes.
  \<^item> \<open>Buddy_Chunk\<close>, \<open>Buddy_Set\<close>, \<open>Buddy_Pools\<close>, \<open>Frame_Cache\<close>, \<open>Smp_Counter\<close>, \<open>Frame_Allocator\<close>, \<open>Frame_Properties\<close>:
    the frame allocator bottom-up (\<open>chunk.rs\<close>, \<open>set.rs\<close>, \<open>pools/mod.rs\<close> with \<open>pools/balancing.rs\<close>, \<open>cache.rs\<close>,
    \<open>smp_counter.rs\<close>, \<open>lib.rs\<close>, and the system of all CPUs and their clients): no byte is lost or handed out twice, the
    buddy sets stay coalesced and find a block whenever there is one. A call of the allocator is one step of the system of
    all CPUs, with a step of its own for the unlocked size of the global pool being out of date. A read of the free-size
    counter is interleaved with updates load by load: it differs from the sum by the updates it missed.
  \<^item> \<open>Ring_Buffer\<close> and \<open>Ring_Buffer_Spsc\<close> (\<open>kernel/libs/ring-buffer/src/lib.rs\<close>): used from one thread the buffer is a
    bounded queue (\<open>commit_write\<close>, whose items are written in place, has a lemma of its own); a producer and a consumer
    that interleave access by access transmit the items in order, and neither waits for the other.
  \<^item> \<open>Rw_Lock\<close> (\<open>ostd/src/sync/rwlock.rs\<close>), \<open>Wait_Queue\<close> (\<open>wait.rs\<close>), \<open>Mutex_Lock\<close> (\<open>mutex.rs\<close>), \<open>Rw_Mutex\<close> and
    \<open>Rw_Mutex_Wakeups\<close> (\<open>rwmutex.rs\<close>): mutual exclusion for any number of users, the shape of the lock words, and that no
    wake-up is lost. \<open>Rw_Mutex\<close> reuses the invariant of \<open>Rw_Lock\<close> through the projection \<open>rm_word\<close>.

  \<^bold>\<open>Bounds.\<close> No definition uses fuel: every loop is structurally recursive or has a termination proof, and a call that
  blocks or spins is a phase of its user in a step relation. The bounds in the statements are those of the types:
  \<open>usize\<close> has 64 bits; a queue of wakers stays below \<open>2 ^ 32\<close> because the code counts its wakers in a \<open>u32\<close>; at most
  \<open>2 ^ 60 - 1\<close> readers of a reader-writer lock are at once between the increment and the decrement of a failed attempt,
  as otherwise the count runs into the flags (each such reader is a thread in the middle of a call, and there cannot be
  so many); \<open>rwmutex_wakes_blocked\<close> counts at most \<open>2 ^ 60\<close> readers. Physical addresses are at least one page below
  \<open>2 ^ 64\<close>. The witnesses evaluate the definitions on small instances.

  \<^bold>\<open>What the development shows to be wrong\<close>, each a theorem: execution with a locked \<open>KEEP_CAPS\<close> bit fails after its point
  of no return (\<open>locked_keep_caps_kills_exec\<close>); \<open>NO_SETUID_FIXUP\<close> does not keep the file-system capabilities
  (\<open>no_setuid_fixup_still_drops\<close>); balancing two nearly empty pools panics (\<open>balance_panics_iff\<close>); the cache of
  three-page segments ignores an alignment of two pages (\<open>cache_misaligns_three_frames\<close>); a failed \<open>try_read\<close> of the
  sleeping reader-writer lock can leave a writer asleep on a free lock (\<open>rwmutex_loses_wakeup\<close>), which cannot happen
  with its blocking calls (\<open>rwmutex_wakes_blocked\<close>). The free-size counter reads as zero from \<open>2 ^ 63\<close> on, where its
  documentation promises a correct value up to \<open>usize::MAX\<close> (\<open>smp_counter_read\<close>).

  \<^bold>\<open>Not modelled.\<close>
  \<^item> The page tables, frame metadata and virtual memory of OSTD and of the kernel, context switches, interrupts, boot and
    architecture support: hardware state behind raw pointers. The frame allocator sees the metadata as a set of frames in
    use; the locks see a sleeping task as a flag.
  \<^item> RCU and the spin lock: the spin lock is the atomicity of the steps, RCU needs a weak memory model.
  \<^item> File systems, the network stack, drivers and the disk library: disk and packet formats over device I/O, and
    libraries outside the sources (\<open>smoltcp\<close>, cryptography).
  \<^item> Process trees, signals, scheduling, futexes and System V IPC: shared graphs of tasks and timers. Credentials are
    modelled for the thread that owns them, which is the only one that stores to them.
  \<^item> Of the modelled files: \<open>Debug\<close> and other formatting; the other \<open>fcntl\<close> and \<open>prctl\<close> commands; cancelled waits of a
    wait queue; the value a lock protects; the bytes of an item of a ring buffer.
\<close>

section \<open>Properties that span components\<close>

text \<open>
  C26. The kernel has two identifier allocators with one purpose and different representations: a bitmap with a cached
  first free position, and an ordered map of allocated runs. Over the same identifiers, up to the largest universe the
  sparse allocator supports, they answer every sequence of allocations and releases alike, and with debug assertions
  enabled the bitmap allocator panics on exactly the sequences on which the sparse allocator panics.
\<close>

theorem id_allocators_agree:
  assumes "n \<le> u32_max"
  shows "and_then (serve IdAlloc_alloc (IdAlloc_free True) rs (IdAlloc_with_capacity (n + 1))) (\<lambda>(out, self'). Return out)
    = and_then (SparseIdAlloc_new 0 n) (\<lambda>self.
        and_then (serve SparseIdAlloc_alloc SparseIdAlloc_free rs self) (\<lambda>(out, self'). Return out))"
proof -
  from SparseIdAlloc_new_inv [OF _ assms, of 0] obtain self where
    self: "SparseIdAlloc_new 0 n = Return self" "SparseIdAlloc_inv self"
      "SparseIdAlloc_universe self = {0..n}" "SparseIdAlloc_in_use self = {}" by blast
  have "IdAlloc_inv (IdAlloc_with_capacity (n + 1))"
    by (rule IdAlloc_inv_with_capacity) (use assms in simp)
  moreover have "{..<n + 1} = {0..n}" by auto
  ultimately show ?thesis
    using self bitmap_debug.serve_answers [of "IdAlloc_with_capacity (n + 1)" rs] sparse.serve_answers [OF self(2), of rs] by simp
qed

lemma id_allocators_agree_witness:
  "and_then (serve IdAlloc_alloc (IdAlloc_free True) [Alloc_req, Alloc_req, Alloc_req, Free_req 0, Alloc_req] (IdAlloc_with_capacity (1 + 1)))
      (\<lambda>(out, self'). Return out) = Return [Some 0, Some 1, None, Some 0]"
proof -
  have le: "1 \<le> u32_max" by simp
  have "and_then (SparseIdAlloc_new 0 1) (\<lambda>self.
      and_then (serve SparseIdAlloc_alloc SparseIdAlloc_free [Alloc_req, Alloc_req, Alloc_req, Free_req 0, Alloc_req] self)
        (\<lambda>(out, self'). Return out))
    = Return [Some 0, Some 1, None, Some 0]"
    by (simp add: SparseIdAlloc_new_def SparseIdAlloc_alloc_def SparseIdAlloc_free_def
        absorb_next_run_def checked_add_u32_def add_u32_def btree_first_def btree_last_def btree_before_def)
  with le show ?thesis using id_allocators_agree [OF le, of "[Alloc_req, Alloc_req, Alloc_req, Free_req 0, Alloc_req]"] by (simp only:)
qed

end
